(* ===== verification/OS_Prelude.thy ===== *)
theory OS_Prelude
  imports Main "HOL-Library.Word"
begin

text \<open>
  The vocabulary every component of the kernel model shares: the C integer types as machine
  words (\<open>-m32\<close>: \<open>int\<close>, \<open>long\<close> and pointers are 32 bits wide), the ways a C function can
  fail to return, the sequencing of fallible steps, and generic lemmas on words.
\<close>

unbundle bit_operations_syntax

section \<open>The C integer types\<close>

type_synonym u8 = "8 word"
type_synonym u16 = "16 word"
type_synonym u32 = "32 word"

section \<open>Faults\<close>

text \<open>
  A call either returns a value and the new state, or does not return:
  \<^item> \<open>Halted s\<close>: it ended in the \<open>for (;;);\<close> of \<open>core/panic.c\<close>, with the machine left in \<open>s\<close>;
  \<^item> \<open>Buffer_overflow\<close>: it wrote or read outside a C array;
  \<^item> \<open>Null_call\<close>: it called a null function pointer;
  \<^item> \<open>Divide_error\<close>: it divided by zero;
  \<^item> \<open>Bad_vararg\<close>: it read a variadic argument that was not passed, or not with that type;
  \<^item> \<open>Diverges\<close>: a loop of it does not end.
\<close>

datatype 's fault =
    Halted 's
  | Buffer_overflow
  | Null_call
  | Divide_error
  | Bad_vararg
  | Diverges

type_synonym ('a, 's) result = "'s fault + 'a \<times> 's"

definition res_bind :: "'s fault + 'a \<Rightarrow> ('a \<Rightarrow> 's fault + 'b) \<Rightarrow> 's fault + 'b" where
  "res_bind r f = (case r of Inl e \<Rightarrow> Inl e | Inr x \<Rightarrow> f x)"

lemma res_bind_simps [simp]:
  "res_bind (Inl e) f = Inl e"
  "res_bind (Inr x) f = f x"
  by (simp_all add: res_bind_def)

lemma res_bind_Inr_iff:
  "res_bind r f = Inr y \<longleftrightarrow> (\<exists>x. r = Inr x \<and> f x = Inr y)"
  by (cases r) auto

lemma res_bind_assoc: "res_bind (res_bind r f) g = res_bind r (\<lambda>x. res_bind (f x) g)"
  by (cases r) auto

lemma res_bind_cong [fundef_cong]:
  "r = r' \<Longrightarrow> (\<And>x. r' = Inr x \<Longrightarrow> f x = g x) \<Longrightarrow> res_bind r f = res_bind r' g"
  by (cases r') auto

text \<open>A counted loop whose body may fail: the body runs on each element until one fails.\<close>

fun res_fold :: "('x \<Rightarrow> 's \<Rightarrow> (unit, 's) result) \<Rightarrow> 'x list \<Rightarrow> 's \<Rightarrow> (unit, 's) result" where
  "res_fold f [] s = Inr ((), s)"
| "res_fold f (x # xs) s = res_bind (f x s) (\<lambda>(_, s1). res_fold f xs s1)"

lemma res_fold_append:
  "res_fold f (xs @ ys) s = res_bind (res_fold f xs s) (\<lambda>(_, s1). res_fold f ys s1)"
proof (induction xs arbitrary: s)
  case (Cons x xs)
  show ?case by (cases "f x s") (auto simp: Cons.IH)
qed simp

lemma res_bind_unit [simp]: "res_bind r (\<lambda>(_, s1). Inr ((), s1)) = (r :: (unit, 's) result)"
  by (cases r) auto

lemma res_fold_map: "res_fold f (map g xs) s = res_fold (\<lambda>x. f (g x)) xs s"
proof (induction xs arbitrary: s)
  case (Cons x xs)
  show ?case by (cases "f (g x) s") (auto simp: Cons.IH)
qed simp

text \<open>A loop that may not end is an \<open>option\<close>; a missing result is the fault \<open>Diverges\<close>.\<close>

definition loop_result :: "('s fault + 'a) option \<Rightarrow> 's fault + 'a" where
  "loop_result r = (case r of None \<Rightarrow> Inl Diverges | Some x \<Rightarrow> x)"

lemma loop_result_simps [simp]:
  "loop_result None = Inl Diverges"
  "loop_result (Some x) = x"
  by (simp_all add: loop_result_def)

section \<open>Words\<close>

text \<open>\<open>word_offs\<close>: facts that turn word addresses into numbers.\<close>

named_theorems word_offs

lemma unat_add_small [word_offs]:
  fixes a b :: "'a::len word"
  assumes "unat a + unat b < 2 ^ LENGTH('a)"
  shows "unat (a + b) = unat a + unat b"
  using assms by (simp add: unat_word_ariths)

lemma unat_of_nat_small:
  assumes "n < 2 ^ LENGTH('a::len)"
  shows "unat (of_nat n :: 'a word) = n"
  using assms by (simp add: unat_of_nat take_bit_nat_eq_self)

lemma unat_of_nat32 [word_offs]: "n < 4294967296 \<Longrightarrow> unat (of_nat n :: u32) = n"
  by (rule unat_of_nat_small) simp

lemma unat_u8_bound: "unat (a :: u8) < 256"
  using unsigned_less [of a] by simp

lemma unat_u16_bound: "unat (a :: u16) < 65536"
  using unsigned_less [of a] by simp

lemma unat_u32_bound: "unat (a :: u32) < 4294967296"
  using unsigned_less [of a] by simp

lemma unat_sub_mod:
  fixes a b :: u32
  shows "unat (a - b) = (unat a + (4294967296 - unat b)) mod 4294967296"
proof (cases "unat b \<le> unat a")
  case True
  have "unat (a - b) = unat a - unat b"
    using True by (simp add: unat_sub word_le_nat_alt)
  moreover have "unat a + (4294967296 - unat b) = (unat a - unat b) + 4294967296"
    using True unat_u32_bound [of b] by simp
  moreover have "unat a - unat b < 4294967296"
    using unat_u32_bound [of a] by simp
  ultimately show ?thesis by simp
next
  case False
  then have "unat (a - b) = unat a + 2 ^ 32 - unat b"
    by (simp add: unat_sub_if')
  with False show ?thesis
    using unat_u32_bound [of a] unat_u32_bound [of b] by simp
qed

lemma sint_small [word_offs]:
  fixes a :: u32
  assumes "unat a < 2147483648"
  shows "sint a = int (unat a)"
proof -
  have "int (unat a) < 2147483648" using assms by linarith
  then have u: "uint a < 2147483648" by simp
  have l: "- 2147483648 \<le> uint a" by (rule order_trans [OF _ uint_ge_0]) simp
  have "sint a = signed_take_bit 31 (uint a)" by (simp add: sint_uint)
  also have "\<dots> = uint a"
    unfolding signed_take_bit_int_eq_self_iff using u l by simp
  finally show ?thesis by simp
qed

lemma sle_small:
  fixes a b :: u32
  assumes "unat a < 2147483648" and "unat b < 2147483648"
  shows "a <=s b \<longleftrightarrow> unat a \<le> unat b"
  unfolding word_sle_eq sint_small [OF assms(1)] sint_small [OF assms(2)] by (rule zle_int)

lemma unat_drop_bit_word: "unat (drop_bit n w) = unat (w :: 'a::len word) div 2 ^ n"
  by (metis drop_bit_eq_div unat_drop_bit_eq)

lemma ucast_of_nat_u8: "ucast (of_nat n :: u32) = (of_nat n :: u8)"
  by (simp add: word_unat_eq_iff unsigned_ucast_eq unat_of_nat take_bit_eq_mod mod_mod_cancel)

text \<open>Rounding down to a multiple of a power of two, the way C masks pointers.\<close>

lemma and_not_mask_shift: "w AND NOT (mask n) = push_bit n (drop_bit n (w :: 'a::len word))"
  by (rule bit_word_eqI) (auto simp: bit_simps)

lemma unat_and_not_mask:
  fixes w :: u32
  assumes "n < 32"
  shows "unat (w AND NOT (mask n)) = 2 ^ n * (unat w div 2 ^ n)"
proof -
  have n: "unat (2 ^ n :: u32) = 2 ^ n" 
    using assms unat_of_nat32 [of "2 ^ n"] power_strict_increasing [of n 32 "2 :: nat"] by simp
  have "unat w div 2 ^ n * 2 ^ n \<le> unat w" by simp
  then have le: "unat w div 2 ^ n * 2 ^ n < 4294967296" using unat_u32_bound [of w] by linarith
  have d: "unat (drop_bit n w) = unat w div 2 ^ n" by (rule unat_drop_bit_word)
  have "unat (push_bit n (drop_bit n w)) = unat (drop_bit n w * 2 ^ n)"
    by (simp only: push_bit_eq_mult)
  also have "\<dots> = (unat w div 2 ^ n * 2 ^ n) mod 2 ^ LENGTH(32)"
    unfolding unat_word_ariths(2) d n ..
  also have "\<dots> = 2 ^ n * (unat w div 2 ^ n)"
    using le by (simp add: mult.commute)
  finally show ?thesis by (simp only: and_not_mask_shift)
qed

lemma u32_of_nat_add: "(of_nat (a + b) :: u32) = of_nat a + of_nat b"
  by simp

end
