(* ===== verification/Machine.thy ===== *)
theory Machine
  imports OS_Prelude
begin

text \<open>
  The machine under the kernel and the memory primitives of \<open>core/kernel.c\<close>.

  The record \<open>machine\<close> holds what the C code reads and writes outside its own variables: the
  byte-addressed memory (\<open>mem\<close>, little endian), the I/O ports (\<open>port_out\<close>, the trace of every
  \<open>outb\<close> so far, oldest first; \<open>port_in\<close>/\<open>in_pos\<close>, the bytes each device will deliver and how
  many of them were taken), the interrupt flag and the control registers the inline assembly
  touches. Every later component extends this record by its own globals.
\<close>

section \<open>State\<close>

type_synonym mem = "u32 \<Rightarrow> u8"

record machine =
  mem :: mem
  port_out :: "(u16 \<times> u8) list"
  port_in :: "u16 \<Rightarrow> nat \<Rightarrow> u8"
  in_pos :: "u16 \<Rightarrow> nat"
  int_flag :: bool
  cr0 :: u32
  cr2 :: u32
  cr3 :: u32

section \<open>Loads and stores\<close>

definition load16 :: "mem \<Rightarrow> u32 \<Rightarrow> u16" where
  "load16 m a = ucast (m a) OR push_bit 8 (ucast (m (a + 1)))"

definition store16 :: "mem \<Rightarrow> u32 \<Rightarrow> u16 \<Rightarrow> mem" where
  "store16 m a v = m(a := ucast v, a + 1 := ucast (drop_bit 8 v))"

definition load32 :: "mem \<Rightarrow> u32 \<Rightarrow> u32" where
  "load32 m a = ucast (m a) OR push_bit 8 (ucast (m (a + 1)))
     OR push_bit 16 (ucast (m (a + 2))) OR push_bit 24 (ucast (m (a + 3)))"

definition store32 :: "mem \<Rightarrow> u32 \<Rightarrow> u32 \<Rightarrow> mem" where
  "store32 m a v = m(a := ucast v, a + 1 := ucast (drop_bit 8 v),
     a + 2 := ucast (drop_bit 16 v), a + 3 := ucast (drop_bit 24 v))"

section \<open>The operations of kernel.c\<close>

text \<open>\<open>size_t\<close> is \<open>long\<close> here (\<open>include/kernel.h\<close>): a count is signed, a negative one copies nothing.\<close>

definition memcpy :: "mem \<Rightarrow> u32 \<Rightarrow> u32 \<Rightarrow> u32 \<Rightarrow> mem" where
  "memcpy m dest src count =
     fold (\<lambda>i m. m(dest + of_nat i := m (src + of_nat i))) [0..<nat (sint count)] m"

definition memcpyw :: "mem \<Rightarrow> u32 \<Rightarrow> u32 \<Rightarrow> u32 \<Rightarrow> mem" where
  "memcpyw m dest src count =
     fold (\<lambda>i m. store16 m (dest + 2 * of_nat i) (load16 m (src + 2 * of_nat i)))
       [0..<nat (sint count)] m"

definition memset :: "mem \<Rightarrow> u32 \<Rightarrow> u32 \<Rightarrow> u32 \<Rightarrow> mem" where
  "memset m b val count =
     fold (\<lambda>i m. m(b + of_nat i := ucast val)) [0..<nat (sint count)] m"

definition memsetw :: "mem \<Rightarrow> u32 \<Rightarrow> u16 \<Rightarrow> u32 \<Rightarrow> mem" where
  "memsetw m dest val count =
     fold (\<lambda>i m. store16 m (dest + 2 * of_nat i) val) [0..<nat (sint count)] m"

text \<open>\<open>strlen\<close> scans until a zero byte; on a memory without one it never returns.\<close>

partial_function (option) strlen_loop :: "mem \<Rightarrow> u32 \<Rightarrow> u32 \<Rightarrow> u32 option" where
  "strlen_loop m str len = (if m (str + len) = 0 then Some len else strlen_loop m str (len + 1))"

definition strlen :: "mem \<Rightarrow> u32 \<Rightarrow> u32 option" where
  "strlen m str = strlen_loop m str 0"

definition inportb :: "u16 \<Rightarrow> 'a machine_scheme \<Rightarrow> u8 \<times> 'a machine_scheme" where
  "inportb port s = (port_in s port (in_pos s port),
     s\<lparr>in_pos := (in_pos s)(port := Suc (in_pos s port))\<rparr>)"

definition outportb :: "u16 \<Rightarrow> u8 \<Rightarrow> 'a machine_scheme \<Rightarrow> 'a machine_scheme" where
  "outportb port data s = s\<lparr>port_out := port_out s @ [(port, data)]\<rparr>"

section \<open>Reading back what was stored\<close>

text \<open>\<open>apart a n b k\<close>: the \<open>n\<close> bytes from \<open>a\<close> and the \<open>k\<close> bytes from \<open>b\<close> do not overlap.\<close>

definition apart :: "u32 \<Rightarrow> nat \<Rightarrow> u32 \<Rightarrow> nat \<Rightarrow> bool" where
  "apart a n b k \<longleftrightarrow> n \<le> unat (b - a) \<and> k \<le> unat (a - b)"

lemma apart_sym: "apart a n b k \<longleftrightarrow> apart b k a n"
  by (auto simp: apart_def)

lemma offset_neq:
  fixes a b :: u32
  assumes "apart a n b k" and "i < n" and "j < k"
    and "n \<le> 4294967296" and "k \<le> 4294967296"
  shows "a + of_nat i \<noteq> b + of_nat j"
proof
  assume eq: "a + of_nat i = b + of_nat j"
  have d: "n \<le> unat (b - a)" "k \<le> unat (a - b)"
    using assms(1) by (simp_all add: apart_def)
  show False
  proof (cases "j \<le> i")
    case True
    from eq have "b - a = of_nat i - of_nat j" by (simp add: algebra_simps)
    also have "\<dots> = of_nat (i - j)" using True by simp
    finally have "unat (b - a) = i - j"
      using assms(2,4) by (simp add: unat_of_nat32)
    with d assms(2) show False by simp
  next
    case False
    from eq have "a - b = of_nat j - of_nat i" by (simp add: algebra_simps)
    also have "\<dots> = of_nat (j - i)" using False by simp
    finally have "unat (a - b) = j - i"
      using assms(3,5) by (simp add: unat_of_nat32)
    with d assms(3) show False by simp
  qed
qed

lemma load32_store32_same [simp]: "load32 (store32 m a v) a = v"
proof (rule bit_word_eqI)
  fix n assume n: "n < LENGTH(32)"
  consider "n < 8" | "8 \<le> n" "n < 16" | "16 \<le> n" "n < 24" | "24 \<le> n"
    by linarith
  then show "bit (load32 (store32 m a v) a) n = bit v n"
    using n by cases (auto simp: load32_def store32_def bit_simps)
qed

lemma load16_store16_same [simp]: "load16 (store16 m a v) a = v"
proof (rule bit_word_eqI)
  fix n assume n: "n < LENGTH(16)"
  show "bit (load16 (store16 m a v) a) n = bit v n"
    using n by (cases "n < 8") (auto simp: load16_def store16_def bit_simps)
qed

lemma store32_other: "4 \<le> unat (c - a) \<Longrightarrow> store32 m a v c = m c"
  by (auto simp: store32_def)

lemma store16_other: "2 \<le> unat (c - a) \<Longrightarrow> store16 m a v c = m c"
  by (auto simp: store16_def)

lemma load32_cong:
  "(\<And>i. i < 4 \<Longrightarrow> m (a + of_nat i) = m' (a + of_nat i)) \<Longrightarrow> load32 m a = load32 m' a"
proof -
  assume *: "\<And>i. i < 4 \<Longrightarrow> m (a + of_nat i) = m' (a + of_nat i)"
  show ?thesis using *[of 0] *[of 1] *[of 2] *[of 3] by (simp add: load32_def)
qed

lemma load16_cong:
  "(\<And>i. i < 2 \<Longrightarrow> m (a + of_nat i) = m' (a + of_nat i)) \<Longrightarrow> load16 m a = load16 m' a"
proof -
  assume *: "\<And>i. i < 2 \<Longrightarrow> m (a + of_nat i) = m' (a + of_nat i)"
  show ?thesis using *[of 0] *[of 1] by (simp add: load16_def)
qed

lemma apart_offset:
  assumes "apart a n b k" and "i < k" and "n \<le> 4294967296" and "k \<le> 4294967296"
  shows "n \<le> unat (b + of_nat i - a)"
proof (rule ccontr)
  assume "\<not> ?thesis"
  then obtain j where j: "j < n" "unat (b + of_nat i - a) = j" by auto
  then have "b + of_nat i - a = of_nat j" by (metis of_nat_unat ucast_id)
  then have "a + of_nat j = b + of_nat i" by (simp add: algebra_simps)
  with offset_neq [OF assms(1) j(1) assms(2-4)] show False by simp
qed

lemma load32_store32_apart: "apart a 4 b 4 \<Longrightarrow> load32 (store32 m a v) b = load32 m b"
  by (rule load32_cong) (auto intro!: store32_other dest: apart_offset)

lemma load16_store16_apart: "apart a 2 b 2 \<Longrightarrow> load16 (store16 m a v) b = load16 m b"
  by (rule load16_cong) (auto intro!: store16_other dest: apart_offset)

lemma load32_store16_apart: "apart a 2 b 4 \<Longrightarrow> load32 (store16 m a v) b = load32 m b"
  by (rule load32_cong) (auto intro!: store16_other dest: apart_offset)

text \<open>Word-aligned addresses are equal or apart.\<close>

definition aligned4 :: "u32 \<Rightarrow> bool" where
  "aligned4 a \<longleftrightarrow> unat a mod 4 = 0"

lemma aligned4_diff:
  assumes "aligned4 a" and "aligned4 b"
  shows "aligned4 (a - b)"
proof -
  have "(unat a + (4294967296 - unat b)) mod 4294967296 mod 4 = (unat a + (4294967296 - unat b)) mod 4"
    by (rule mod_mod_cancel) simp
  also have "\<dots> = 0"
    using assms unat_u32_bound [of b] unfolding aligned4_def by presburger
  finally show ?thesis by (simp add: aligned4_def unat_sub_mod)
qed

lemma aligned4_apart:
  assumes "aligned4 a" and "aligned4 b" and "a \<noteq> b"
  shows "apart a 4 b 4"
proof -
  have "4 \<le> unat c" if "aligned4 c" "c \<noteq> 0" for c
    using that unfolding aligned4_def by (cases "unat c < 4") (auto simp: unat_eq_zero)
  then show ?thesis
    using assms aligned4_diff by (simp add: apart_def)
qed

lemma load32_store32_aligned:
  "aligned4 a \<Longrightarrow> aligned4 b \<Longrightarrow>
     load32 (store32 m a v) b = (if a = b then v else load32 m b)"
  using load32_store32_apart [OF aligned4_apart, of a b m v] by auto

section \<open>What the copy and fill loops do\<close>

lemma fold_byte_stores:
  fixes b x :: u32
  assumes "n \<le> 4294967296"
  shows "fold (\<lambda>i m. m(b + of_nat i := f i)) [0..<n] m x =
    (if unat (x - b) < n then f (unat (x - b)) else m x)"
  using assms
proof (induction n)
  case 0
  then show ?case by simp
next
  case (Suc n)
  have "x = b + of_nat n \<longleftrightarrow> unat (x - b) = n"
  proof
    assume "x = b + of_nat n"
    then show "unat (x - b) = n" using Suc.prems unat_of_nat32 [of n] by simp
  next
    assume "unat (x - b) = n"
    then have "x - b = of_nat n" by auto
    then show "x = b + of_nat n" by (simp add: algebra_simps)
  qed
  then show ?case
    using Suc by auto
qed

lemma sint_bound32: "nat (sint (c :: u32)) \<le> 4294967296"
  using sint_lt [of c] by simp

lemma memset_byte:
  "memset m b v c x = (if unat (x - b) < nat (sint c) then ucast v else m x)"
  unfolding memset_def by (rule fold_byte_stores [OF sint_bound32])

text \<open>\<open>memcpy\<close> may assume \<open>restrict\<close>: on blocks that do not overlap it copies every byte.\<close>

lemma memcpy_prefix:
  assumes "apart dest n src n" and "n \<le> 4294967296" and "k \<le> n"
  shows "fold (\<lambda>i m. m(dest + of_nat i := m (src + of_nat i))) [0..<k] m =
         fold (\<lambda>i m'. m'(dest + of_nat i := m (src + of_nat i))) [0..<k] m"
  using assms(3)
proof (induction k)
  case 0
  then show ?case by simp
next
  case (Suc k)
  have "fold (\<lambda>i m'. m'(dest + of_nat i := m (src + of_nat i))) [0..<k] m (src + of_nat k)
      = m (src + of_nat k)"
    using apart_offset [OF assms(1), of k] Suc.prems assms(2)
    by (subst fold_byte_stores) auto
  moreover have "[0..<Suc k] = [0..<k] @ [k]" by simp
  ultimately show ?case
    using Suc by (simp only: fold_append o_apply fold_simps Suc_leD)
qed

lemma memcpy_byte:
  assumes "apart dest (nat (sint c)) src (nat (sint c))"
  shows "memcpy m dest src c x =
    (if unat (x - dest) < nat (sint c) then m (src + (x - dest)) else m x)"
  unfolding memcpy_def
  by (subst memcpy_prefix [OF assms sint_bound32 order_refl], subst fold_byte_stores [OF sint_bound32])
    simp

end
