(* ===== verification/Console.thy ===== *)
theory Console
  imports Machine
begin

text \<open>
  The VGA text driver (\<open>core/vga.c\<close>): 80 by 25 cells of 16 bits in memory from \<open>textmemptr\<close>, a
  cursor and an attribute. \<open>csr_x\<close>, \<open>csr_y\<close> and \<open>attrib\<close> are C \<open>int\<close>s, kept as 32-bit words and
  compared as signed numbers. The theory proves what the memory operations do to the cells, the
  cursor invariant, and that the driver refines an abstract screen made of rows.
\<close>

section \<open>State and operations\<close>

record console = machine +
  textmemptr :: u32
  attrib :: u32
  csr_x :: u32
  csr_y :: u32

definition scroll :: "'a console_scheme \<Rightarrow> 'a console_scheme" where
  "scroll s = (let blank = 0x20 OR push_bit 8 (attrib s) in
     if 25 <=s csr_y s then
       (let temp = csr_y s - 25 + 1;
            m1 = memcpyw (mem s) (textmemptr s) (textmemptr s + 2 * (temp * 80)) ((25 - temp) * 80);
            m2 = memsetw m1 (textmemptr s + 2 * ((25 - temp) * 80)) (ucast blank) 80
        in s\<lparr>mem := m2, csr_y := 25 - 1\<rparr>)
     else s)"

definition move_csr :: "'a console_scheme \<Rightarrow> 'a console_scheme" where
  "move_csr s = (let temp = csr_y s * 80 + csr_x s in
     outportb 0x3D5 (ucast temp) (outportb 0x3D4 15
       (outportb 0x3D5 (ucast (drop_bit 8 temp)) (outportb 0x3D4 14 s))))"

definition cls :: "'a console_scheme \<Rightarrow> 'a console_scheme" where
  "cls s = (let blank = 0x20 OR push_bit 8 (attrib s);
       m = fold (\<lambda>i m. memsetw m (textmemptr s + 2 * (of_nat i * 80)) (ucast blank) 80)
             [0..<25] (mem s)
     in move_csr (s\<lparr>mem := m, csr_x := 0, csr_y := 0\<rparr>))"

definition putch_char :: "u8 \<Rightarrow> 'a console_scheme \<Rightarrow> 'a console_scheme" where
  "putch_char c s = (let att = push_bit 8 (attrib s) in
     if c = 0x08 then (if csr_x s \<noteq> 0 then s\<lparr>csr_x := csr_x s - 1\<rparr> else s)
     else if c = 0x09 then s\<lparr>csr_x := (csr_x s + 8) AND NOT (8 - 1)\<rparr>
     else if c = 0x0D then s\<lparr>csr_x := 0\<rparr>
     else if c = 0x0A then s\<lparr>csr_x := 0, csr_y := csr_y s + 1\<rparr>
     else if 0x20 \<le> c then
       s\<lparr>mem := store16 (mem s) (textmemptr s + 2 * (csr_y s * 80 + csr_x s)) (ucast (ucast c OR att)),
         csr_x := csr_x s + 1\<rparr>
     else s)"

definition putch :: "u8 \<Rightarrow> 'a console_scheme \<Rightarrow> 'a console_scheme" where
  "putch c s = (let s1 = putch_char c s;
       s2 = (if 80 <=s csr_x s1 then s1\<lparr>csr_x := 0, csr_y := csr_y s1 + 1\<rparr> else s1)
     in move_csr (scroll s2))"

text \<open>
  A \<open>char\<close> array is the list of its bytes, terminator included. Reading past its end is the
  fault \<open>Buffer_overflow\<close>.
\<close>

fun strlen_array :: "u8 list \<Rightarrow> nat option" where
  "strlen_array [] = None"
| "strlen_array (c # cs) = (if c = 0 then Some 0 else map_option Suc (strlen_array cs))"

definition puts :: "u8 list \<Rightarrow> 'a console_scheme \<Rightarrow> (unit, 'a console_scheme) result" where
  "puts text s = (case strlen_array text of
       None \<Rightarrow> Inl Buffer_overflow
     | Some len \<Rightarrow> Inr ((), fold (\<lambda>i. putch (text ! i)) [0..<len] s))"

definition settextcolor :: "u8 \<Rightarrow> u8 \<Rightarrow> 'a console_scheme \<Rightarrow> 'a console_scheme" where
  "settextcolor forecolor backcolor s =
     s\<lparr>attrib := push_bit 4 (ucast backcolor) OR (ucast forecolor AND 0x0F)\<rparr>"

definition resettextcolor :: "'a console_scheme \<Rightarrow> 'a console_scheme" where
  "resettextcolor s = settextcolor 15 0 s"

definition init_video :: "'a console_scheme \<Rightarrow> 'a console_scheme" where
  "init_video s = move_csr (s\<lparr>textmemptr := 0xB8000, csr_y := 10\<rparr>)"

section \<open>Cells\<close>

text \<open>\<open>cell m p k\<close>: the \<open>k\<close>-th character cell of the text memory at \<open>p\<close>.\<close>

definition cell :: "mem \<Rightarrow> u32 \<Rightarrow> nat \<Rightarrow> u16" where
  "cell m p k = load16 m (p + 2 * of_nat k)"

lemma unat_2_of_nat:
  assumes "k < 2000"
  shows "unat (2 * of_nat k :: u32) = 2 * k"
proof -
  have "(2 * of_nat k :: u32) = of_nat (2 * k)" by simp
  then show ?thesis using assms unat_of_nat32 [of "2 * k"] by simp
qed

lemma cells_apart:
  assumes "k < 2000" and "k' < 2000" and "k \<noteq> k'"
  shows "apart (p + 2 * of_nat k) 2 (p + 2 * of_nat k') 2"
proof -
  have "2 \<le> unat (2 * of_nat j - 2 * of_nat i :: u32)"
    if "i < 2000" "j < 2000" "i \<noteq> j" for i j
  proof (cases "i < j")
    case True
    then have "2 * j + 4294967296 - 2 * i = 2 * (j - i) + 4294967296" by simp
    then have "(2 * j + 4294967296 - 2 * i) mod 4294967296 = 2 * (j - i)"
      using that by (simp del: diff_mult_distrib2)
    then show ?thesis using that True by (simp add: unat_sub_mod unat_2_of_nat)
  next
    case False
    then have "2 * j + 4294967296 - 2 * i < 4294967296" "2 \<le> 2 * j + 4294967296 - 2 * i"
      using that by simp_all
    then show ?thesis using that by (simp add: unat_sub_mod unat_2_of_nat)
  qed
  note * = this
  show ?thesis using * [of k k'] * [of k' k] assms by (simp add: apart_def)
qed

lemma cell_store16:
  assumes "k < 2000" and "k' < 2000"
  shows "cell (store16 m (p + 2 * of_nat k) v) p k' = (if k = k' then v else cell m p k')"
  using assms cells_apart [OF assms, of p] by (simp add: cell_def load16_store16_apart)

text \<open>\<open>outside p m m'\<close>: the two memories agree on every byte outside the 4000 bytes of text.\<close>

definition outside :: "u32 \<Rightarrow> mem \<Rightarrow> mem \<Rightarrow> bool" where
  "outside p m m' \<longleftrightarrow> (\<forall>x. 4000 \<le> unat (x - p) \<longrightarrow> m' x = m x)"

lemma outside_refl [simp]: "outside p m m"
  by (simp add: outside_def)

lemma outside_trans [trans]: "outside p m m' \<Longrightarrow> outside p m' m'' \<Longrightarrow> outside p m m''"
  by (simp add: outside_def)

lemma outside_store16:
  assumes "k < 2000"
  shows "outside p m (store16 m (p + 2 * of_nat k) v)"
proof -
  have "x \<noteq> p + 2 * of_nat k" "x \<noteq> p + 2 * of_nat k + 1" if "4000 \<le> unat (x - p)" for x
  proof -
    have "unat (2 * of_nat k + 1 :: u32) = 2 * k + 1"
      using assms unat_of_nat32 [of "2 * k + 1"] by (simp add: add.commute)
    then show "x \<noteq> p + 2 * of_nat k" "x \<noteq> p + 2 * of_nat k + 1"
      using that assms unat_2_of_nat [OF assms] by auto
  qed
  then show ?thesis by (auto simp: outside_def store16_def)
qed

lemma outside_store16_after:
  "outside p m m' \<Longrightarrow> k < 2000 \<Longrightarrow> outside p m (store16 m' (p + 2 * of_nat k) v)"
  by (erule outside_trans) (rule outside_store16)

lemma cell_address_add: "p + 2 * of_nat j + 2 * of_nat l = (p + 2 * of_nat (j + l) :: u32)"
  by (simp add: algebra_simps)

lemma memsetw_cells_fold:
  assumes "j + l \<le> 2000"
  shows "(\<forall>k < 2000. cell (fold (\<lambda>i m. store16 m (p + 2 * of_nat j + 2 * of_nat i) v) [0..<l] m) p k =
      (if j \<le> k \<and> k < j + l then v else cell m p k)) \<and>
    outside p m (fold (\<lambda>i m. store16 m (p + 2 * of_nat j + 2 * of_nat i) v) [0..<l] m)"
  using assms
proof (induction l)
  case 0
  show ?case by auto
next
  case (Suc l)
  let ?m = "fold (\<lambda>i m. store16 m (p + 2 * of_nat j + 2 * of_nat i) v) [0..<l] m"
  have step: "fold (\<lambda>i m. store16 m (p + 2 * of_nat j + 2 * of_nat i) v) [0..<Suc l] m
    = store16 ?m (p + 2 * of_nat (j + l)) v"
    by (simp add: cell_address_add del: of_nat_add)
  have "j + l < 2000" using Suc.prems by simp
  then show ?case
    unfolding step using Suc
    by (auto simp: cell_store16 simp del: of_nat_add intro: outside_store16_after)
qed

lemma memsetw_cells:
  assumes "j + nat (sint n) \<le> 2000" and "k < 2000"
  shows "cell (memsetw m (p + 2 * of_nat j) v n) p k =
    (if j \<le> k \<and> k < j + nat (sint n) then v else cell m p k)"
  using memsetw_cells_fold [OF assms(1), of p v m] assms(2) by (simp add: memsetw_def)

lemma memsetw_outside:
  assumes "j + nat (sint n) \<le> 2000"
  shows "outside p m (memsetw m (p + 2 * of_nat j) v n)"
  using memsetw_cells_fold [OF assms, of p v m] by (simp add: memsetw_def)

text \<open>Copying towards lower addresses cell by cell moves the cells, although the blocks overlap.\<close>

lemma memcpyw_cells_fold:
  fixes p :: u32
  assumes "d + l \<le> 2000"
  defines "f \<equiv> \<lambda>i m. store16 m (p + 2 * of_nat i) (load16 m (p + 2 * of_nat d + 2 * of_nat i))"
  shows "(\<forall>k < 2000. cell (fold f [0..<l] m) p k = cell m p (if k < l then k + d else k)) \<and>
    outside p m (fold f [0..<l] m)"
  using assms(1)
proof (induction l)
  case 0
  then show ?case by simp
next
  case (Suc l)
  have step: "fold f [0..<Suc l] m
    = store16 (fold f [0..<l] m) (p + 2 * of_nat l) (cell (fold f [0..<l] m) p (d + l))"
    by (simp add: f_def cell_address_add cell_def del: of_nat_add)
  have "l < 2000" "d + l < 2000" using Suc.prems by simp_all
  then show ?case
    unfolding step using Suc
    by (auto simp: cell_store16 add.commute intro: outside_store16_after)
qed

lemma memcpyw_cells:
  assumes "d + nat (sint n) \<le> 2000" and "k < 2000"
  shows "cell (memcpyw m p (p + 2 * of_nat d) n) p k =
    cell m p (if k < nat (sint n) then k + d else k)"
  using memcpyw_cells_fold [OF assms(1), of p m] assms(2) by (simp add: memcpyw_def)

lemma memcpyw_outside:
  assumes "d + nat (sint n) \<le> 2000"
  shows "outside p m (memcpyw m p (p + 2 * of_nat d) n)"
  using memcpyw_cells_fold [OF assms, of p m] by (simp add: memcpyw_def)

section \<open>The abstract screen\<close>

text \<open>What the driver promises: 25 rows of 80 cells, a cursor inside them, scrolling by dropping
  the top row.\<close>

record screen =
  rows :: "u16 list list"
  cx :: nat
  cy :: nat
  colour :: u32

definition blank_cell :: "u32 \<Rightarrow> u16" where
  "blank_cell col = ucast (0x20 OR push_bit 8 col)"

definition char_cell :: "u8 \<Rightarrow> u32 \<Rightarrow> u16" where
  "char_cell c col = ucast (ucast c OR push_bit 8 col)"

definition scr_newline :: "screen \<Rightarrow> screen" where
  "scr_newline sc = (if Suc (cy sc) < 25 then sc\<lparr>cx := 0, cy := Suc (cy sc)\<rparr>
     else sc\<lparr>cx := 0, rows := tl (rows sc) @ [replicate 80 (blank_cell (colour sc))]\<rparr>)"

definition scr_putch :: "u8 \<Rightarrow> screen \<Rightarrow> screen" where
  "scr_putch c sc =
     (if c = 0x08 then sc\<lparr>cx := cx sc - 1\<rparr>
      else if c = 0x09 then
        (let x = 8 * Suc (cx sc div 8) in if x < 80 then sc\<lparr>cx := x\<rparr> else scr_newline sc)
      else if c = 0x0D then sc\<lparr>cx := 0\<rparr>
      else if c = 0x0A then scr_newline sc
      else if 0x20 \<le> c then
        (let sc1 = sc\<lparr>rows := (rows sc)[cy sc := ((rows sc) ! cy sc)[cx sc := char_cell c (colour sc)]]\<rparr>
         in if Suc (cx sc) < 80 then sc1\<lparr>cx := Suc (cx sc)\<rparr> else scr_newline sc1)
      else sc)"

definition text_rows :: "mem \<Rightarrow> u32 \<Rightarrow> u16 list list" where
  "text_rows m p = map (\<lambda>r. map (\<lambda>c. cell m p (80 * r + c)) [0..<80]) [0..<25]"

definition screen_of :: "'a console_scheme \<Rightarrow> screen" where
  "screen_of s = \<lparr>rows = text_rows (mem s) (textmemptr s), cx = unat (csr_x s), cy = unat (csr_y s),
     colour = attrib s\<rparr>"

definition console_ok :: "'a console_scheme \<Rightarrow> bool" where
  "console_ok s \<longleftrightarrow> unat (csr_x s) < 80 \<and> unat (csr_y s) < 25"

lemma screen_of_sel [simp]:
  "rows (screen_of s) = text_rows (mem s) (textmemptr s)" "cx (screen_of s) = unat (csr_x s)"
  "cy (screen_of s) = unat (csr_y s)" "colour (screen_of s) = attrib s"
  by (simp_all add: screen_of_def)

lemma scr_newline_cx [simp]: "scr_newline (sc\<lparr>cx := n\<rparr>) = scr_newline sc"
  by (simp add: scr_newline_def)

lemma text_rows_length [simp]: "length (text_rows m p) = 25" "r < 25 \<Longrightarrow> length (text_rows m p ! r) = 80"
  by (simp_all add: text_rows_def)

lemma text_rows_nth: "r < 25 \<Longrightarrow> c < 80 \<Longrightarrow> text_rows m p ! r ! c = cell m p (80 * r + c)"
  by (simp add: text_rows_def)

lemma text_rows_eqI:
  assumes "length xs = 25" and "\<And>r. r < 25 \<Longrightarrow> length (xs ! r) = 80"
    and "\<And>r c. r < 25 \<Longrightarrow> c < 80 \<Longrightarrow> cell m p (80 * r + c) = xs ! r ! c"
  shows "text_rows m p = xs"
  using assms by (auto intro!: nth_equalityI simp: text_rows_nth)

lemma cell_index_bound: "r < 25 \<Longrightarrow> c < 80 \<Longrightarrow> 80 * r + c < (2000::nat)"
  by simp

lemma cell_index_eq:
  assumes "c < 80" and "c' < 80"
  shows "80 * r + c = 80 * r' + c' \<longleftrightarrow> r = r' \<and> c = (c'::nat)"
proof
  assume e: "80 * r + c = 80 * r' + c'"
  have "r = (80 * r + c) div 80" "r' = (80 * r' + c') div 80" using assms by simp_all
  with e show "r = r' \<and> c = c'" by simp
qed simp

lemma text_rows_store:
  assumes "r < 25" and "c < 80"
  shows "text_rows (store16 m (p + 2 * of_nat (80 * r + c)) v) p
    = (text_rows m p)[r := (text_rows m p ! r)[c := v]]"
proof (rule text_rows_eqI)
  fix r' c' :: nat assume rc: "r' < 25" "c' < 80"
  have "cell (store16 m (p + 2 * of_nat (80 * r + c)) v) p (80 * r' + c')
    = (if r = r' \<and> c = c' then v else cell m p (80 * r' + c'))"
    using cell_store16 [OF cell_index_bound [OF assms] cell_index_bound [OF rc]]
      cell_index_eq [OF assms(2) rc(2)] by metis
  then show "cell (store16 m (p + 2 * of_nat (80 * r + c)) v) p (80 * r' + c')
    = (text_rows m p)[r := (text_rows m p ! r)[c := v]] ! r' ! c'"
    using assms rc by (simp add: nth_list_update text_rows_nth del: of_nat_add of_nat_mult)
qed (use assms in \<open>simp_all add: nth_list_update\<close>)

text \<open>The scrolled memory: the rows move up by one and the last one is blank.\<close>

lemma text_rows_scrolled:
  defines "m' \<equiv> \<lambda>m p v. memsetw (memcpyw m p (p + 2 * 80) 1920) (p + 2 * 1920) v 80"
  shows "text_rows (m' m p v) p = tl (text_rows m p) @ [replicate 80 v]"
    and "outside p m (m' m p v)"
proof -
  have c: "cell (m' m p v) p k = (if 1920 \<le> k then v else cell m p (k + 80))" if "k < 2000" for k
    using that memsetw_cells [of 1920 80 k "memcpyw m p (p + 2 * 80) 1920" p v]
      memcpyw_cells [of 80 1920 k m p]
    by (auto simp: m'_def)
  show "text_rows (m' m p v) p = tl (text_rows m p) @ [replicate 80 v]"
    by (rule text_rows_eqI)
      (auto simp: c nth_append nth_tl text_rows_nth cell_index_bound algebra_simps)
  have "outside p m (memcpyw m p (p + 2 * 80) 1920)"
    using memcpyw_outside [of 80 1920 p m] by simp
  also have "outside p (memcpyw m p (p + 2 * 80) 1920) (m' m p v)"
    using memsetw_outside [of 1920 80 p "memcpyw m p (p + 2 * 80) 1920" v] by (simp add: m'_def)
  finally show "outside p m (m' m p v)" .
qed

section \<open>The driver refines the abstract screen\<close>

lemma sle_25: "unat y \<le> 25 \<Longrightarrow> (25 <=s y) = (y = (25 :: u32))"
  using sle_small [of 25 y] word_unat_eq_iff [of y 25] by auto

lemma sle_80: "unat x \<le> 80 \<Longrightarrow> (80 <=s x) = (x = (80 :: u32))"
  using sle_small [of 80 x] word_unat_eq_iff [of x 80] by auto

lemma sle_80_less: "unat x < 80 \<Longrightarrow> \<not> 80 <=s (x :: u32)"
  using sle_small [of 80 x] by auto

lemma move_csr_frame [simp]:
  "mem (move_csr s) = mem s" "textmemptr (move_csr s) = textmemptr s" "attrib (move_csr s) = attrib s"
  "csr_x (move_csr s) = csr_x s" "csr_y (move_csr s) = csr_y s"
  by (simp_all add: move_csr_def outportb_def Let_def)

lemma move_csr_screen [simp]: "screen_of (move_csr s) = screen_of s" "console_ok (move_csr s) = console_ok s"
  by (simp_all add: screen_of_def console_ok_def)

lemma scroll_screen:
  assumes "unat (csr_x s) < 80" and "unat (csr_y s) \<le> 25"
  shows "screen_of (scroll s) =
      (if unat (csr_y s) = 25
       then (screen_of s)\<lparr>rows := tl (rows (screen_of s)) @ [replicate 80 (blank_cell (attrib s))], cy := 24\<rparr>
       else screen_of s)"
    and "console_ok (scroll s)"
    and "outside (textmemptr s) (mem s) (mem (scroll s))"
    and "textmemptr (scroll s) = textmemptr s"
proof -
  have eq: "csr_y s = 25 \<longleftrightarrow> unat (csr_y s) = 25"
    using word_unat_eq_iff [of "csr_y s" 25] by simp
  note scr = text_rows_scrolled [simplified, where m = "mem s" and p = "textmemptr s" and v = "blank_cell (attrib s)"]
  show "screen_of (scroll s) =
      (if unat (csr_y s) = 25
       then (screen_of s)\<lparr>rows := tl (rows (screen_of s)) @ [replicate 80 (blank_cell (attrib s))], cy := 24\<rparr>
       else screen_of s)"
    using scr(1) assms(2) by (simp add: scroll_def screen_of_def blank_cell_def sle_25 flip: eq)
  show "console_ok (scroll s)"
    using assms eq by (auto simp: scroll_def console_ok_def sle_25)
  show "outside (textmemptr s) (mem s) (mem (scroll s))"
    using scr(2) assms(2) by (simp add: scroll_def blank_cell_def sle_25)
  show "textmemptr (scroll s) = textmemptr s"
    by (simp add: scroll_def)
qed

text \<open>A tab stop is the next multiple of eight.\<close>

lemma tab_stop:
  fixes x :: u32
  assumes "unat x < 80"
  shows "unat ((x + 8) AND NOT (8 - 1)) = 8 * Suc (unat x div 8)"
proof -
  have "unat (x + 8) = unat x + 8" using assms by (simp add: unat_add_small)
  moreover have "(8 - 1 :: u32) = mask 3" by (simp add: mask_eq_exp_minus_1)
  moreover have "(unat x + 8) div 8 = Suc (unat x div 8)" by simp
  ultimately show ?thesis using unat_and_not_mask [of 3 "x + 8"] by simp
qed

text \<open>\<open>advance\<close>: the wrap at the right edge, the scroll and the cursor write that end \<open>putch\<close>.\<close>

definition advance :: "'a console_scheme \<Rightarrow> 'a console_scheme" where
  "advance s = move_csr (scroll (if 80 <=s csr_x s then s\<lparr>csr_x := 0, csr_y := csr_y s + 1\<rparr> else s))"

lemma putch_advance: "putch c s = advance (putch_char c s)"
  by (simp add: putch_def advance_def Let_def)

lemma unat_inc_small: "unat y < 25 \<Longrightarrow> unat (y + 1 :: u32) = Suc (unat y)"
  using unat_add_small [of y 1] by simp

lemma advance_screen:
  assumes "unat (csr_x s) \<le> 80" and "unat (csr_y s) < 25"
  shows "screen_of (advance s) =
      (if unat (csr_x s) = 80 then scr_newline (screen_of s) else screen_of s)"
    and "console_ok (advance s)"
    and "outside (textmemptr s) (mem s) (mem (advance s))"
    and "textmemptr (advance s) = textmemptr s"
proof -
  have eq: "csr_x s = 80 \<longleftrightarrow> unat (csr_x s) = 80"
    using word_unat_eq_iff [of "csr_x s" 80] by simp
  let ?s = "if 80 <=s csr_x s then s\<lparr>csr_x := 0, csr_y := csr_y s + 1\<rparr> else s"
  have pre: "unat (csr_x ?s) < 80" "unat (csr_y ?s) \<le> 25"
    using assms sle_80 [OF assms(1)] eq by (auto simp: unat_inc_small)
  have same: "mem ?s = mem s" "textmemptr ?s = textmemptr s" by simp_all
  show "screen_of (advance s) =
      (if unat (csr_x s) = 80 then scr_newline (screen_of s) else screen_of s)"
    using assms sle_80 [OF assms(1)] eq scroll_screen(1) [OF pre]
    by (auto simp: advance_def screen_of_def scr_newline_def unat_inc_small split: if_splits)
  show "console_ok (advance s)"
    using scroll_screen(2) [OF pre] by (simp add: advance_def)
  show "outside (textmemptr s) (mem s) (mem (advance s))"
    using scroll_screen(3) [OF pre] same by (simp add: advance_def)
  show "textmemptr (advance s) = textmemptr s"
    using scroll_screen(4) [OF pre] same by (simp add: advance_def)
qed

text \<open>A line feed is not an advance past column 80, yet ends the line the same way.\<close>

lemma advance_newline:
  assumes "unat (csr_y s) < 25"
  shows "screen_of (advance (s\<lparr>csr_x := 0, csr_y := csr_y s + 1\<rparr>)) = scr_newline (screen_of s)"
    and "console_ok (advance (s\<lparr>csr_x := 0, csr_y := csr_y s + 1\<rparr>))"
    and "outside (textmemptr s) (mem s) (mem (advance (s\<lparr>csr_x := 0, csr_y := csr_y s + 1\<rparr>)))"
    and "textmemptr (advance (s\<lparr>csr_x := 0, csr_y := csr_y s + 1\<rparr>)) = textmemptr s"
proof -
  let ?s = "s\<lparr>csr_x := 0, csr_y := csr_y s + 1\<rparr>"
  have pre: "unat (csr_x ?s) < 80" "unat (csr_y ?s) \<le> 25"
    using assms by (auto simp: unat_inc_small)
  have adv: "advance ?s = move_csr (scroll ?s)"
    using sle_80_less [of 0] by (simp add: advance_def)
  show "screen_of (advance ?s) = scr_newline (screen_of s)"
    unfolding adv using assms scroll_screen(1) [OF pre]
    by (auto simp: screen_of_def scr_newline_def unat_inc_small)
  show "console_ok (advance ?s)" "outside (textmemptr s) (mem s) (mem (advance ?s))"
    "textmemptr (advance ?s) = textmemptr s"
    unfolding adv using scroll_screen(2-4) [OF pre] by simp_all
qed

lemma putch_char_visible:
  assumes "console_ok s" and "0x20 \<le> c"
  defines "s1 \<equiv> s\<lparr>mem := store16 (mem s) (textmemptr s + 2 * (csr_y s * 80 + csr_x s))
      (ucast (ucast c OR push_bit 8 (attrib s))), csr_x := csr_x s + 1\<rparr>"
  shows "putch_char c s = s1"
    and "screen_of s1 = (screen_of s)\<lparr>rows := (rows (screen_of s))[unat (csr_y s) :=
      (rows (screen_of s) ! unat (csr_y s))[unat (csr_x s) := char_cell c (attrib s)]],
      cx := Suc (unat (csr_x s))\<rparr>"
    and "outside (textmemptr s) (mem s) (mem s1)"
    and "unat (csr_x s1) = Suc (unat (csr_x s))"
proof -
  have ne: "c \<noteq> 0x08" "c \<noteq> 0x09" "c \<noteq> 0x0D" "c \<noteq> 0x0A" using assms(2) by auto
  show "putch_char c s = s1"
    using ne assms(2) by (simp add: putch_char_def s1_def Let_def)
  have b: "unat (csr_y s) < 25" "unat (csr_x s) < 80" using assms(1) by (simp_all add: console_ok_def)
  have addr: "csr_y s * 80 + csr_x s = of_nat (80 * unat (csr_y s) + unat (csr_x s))"
    by (simp add: mult.commute)
  show x: "unat (csr_x s1) = Suc (unat (csr_x s))"
    using b(2) unat_add_small [of "csr_x s" 1] by (simp add: s1_def)
  show "screen_of s1 = (screen_of s)\<lparr>rows := (rows (screen_of s))[unat (csr_y s) :=
      (rows (screen_of s) ! unat (csr_y s))[unat (csr_x s) := char_cell c (attrib s)]],
      cx := Suc (unat (csr_x s))\<rparr>"
    using x text_rows_store [OF b, of "mem s" "textmemptr s"]
    by (simp add: screen_of_def s1_def char_cell_def addr del: of_nat_add of_nat_mult)
  show "outside (textmemptr s) (mem s) (mem s1)"
    using outside_store16 [OF cell_index_bound [OF b]]
    by (simp add: s1_def addr del: of_nat_add of_nat_mult)
qed

text \<open>\<open>putch_ok c s\<close>: \<open>putch\<close> does on \<open>s\<close> what the abstract screen does, and nothing else.\<close>

definition putch_ok :: "u8 \<Rightarrow> 'a console_scheme \<Rightarrow> bool" where
  "putch_ok c s \<longleftrightarrow> screen_of (putch c s) = scr_putch c (screen_of s) \<and> console_ok (putch c s) \<and>
     outside (textmemptr s) (mem s) (mem (putch c s)) \<and> textmemptr (putch c s) = textmemptr s"

lemma putch_okI:
  assumes "unat (csr_x (putch_char c s)) \<le> 80" and "unat (csr_y (putch_char c s)) < 25"
    and "outside (textmemptr s) (mem s) (mem (putch_char c s))"
    and "textmemptr (putch_char c s) = textmemptr s"
    and "(if unat (csr_x (putch_char c s)) = 80 then scr_newline (screen_of (putch_char c s))
          else screen_of (putch_char c s)) = scr_putch c (screen_of s)"
  shows "putch_ok c s"
  using advance_screen [OF assms(1,2)] assms(3-5)
  by (auto simp: putch_ok_def putch_advance intro: outside_trans)

lemma putch_tab:
  assumes "console_ok s"
  shows "putch_ok 0x09 s"
proof (rule putch_okI)
  have b: "unat (csr_y s) < 25" "unat (csr_x s) < 80" using assms by (simp_all add: console_ok_def)
  have x: "unat (csr_x (putch_char 0x09 s)) = 8 * Suc (unat (csr_x s) div 8)"
    using tab_stop [OF b(2)] by (simp add: putch_char_def)
  have "unat (csr_x s) div 8 < 10" using b(2) by (simp add: less_mult_imp_div_less)
  then show le: "unat (csr_x (putch_char 0x09 s)) \<le> 80" unfolding x by simp
  show "unat (csr_y (putch_char 0x09 s)) < 25" using b by (simp add: putch_char_def)
  have same: "screen_of (putch_char 0x09 s) = (screen_of s)\<lparr>cx := 8 * Suc (unat (csr_x s) div 8)\<rparr>"
    using x by (simp add: putch_char_def screen_of_def)
  show "(if unat (csr_x (putch_char 0x09 s)) = 80 then scr_newline (screen_of (putch_char 0x09 s))
      else screen_of (putch_char 0x09 s)) = scr_putch 0x09 (screen_of s)"
    unfolding same x using le x by (simp add: scr_putch_def Let_def)
qed (simp_all add: putch_char_def)

lemma putch_visible:
  assumes "console_ok s" and "0x20 \<le> c"
  shows "putch_ok c s"
proof (rule putch_okI)
  note v = putch_char_visible [OF assms]
  have b: "unat (csr_y s) < 25" "unat (csr_x s) < 80" using assms by (simp_all add: console_ok_def)
  have ne: "c \<noteq> 0x08" "c \<noteq> 0x09" "c \<noteq> 0x0D" "c \<noteq> 0x0A" using assms(2) by auto
  show "unat (csr_x (putch_char c s)) \<le> 80" "unat (csr_y (putch_char c s)) < 25"
    using v(1,4) b by simp_all
  show "outside (textmemptr s) (mem s) (mem (putch_char c s))" using v(1,3) by simp
  show "textmemptr (putch_char c s) = textmemptr s" using v(1) by simp
  show "(if unat (csr_x (putch_char c s)) = 80 then scr_newline (screen_of (putch_char c s))
      else screen_of (putch_char c s)) = scr_putch c (screen_of s)"
    unfolding v(1) v(2) v(4) using ne assms(2) b by (auto simp: scr_putch_def Let_def)
qed

lemma putch_backspace:
  assumes "console_ok s"
  shows "putch_ok 0x08 s"
proof -
  have x: "unat (csr_x (putch_char 0x08 s)) = unat (csr_x s) - 1"
    by (auto simp: putch_char_def unat_sub word_le_nat_alt Suc_le_eq unat_gt_0)
  then have "screen_of (putch_char 0x08 s) = scr_putch 0x08 (screen_of s)"
    by (auto simp: screen_of_def scr_putch_def putch_char_def)
  moreover have "unat (csr_y (putch_char 0x08 s)) < 25" "unat (csr_x (putch_char 0x08 s)) < 80"
    using x assms by (auto simp: console_ok_def putch_char_def)
  ultimately show ?thesis by (intro putch_okI) (simp_all add: putch_char_def)
qed

lemma putch_ok:
  assumes "console_ok s"
  shows "putch_ok c s"
proof -
  have b: "unat (csr_y s) < 25" "unat (csr_x s) < 80" using assms by (simp_all add: console_ok_def)
  consider (bs) "c = 0x08" | (tab) "c = 0x09" | (cr) "c = 0x0D" | (lf) "c = 0x0A" | (vis) "0x20 \<le> c"
    | (other) "c \<noteq> 0x08" "c \<noteq> 0x09" "c \<noteq> 0x0D" "c \<noteq> 0x0A" "\<not> 0x20 \<le> c"
    by blast
  then show ?thesis
  proof cases
    case bs then show ?thesis using putch_backspace [OF assms] by simp
  next
    case tab then show ?thesis using putch_tab [OF assms] by simp
  next
    case cr then show ?thesis
      using b by (intro putch_okI) (auto simp: screen_of_def scr_putch_def putch_char_def)
  next
    case lf then show ?thesis
      using advance_newline [OF b(1)]
      by (simp add: putch_ok_def putch_advance putch_char_def scr_putch_def)
  next
    case vis then show ?thesis using putch_visible [OF assms] by simp
  next
    case other then show ?thesis
      using b by (intro putch_okI) (auto simp: scr_putch_def putch_char_def)
  qed
qed

section \<open>Strings\<close>

text \<open>\<open>chars_upto_nul\<close>: the string a \<open>char\<close> array holds.\<close>

definition chars_upto_nul :: "u8 list \<Rightarrow> u8 list" where
  "chars_upto_nul = takeWhile (\<lambda>c. c \<noteq> 0)"

lemma strlen_array_Some:
  "strlen_array str = Some n \<longleftrightarrow> 0 \<in> set str \<and> n = length (chars_upto_nul str)"
  by (induction str arbitrary: n) (auto simp: chars_upto_nul_def)

lemma strlen_array_None: "strlen_array str = None \<longleftrightarrow> 0 \<notin> set str"
  by (induction str) auto

lemma puts_fold:
  assumes "0 \<in> set text"
  shows "puts text s = Inr ((), fold putch (chars_upto_nul text) s)"
proof -
  let ?t = "chars_upto_nul text"
  have len: "strlen_array text = Some (length ?t)"
    using assms by (simp add: strlen_array_Some)
  have nth: "text ! i = ?t ! i" if "i < length ?t" for i
    using that by (simp add: chars_upto_nul_def takeWhile_nth)
  have "fold (\<lambda>i. putch (text ! i)) [0..<length ?t] s = fold putch (map (\<lambda>i. ?t ! i) [0..<length ?t]) s"
    unfolding fold_map by (intro fold_cong) (auto simp: nth)
  then show ?thesis by (simp add: puts_def len map_nth)
qed

lemma fold_putch_ok:
  assumes "console_ok s"
  shows "screen_of (fold putch cs s) = fold scr_putch cs (screen_of s) \<and> console_ok (fold putch cs s) \<and>
    outside (textmemptr s) (mem s) (mem (fold putch cs s)) \<and> textmemptr (fold putch cs s) = textmemptr s"
  using assms
proof (induction cs arbitrary: s)
  case Nil
  then show ?case by simp
next
  case (Cons c cs)
  have p: "putch_ok c s" by (rule putch_ok [OF Cons.prems])
  then have "console_ok (putch c s)" by (simp add: putch_ok_def)
  from Cons.IH [OF this] p show ?case
    by (auto simp: putch_ok_def intro: outside_trans)
qed

text \<open>The cursor the CRT controller was last told: index 14 takes the high byte, 15 the low one.\<close>

definition crtc_shows :: "(u16 \<times> u8) list \<Rightarrow> nat \<Rightarrow> bool" where
  "crtc_shows out pos \<longleftrightarrow> (\<exists>pre hi lo.
     out = pre @ [(0x3D4, 14), (0x3D5, hi), (0x3D4, 15), (0x3D5, lo)] \<and> pos = 256 * unat hi + unat lo)"

lemma move_csr_cursor:
  assumes "console_ok s"
  shows "crtc_shows (port_out (move_csr s)) (80 * unat (csr_y s) + unat (csr_x s))"
proof -
  have b: "unat (csr_y s) < 25" "unat (csr_x s) < 80" using assms by (simp_all add: console_ok_def)
  define pos :: nat where "pos = 80 * unat (csr_y s) + unat (csr_x s)"
  have w: "csr_y s * 80 + csr_x s = of_nat pos" by (simp add: pos_def mult.commute)
  have pos: "pos < 2000" using cell_index_bound [OF b] by (simp add: pos_def)
  have u: "unat (of_nat pos :: u32) = pos" using pos unat_of_nat32 [of pos] by simp
  have hi: "unat (ucast (drop_bit 8 (of_nat pos :: u32)) :: u8) = pos div 256"
    using pos u by (simp add: unsigned_ucast_eq unat_drop_bit_word take_bit_eq_mod)
  have lo: "unat (ucast (of_nat pos :: u32) :: u8) = pos mod 256"
    using u by (simp add: unsigned_ucast_eq take_bit_eq_mod)
  have "pos = 256 * unat (ucast (drop_bit 8 (of_nat pos :: u32)) :: u8)
      + unat (ucast (of_nat pos :: u32) :: u8)"
    unfolding hi lo by simp
  moreover have "port_out (move_csr s) = port_out s @ [(0x3D4, 14),
      (0x3D5, ucast (drop_bit 8 (of_nat pos :: u32))), (0x3D4, 15), (0x3D5, ucast (of_nat pos :: u32))]"
    by (simp add: move_csr_def outportb_def w Let_def)
  ultimately show ?thesis
    unfolding crtc_shows_def pos_def [symmetric] by blast
qed

lemma putch_cursor:
  assumes "console_ok s"
  shows "crtc_shows (port_out (putch c s)) (80 * unat (csr_y (putch c s)) + unat (csr_x (putch c s)))"
proof -
  obtain t where t: "putch c s = move_csr t" by (simp add: putch_def Let_def)
  have "console_ok (putch c s)" using putch_ok [OF assms] by (simp add: putch_ok_def)
  then have "console_ok t" by (simp add: t)
  from move_csr_cursor [OF this] show ?thesis by (simp add: t)
qed

text \<open>What is written to the other devices - the video controller, the interval timer - the interrupt controllers
  do not see.\<close>

definition other_writes :: "(u16 \<times> u8) list \<Rightarrow> bool" where
  "other_writes w \<longleftrightarrow> fst ` set w \<inter> {0x20, 0x21, 0xA0, 0xA1} = {}"

definition spares_pics :: "'a machine_scheme \<Rightarrow> 'a machine_scheme \<Rightarrow> bool" where
  "spares_pics s t \<longleftrightarrow> (\<exists>w. port_out t = port_out s @ w \<and> other_writes w)"

lemma spares_pics_trans: "spares_pics s t \<Longrightarrow> spares_pics t u \<Longrightarrow> spares_pics s u"
  by (auto simp: spares_pics_def other_writes_def image_Un)

lemma spares_pics_same: "port_out t = port_out s \<Longrightarrow> spares_pics s t"
  by (simp add: spares_pics_def other_writes_def)

lemma move_csr_video: "spares_pics s (move_csr s)"
  by (simp add: spares_pics_def move_csr_def outportb_def other_writes_def Let_def)

lemma putch_video: "spares_pics s (putch c s)"
proof -
  have "port_out (scroll t) = port_out t" for t :: "'a console_scheme" by (simp add: scroll_def Let_def)
  moreover have "port_out (putch_char c s) = port_out s" by (simp add: putch_char_def Let_def)
  ultimately show ?thesis
    unfolding putch_def Let_def by (intro spares_pics_trans [OF spares_pics_same move_csr_video]) simp
qed

lemma fold_putch_video: "spares_pics s (fold putch cs s)"
  by (induction cs arbitrary: s) (auto intro: spares_pics_same spares_pics_trans putch_video)

text \<open>The fields printing may change: everything else of the state is left as it was.\<close>

definition console_part :: "'a console_scheme \<Rightarrow> 'a console_scheme \<Rightarrow> bool" where
  "console_part s s' \<longleftrightarrow> (\<exists>m p x y. s' = s\<lparr>mem := m, port_out := p, csr_x := x, csr_y := y\<rparr>)"

lemma console_partI:
  "s' = s\<lparr>mem := mem s', port_out := port_out s', csr_x := csr_x s', csr_y := csr_y s'\<rparr> \<Longrightarrow> console_part s s'"
  unfolding console_part_def by blast

lemma console_part_trans: "console_part s s' \<Longrightarrow> console_part s' s'' \<Longrightarrow> console_part s s''"
  unfolding console_part_def by (elim exE, simp) (intro exI, rule refl)

lemma putch_char_part: "console_part s (putch_char c s)"
  by (rule console_partI) (simp add: putch_char_def Let_def)

lemma scroll_part: "console_part s (scroll s)"
  by (rule console_partI) (simp add: scroll_def Let_def)

lemma move_csr_part: "console_part s (move_csr s)"
  by (rule console_partI) (simp add: move_csr_def outportb_def Let_def)

lemma wrap_part: "console_part s (if b then s\<lparr>csr_x := 0, csr_y := csr_y s + 1\<rparr> else s)"
  by (rule console_partI) simp

lemma putch_part: "console_part s (putch c s)"
  unfolding putch_def Let_def
  by (intro console_part_trans [OF putch_char_part console_part_trans [OF wrap_part
        console_part_trans [OF scroll_part move_csr_part]]])

lemma putch_fields:
  "\<exists>m p x y. putch c s = s\<lparr>mem := m, port_out := p, csr_x := x, csr_y := y\<rparr>"
  using putch_part unfolding console_part_def .

lemma fold_putch_fields:
  "\<exists>m p x y. fold putch cs s = s\<lparr>mem := m, port_out := p, csr_x := x, csr_y := y\<rparr>"
proof (induction cs arbitrary: s)
  case Nil
  show ?case by (rule exI [of _ "mem s"], rule exI [of _ "port_out s"],
        rule exI [of _ "csr_x s"], rule exI [of _ "csr_y s"]) simp
next
  case (Cons c cs)
  obtain m p x y where 1: "putch c s = s\<lparr>mem := m, port_out := p, csr_x := x, csr_y := y\<rparr>"
    using putch_fields by blast
  obtain m' p' x' y' where "fold putch cs (putch c s)
      = (putch c s)\<lparr>mem := m', port_out := p', csr_x := x', csr_y := y'\<rparr>"
    using Cons by blast
  with 1 show ?case by auto
qed

text \<open>Filling the screen row by row fills it.\<close>

lemma memsetw_row:
  assumes "i < 25"
  shows "k < 2000 \<Longrightarrow> cell (memsetw m (p + 160 * of_nat i) v 80) p k =
      (if 80 * i \<le> k \<and> k < 80 * i + 80 then v else cell m p k)"
    and "outside p m (memsetw m (p + 160 * of_nat i) v 80)"
proof -
  have a: "p + 160 * of_nat i = p + 2 * of_nat (80 * i)" by simp
  have le: "80 * i + nat (sint (80 :: u32)) \<le> 2000" using assms by simp
  show "k < 2000 \<Longrightarrow> cell (memsetw m (p + 160 * of_nat i) v 80) p k =
      (if 80 * i \<le> k \<and> k < 80 * i + 80 then v else cell m p k)"
    unfolding a using memsetw_cells [OF le] by simp
  show "outside p m (memsetw m (p + 160 * of_nat i) v 80)"
    unfolding a by (rule memsetw_outside [OF le])
qed

lemma memsetw_rows:
  assumes "n \<le> 25"
  shows "(\<forall>k < 2000. cell (fold (\<lambda>i m. memsetw m (p + 160 * of_nat i) v 80) [0..<n] m) p k =
      (if k < 80 * n then v else cell m p k)) \<and>
    outside p m (fold (\<lambda>i m. memsetw m (p + 160 * of_nat i) v 80) [0..<n] m)"
  using assms
proof (induction n)
  case 0
  then show ?case by simp
next
  case (Suc n)
  then have n: "n < 25" by simp
  show ?case
    using Suc memsetw_row [OF n]
    by (auto intro: outside_trans [OF _ memsetw_row(2) [OF n]])
qed

section \<open>Properties\<close>

text \<open>C12. Printing a character is what the abstract screen does: control characters move the cursor,
  a printable one fills the cell under it, the line wraps at column 80 and the screen scrolls below
  row 25; the cursor stays on the screen and no byte outside the 4000 of the text memory changes.\<close>

theorem putch_refines:
  assumes "console_ok s"
  shows "screen_of (putch c s) = scr_putch c (screen_of s) \<and> console_ok (putch c s) \<and>
    outside (textmemptr s) (mem s) (mem (putch c s)) \<and>
    crtc_shows (port_out (putch c s)) (80 * unat (csr_y (putch c s)) + unat (csr_x (putch c s)))"
  using putch_ok [OF assms] putch_cursor [OF assms] by (simp add: putch_ok_def)

text \<open>The state right after \<open>init_video\<close> on a machine whose memory is all zero.\<close>

definition machine0 :: machine where
  "machine0 = \<lparr>mem = (\<lambda>_. 0), port_out = [], port_in = (\<lambda>_ _. 0), in_pos = (\<lambda>_. 0),
     int_flag = False, cr0 = 0, cr2 = 0, cr3 = 0\<rparr>"

definition console0 :: console where
  "console0 = machine.extend machine0 \<lparr>textmemptr = 0xB8000, attrib = 0x0F, csr_x = 0, csr_y = 10\<rparr>"

lemma console0_ok: "console_ok console0"
  by (simp add: console_ok_def console0_def machine.defs)

theorem putch_refines_witness:
  "console_ok console0 \<and> screen_of (putch 0x41 console0) = scr_putch 0x41 (screen_of console0)"
  using putch_refines [OF console0_ok, of "0x41"] console0_ok by simp

text \<open>\<open>puts\<close> prints exactly the characters before the terminator, in order, and returns, for any
  array that has one.\<close>

theorem puts_refines:
  assumes "console_ok s" and "0 \<in> set text"
  shows "\<exists>s'. puts text s = Inr ((), s') \<and>
    screen_of s' = fold scr_putch (chars_upto_nul text) (screen_of s) \<and> console_ok s' \<and>
    outside (textmemptr s) (mem s) (mem s')"
  using fold_putch_ok [OF assms(1), of "chars_upto_nul text"] puts_fold [OF assms(2), of s] by simp

theorem puts_refines_witness:
  "\<exists>s'. puts [0x4F, 0x4B, 0] console0 = Inr ((), s') \<and>
     screen_of s' = fold scr_putch [0x4F, 0x4B] (screen_of console0)"
  using puts_refines [OF console0_ok, of "[0x4F, 0x4B, 0]"] by (auto simp: chars_upto_nul_def)

text \<open>\<open>cls\<close> leaves a screen of blanks in the current colour with the cursor at the top left.\<close>

theorem cls_blank:
  "screen_of (cls s) = \<lparr>rows = replicate 25 (replicate 80 (blank_cell (attrib s))), cx = 0, cy = 0,
     colour = attrib s\<rparr> \<and> outside (textmemptr s) (mem s) (mem (cls s))"
  using memsetw_rows [of 25 "textmemptr s" "blank_cell (attrib s)" "mem s"]
  by (auto simp: cls_def Let_def screen_of_def blank_cell_def cell_index_bound mult.commute
      intro!: text_rows_eqI)

end
