(* ===== verification/Kprintf.thy ===== *)
theory Kprintf
  imports Console
begin

text \<open>
  The kernel's formatted output (\<open>core/kprintf.c\<close>). The text is assembled in the static array
  \<open>buf[1024]\<close> at the static index \<open>ptr\<close> and then printed with \<open>puts\<close>; nothing in the C code bounds
  \<open>ptr\<close>, so a write past the array is a fault here. The theory proves the loop equal to a
  structural rendering of the format string, the numerals right, and when the buffer overflows.
\<close>

section \<open>State and operations\<close>

record kio = console +
  kbuf :: "u8 list"
  kptr :: u32

text \<open>A variadic argument: a word on the stack, or a pointer to a \<open>char\<close> array.\<close>

datatype karg = Karg_word u32 | Karg_str "u8 list"

definition put_buf :: "u8 \<Rightarrow> 'a kio_scheme \<Rightarrow> (unit, 'a kio_scheme) result" where
  "put_buf c s = (let i = sint (kptr s) in
     if 0 \<le> i \<and> nat i < length (kbuf s)
     then Inr ((), s\<lparr>kptr := kptr s + 1, kbuf := (kbuf s)[nat i := c]\<rparr>)
     else Inl Buffer_overflow)"

text \<open>The recursion of \<open>parse_num\<close> does not end for base 1 and a non-zero value.\<close>

function parse_num :: "u32 \<Rightarrow> u32 \<Rightarrow> 'a kio_scheme \<Rightarrow> (unit, 'a kio_scheme) result" where
  "parse_num val base s =
     (if base = 0 then Inl Divide_error
      else let n = val div base;
               r = val mod base;
               n' = (if r <s 0 then n - 1 else n);
               r' = (if r <s 0 then r + base else r)
        in if base \<le> val then
             (if n' = val then Inl Diverges
              else res_bind (parse_num n' base s) (\<lambda>(_, s1). put_buf (ucast (r' + 0x30)) s1))
           else put_buf (ucast (r' + 0x30)) s)"
  by pat_completeness auto

termination
proof (relation "measure (\<lambda>(v, base, s). unat v)", goal_cases)
  case (2 v base s n r n' r')
  have n: "unat n = unat v div unat base" using 2(2) by (simp add: unat_div_distrib)
  have b: "0 < unat base" using 2(1) by (simp add: unat_gt_0)
  have "unat base \<le> unat v" using 2(6) by (simp add: word_le_nat_alt)
  then have "1 \<le> unat n" using b n by (simp add: Suc_le_eq div_greater_zero_iff)
  then have "unat (n - 1) = unat n - 1" by (simp add: unat_sub word_le_nat_alt)
  moreover have "unat n \<le> unat v" using n by simp
  moreover have "unat n' \<noteq> unat v" using 2(7) by (simp add: word_unat_eq_iff)
  ultimately have "unat n' < unat v" using 2(4) \<open>1 \<le> unat n\<close> by (auto split: if_splits)
  then show ?case by simp
qed simp

declare parse_num.simps [simp del] 

definition hex_digits :: "u8 list" where
  "hex_digits = map (\<lambda>c. of_char c) ''0123456789abcdef''"

definition parse_hex :: "u32 \<Rightarrow> 'a kio_scheme \<Rightarrow> (unit, 'a kio_scheme) result" where
  "parse_hex val s = res_fold
     (\<lambda>i. put_buf (hex_digits ! unat (drop_bit (i * 4) val AND 0xF))) (rev [0..<8]) s"

text \<open>\<open>while (*s) buf[ptr++] = *s++;\<close> over the array \<open>s\<close> points to.\<close>

fun put_string :: "u8 list \<Rightarrow> 'a kio_scheme \<Rightarrow> (unit, 'a kio_scheme) result" where
  "put_string [] s = Inl Buffer_overflow"
| "put_string (c # cs) s =
     (if c = 0 then Inr ((), s) else res_bind (put_buf c s) (\<lambda>(_, s1). put_string cs s1))"

definition put_escape :: "u8 \<Rightarrow> 'a kio_scheme \<Rightarrow> (unit, 'a kio_scheme) result" where
  "put_escape d s =
     (if d = 0x61 then put_buf 0x07 s
      else if d = 0x62 then put_buf 0x08 s
      else if d = 0x74 then put_buf 0x09 s
      else if d = 0x6E then put_buf 0x0A s
      else if d = 0x72 then put_buf 0x0D s
      else if d = 0x5C then put_buf 0x5C s
      else Inr ((), s))"

text \<open>One conversion: what it prints, and the arguments left.\<close>

definition put_directive :: "u8 \<Rightarrow> karg list \<Rightarrow> 'a kio_scheme \<Rightarrow> (karg list, 'a kio_scheme) result" where
  "put_directive d args s =
     (if d = 0x73 then
        (case args of Karg_str t # as \<Rightarrow> res_bind (put_string t s) (\<lambda>(_, s1). Inr (as, s1))
         | _ \<Rightarrow> Inl Bad_vararg)
      else if d = 0x63 then
        (case args of Karg_word w # as \<Rightarrow> res_bind (put_buf (ucast w) s) (\<lambda>(_, s1). Inr (as, s1))
         | _ \<Rightarrow> Inl Bad_vararg)
      else if d = 0x78 then
        (case args of Karg_word w # as \<Rightarrow> res_bind (parse_hex w s) (\<lambda>(_, s1). Inr (as, s1))
         | _ \<Rightarrow> Inl Bad_vararg)
      else if d = 0x64 then
        (case args of Karg_word w # as \<Rightarrow> res_bind (parse_num w 10 s) (\<lambda>(_, s1). Inr (as, s1))
         | _ \<Rightarrow> Inl Bad_vararg)
      else if d = 0x25 then res_bind (put_buf 0x25 s) (\<lambda>(_, s1). Inr (args, s1))
      else res_bind (put_buf d s) (\<lambda>(_, s1). Inr (args, s1)))"

definition fmt_at :: "u8 list \<Rightarrow> nat \<Rightarrow> 's fault + u8" where
  "fmt_at fmt i = (if i < length fmt then Inr (fmt ! i) else Inl Buffer_overflow)"

function kprintf_loop :: "u8 list \<Rightarrow> nat \<Rightarrow> karg list \<Rightarrow> 'a kio_scheme \<Rightarrow> (unit, 'a kio_scheme) result"
where
  "kprintf_loop fmt i args s = res_bind (fmt_at fmt i) (\<lambda>c.
     if c = 0 then Inr ((), s)
     else if c \<noteq> 0x25 \<and> c \<noteq> 0x5C then
       res_bind (put_buf c s) (\<lambda>(_, s1). kprintf_loop fmt (i + 1) args s1)
     else if c = 0x5C then
       res_bind (fmt_at fmt (i + 1)) (\<lambda>d.
         res_bind (put_escape d s) (\<lambda>(_, s1). kprintf_loop fmt (i + 2) args s1))
     else
       res_bind (fmt_at fmt (i + 1)) (\<lambda>d.
         res_bind (put_directive d args s) (\<lambda>(as, s1). kprintf_loop fmt (i + 2) as s1)))"
  by pat_completeness auto
termination
  by (relation "measure (\<lambda>(fmt, i, args, s). length fmt - i)")
    (auto simp: fmt_at_def split: if_splits)

declare kprintf_loop.simps [simp del]

definition kprintf :: "u8 list \<Rightarrow> karg list \<Rightarrow> 'a kio_scheme \<Rightarrow> (unit, 'a kio_scheme) result" where
  "kprintf fmt args s = res_bind (kprintf_loop fmt 0 args (s\<lparr>kptr := 0\<rparr>)) (\<lambda>(_, s1).
     let i = sint (kptr s1) in
     if 0 \<le> i \<and> nat i < length (kbuf s1)
     then (let s2 = s1\<lparr>kbuf := (kbuf s1)[nat i := 0]\<rparr> in puts (kbuf s2) s2)
     else Inl Buffer_overflow)"

section \<open>What is written to the buffer\<close>

definition put_chars :: "u8 list \<Rightarrow> 'a kio_scheme \<Rightarrow> (unit, 'a kio_scheme) result" where
  "put_chars = res_fold put_buf"

lemma put_chars_simps [simp]:
  "put_chars [] s = Inr ((), s)"
  "put_chars (c # cs) s = res_bind (put_buf c s) (\<lambda>(_, s1). put_chars cs s1)"
  by (simp_all add: put_chars_def)

lemma put_chars_append:
  "put_chars (cs @ ds) s = res_bind (put_chars cs s) (\<lambda>(_, s1). put_chars ds s1)"
  by (simp add: put_chars_def res_fold_append)

lemma put_chars_single: "put_chars [c] s = put_buf c s"
  by simp

text \<open>\<open>kptr_at k s\<close>: the next free index of the buffer is \<open>k\<close>.\<close>

definition kptr_at :: "nat \<Rightarrow> 'a kio_scheme \<Rightarrow> bool" where
  "kptr_at k s \<longleftrightarrow> kptr s = of_nat k \<and> k \<le> length (kbuf s) \<and> length (kbuf s) < 2147483648"

lemma put_buf_step:
  assumes "kptr_at k s"
  shows "put_buf c s = (if k < length (kbuf s)
     then Inr ((), s\<lparr>kptr := of_nat (Suc k), kbuf := (kbuf s)[k := c]\<rparr>) else Inl Buffer_overflow)"
proof -
  have "unat (of_nat k :: u32) = k" using assms by (simp add: kptr_at_def unat_of_nat32)
  then have "sint (of_nat k :: u32) = int k"
    using assms by (simp add: kptr_at_def sint_small)
  then show ?thesis using assms by (simp add: put_buf_def kptr_at_def add.commute)
qed

lemma put_chars_run:
  assumes "kptr_at k s"
  shows "put_chars cs s = (if k + length cs \<le> length (kbuf s)
     then Inr ((), s\<lparr>kptr := of_nat (k + length cs),
                     kbuf := take k (kbuf s) @ cs @ drop (k + length cs) (kbuf s)\<rparr>)
     else Inl Buffer_overflow)"
  using assms
proof (induction cs arbitrary: k s)
  case Nil
  then show ?case by (simp add: kptr_at_def)
next
  case (Cons c cs)
  show ?case
  proof (cases "k < length (kbuf s)")
    case False
    then show ?thesis using Cons.prems by (simp add: put_buf_step)
  next
    case True
    let ?s = "s\<lparr>kptr := of_nat (Suc k), kbuf := (kbuf s)[k := c]\<rparr>"
    have at: "kptr_at (Suc k) ?s" using True Cons.prems by (simp add: kptr_at_def)
    have "take (Suc k) ((kbuf s)[k := c]) = take k (kbuf s) @ [c]"
      using True by (simp add: take_Suc_conv_app_nth)
    then show ?thesis
      using Cons.IH [OF at] True Cons.prems by (simp add: put_buf_step)
  qed
qed

section \<open>Numerals\<close>

text \<open>\<open>dec_chars n\<close>: the decimal numeral of \<open>n\<close>. \<open>num_value base\<close> reads digits back.\<close>

fun dec_chars :: "nat \<Rightarrow> u8 list" where
  "dec_chars n = (if n < 10 then [0x30 + of_nat n]
     else dec_chars (n div 10) @ [0x30 + of_nat (n mod 10)])"

declare dec_chars.simps [simp del]

definition hex_chars :: "nat \<Rightarrow> u8 list" where
  "hex_chars n = map (\<lambda>i. hex_digits ! (n div 16 ^ i mod 16)) (rev [0..<8])"

definition num_value :: "nat \<Rightarrow> (u8 \<Rightarrow> nat) \<Rightarrow> u8 list \<Rightarrow> nat" where
  "num_value base dig cs = fold (\<lambda>c n. base * n + dig c) cs 0"

definition dec_digit :: "u8 \<Rightarrow> nat" where
  "dec_digit c = unat (c - 0x30)"

definition hex_digit :: "u8 \<Rightarrow> nat" where
  "hex_digit c = (if c < 0x61 then unat (c - 0x30) else unat (c - 0x61) + 10)"

lemma not_sless_small: "unat r < 2147483648 \<Longrightarrow> \<not> r <s (0 :: u32)"
  by (simp add: word_sless_alt sint_small)

lemma parse_num_10: "parse_num v 10 s = put_chars (dec_chars (unat v)) s"
proof (induction "unat v" arbitrary: v s rule: less_induct)
  case less
  have r: "unat (v mod 10) = unat v mod 10" by (simp add: unat_mod_distrib)
  have n: "unat (v div 10) = unat v div 10" by (simp add: unat_div_distrib)
  have pos: "\<not> v mod 10 <s 0" using r by (intro not_sless_small) simp
  have "v mod 10 = of_nat (unat v mod 10)" using r by (metis of_nat_unat ucast_id)
  then have ch: "ucast (v mod 10 + 0x30) = (0x30 + of_nat (unat v mod 10) :: u8)"
    using ucast_of_nat_u8 [of "unat v mod 10 + 48"] by (simp add: add.commute)
  show ?case
  proof (cases "10 \<le> v")
    case False
    then have "unat v < 10" by (simp add: word_le_nat_alt)
    with False pos ch show ?thesis
      by (simp add: parse_num.simps [of v] dec_chars.simps [of "unat v"] Let_def)
  next
    case True
    then have ge: "\<not> unat v < 10" by (simp add: word_le_nat_alt)
    then have lt: "unat (v div 10) < unat v" by (simp add: n)
    then have ne: "v div 10 \<noteq> v" by auto
    show ?thesis
      using True pos ch ge ne less(1) [OF lt]
      by (simp add: parse_num.simps [of v] dec_chars.simps [of "unat v"] Let_def n put_chars_append)
  qed
qed

lemma drop_bit_and_15: "unat (drop_bit (i * 4) v AND 0xF) = unat (v :: u32) div 16 ^ i mod 16"
proof -
  have "(0xF :: u32) = mask 4" by (simp add: mask_eq_exp_minus_1)
  then have "unat (drop_bit (i * 4) v AND 0xF) = unat (take_bit 4 (drop_bit (i * 4) v))"
    by (simp add: take_bit_eq_mask)
  also have "\<dots> = unat v div 2 ^ (i * 4) mod 16"
    by (simp only: unsigned_take_bit_eq unat_drop_bit_word) (simp add: take_bit_eq_mod)
  also have "(2 :: nat) ^ (i * 4) = 16 ^ i" by (simp add: mult.commute [of i] power_mult)
  finally show ?thesis .
qed

lemma parse_hex_chars: "parse_hex v s = put_chars (hex_chars (unat v)) s"
  by (simp only: parse_hex_def drop_bit_and_15 put_chars_def hex_chars_def res_fold_map)

text \<open>Reading the numerals back gives the number.\<close>

lemma num_value_snoc: "num_value b d (cs @ [c]) = b * num_value b d cs + d c"
  by (simp add: num_value_def)

lemma dec_digit_char: "n < 10 \<Longrightarrow> dec_digit (0x30 + of_nat n) = n"
  using unat_of_nat_small [where 'a = 8, of n] by (simp add: dec_digit_def)

lemma num_value_dec: "num_value 10 dec_digit (dec_chars n) = n"
proof (induction n rule: dec_chars.induct)
  case (1 n)
  show ?case
  proof (cases "n < 10")
    case True
    then show ?thesis
      by (simp add: dec_chars.simps [of n] num_value_def dec_digit_char)
  next
    case False
    with 1 show ?thesis
      by (simp add: dec_chars.simps [of n] num_value_snoc dec_digit_char)
  qed
qed

lemma hex_digit_char: "k < 16 \<Longrightarrow> hex_digit (hex_digits ! k) = k"
proof -
  have "list_all (\<lambda>k. hex_digit (hex_digits ! k) = k) [0..<16]" by code_simp
  then show "k < 16 \<Longrightarrow> ?thesis" by (simp add: list_all_iff)
qed

lemma hex_chars_length: "length (hex_chars n) = 8"
  by (simp add: hex_chars_def)

lemma num_value_hex_map:
  "num_value 16 hex_digit (map (\<lambda>i. hex_digits ! (n div 16 ^ i mod 16)) (rev [0..<k])) = n mod 16 ^ k"
proof (induction k arbitrary: n)
  case (Suc k)
  have "rev [0..<Suc k] = map Suc (rev [0..<k]) @ [0]"
    by (simp add: rev_map [symmetric] map_Suc_upt upt_conv_Cons del: upt_Suc)
  moreover have "n div 16 ^ Suc i = n div 16 div 16 ^ i" for i
    by (simp add: div_mult2_eq)
  ultimately have "num_value 16 hex_digit
      (map (\<lambda>i. hex_digits ! (n div 16 ^ i mod 16)) (rev [0..<Suc k]))
    = 16 * num_value 16 hex_digit (map (\<lambda>i. hex_digits ! (n div 16 div 16 ^ i mod 16)) (rev [0..<k]))
      + n mod 16"
    by (simp add: num_value_snoc hex_digit_char o_def)
  also have "\<dots> = n mod 16 ^ Suc k"
    unfolding Suc.IH by (simp add: mod_mult2_eq)
  finally show ?case .
qed (simp add: num_value_def)

lemma num_value_hex: "num_value 16 hex_digit (hex_chars (unat (v :: u32))) = unat v"
  using num_value_hex_map [of "unat v" 8] unat_u32_bound [of v] by (simp add: hex_chars_def)

section \<open>Rendering a format string\<close>

text \<open>
  \<open>render fmt args\<close>: what the conversions of \<open>fmt\<close> (without its terminator) print, read off the
  string itself; \<open>None\<close> where the string ends inside a conversion or an argument is missing or of
  the wrong kind.
\<close>

definition escape_chars :: "u8 \<Rightarrow> u8 list" where
  "escape_chars d = (if d = 0x61 then [0x07] else if d = 0x62 then [0x08] else if d = 0x74 then [0x09]
     else if d = 0x6E then [0x0A] else if d = 0x72 then [0x0D] else if d = 0x5C then [0x5C] else [])"

definition directive_chars :: "u8 \<Rightarrow> karg list \<Rightarrow> (u8 list \<times> karg list) option" where
  "directive_chars d args =
     (if d = 0x73 then (case args of Karg_str t # as \<Rightarrow>
          if 0 \<in> set t then Some (chars_upto_nul t, as) else None | _ \<Rightarrow> None)
      else if d = 0x63 then (case args of Karg_word w # as \<Rightarrow> Some ([ucast w], as) | _ \<Rightarrow> None)
      else if d = 0x78 then (case args of Karg_word w # as \<Rightarrow> Some (hex_chars (unat w), as) | _ \<Rightarrow> None)
      else if d = 0x64 then (case args of Karg_word w # as \<Rightarrow> Some (dec_chars (unat w), as) | _ \<Rightarrow> None)
      else Some ([d], args))"

fun render :: "u8 list \<Rightarrow> karg list \<Rightarrow> u8 list option" where
  "render [] args = Some []"
| "render (c # cs) args =
     (if c \<noteq> 0x25 \<and> c \<noteq> 0x5C then map_option ((#) c) (render cs args)
      else case cs of [] \<Rightarrow> None
        | d # ds \<Rightarrow>
            if c = 0x5C then map_option ((@) (escape_chars d)) (render ds args)
            else (case directive_chars d args of None \<Rightarrow> None
              | Some (out, as) \<Rightarrow> map_option ((@) out) (render ds as)))"

lemma put_escape_chars: "put_escape d s = put_chars (escape_chars d) s"
  by (simp add: put_escape_def escape_chars_def)

lemma put_string_chars: "0 \<in> set t \<Longrightarrow> put_string t s = put_chars (chars_upto_nul t) s"
proof (induction t arbitrary: s)
  case (Cons c t)
  show ?case
  proof (cases "c = 0")
    case False
    then show ?thesis
      using Cons by (cases "put_buf c s") (auto simp: chars_upto_nul_def)
  qed (simp add: chars_upto_nul_def)
qed simp

lemma put_directive_chars:
  "directive_chars d args = Some (out, as) \<Longrightarrow>
     put_directive d args s = res_bind (put_chars out s) (\<lambda>(_, s1). Inr (as, s1))"
  by (auto simp: directive_chars_def put_directive_def put_string_chars parse_hex_chars parse_num_10
      split: if_splits list.splits karg.splits)

text \<open>The index loop over the terminated array writes what rendering the string gives.\<close>

lemma fmt_at_simps:
  "fmt_at (pre @ c # cs) (length pre) = Inr c"
  "fmt_at (pre @ c # d # cs) (Suc (length pre)) = Inr d"
  by (simp_all add: fmt_at_def nth_append)

text \<open>One round of the loop, for each kind of character under the index.\<close>

lemma kprintf_loop_steps:
  "kprintf_loop (pre @ 0 # cs) (length pre) args s = Inr ((), s)"
  "c \<noteq> 0 \<Longrightarrow> c \<noteq> 0x25 \<Longrightarrow> c \<noteq> 0x5C \<Longrightarrow> kprintf_loop (pre @ c # cs) (length pre) args s =
     res_bind (put_buf c s) (\<lambda>(_, s1). kprintf_loop ((pre @ [c]) @ cs) (length (pre @ [c])) args s1)"
  "kprintf_loop (pre @ 0x5C # d # cs) (length pre) args s =
     res_bind (put_escape d s)
       (\<lambda>(_, s1). kprintf_loop ((pre @ [0x5C, d]) @ cs) (length (pre @ [0x5C, d])) args s1)"
  "kprintf_loop (pre @ 0x25 # d # cs) (length pre) args s =
     res_bind (put_directive d args s)
       (\<lambda>(as, s1). kprintf_loop ((pre @ [0x25, d]) @ cs) (length (pre @ [0x25, d])) as s1)"
  by (simp_all add: kprintf_loop.simps [of _ "length pre"] fmt_at_simps)

lemma kprintf_loop_render:
  assumes "render cs args = Some out" and "0 \<notin> set cs"
  shows "kprintf_loop (pre @ cs @ [0]) (length pre) args s = put_chars out s"
  using assms
proof (induction cs args arbitrary: out pre s rule: render.induct)
  case (1 args)
  then show ?case by (simp add: kprintf_loop_steps)
next
  case (2 c cs args)
  consider (plain) "c \<noteq> 0x25" "c \<noteq> 0x5C" | (esc) "c = 0x5C" | (dir) "c = 0x25" by blast
  then show ?case
  proof cases
    case plain
    with 2(4) obtain out' where r: "render cs args = Some out'" "out = c # out'" by auto
    show ?thesis
      using 2(5) plain r(2) 2(1) [OF _ r(1), of "pre @ [c]"]
      by (cases "put_buf c s") (auto simp: kprintf_loop_steps)
  next
    case esc
    with 2(4) obtain d ds where cs: "cs = d # ds" by (cases cs) auto
    with esc 2(4) obtain out' where r: "render ds args = Some out'" "out = escape_chars d @ out'"
      by auto
    show ?thesis
      using 2(5) esc r(2) cs 2(2) [OF _ cs esc r(1), of "pre @ [0x5C, d]"]
      by (cases "put_chars (escape_chars d) s")
        (auto simp: kprintf_loop_steps put_escape_chars put_chars_append)
  next
    case dir
    then have ne: "\<not> (c \<noteq> 0x25 \<and> c \<noteq> 0x5C)" "c \<noteq> 0x5C" by simp_all
    with 2(4) obtain d ds where cs: "cs = d # ds" by (cases cs) auto
    with ne 2(4) obtain o1 as out' where d: "directive_chars d args = Some (o1, as)"
      and r: "render ds as = Some out'" "out = o1 @ out'"
      by (auto split: option.splits)
    show ?thesis
      using 2(5) dir r(2) cs 2(3) [OF ne(1) cs ne(2) d refl r(1), of "pre @ [0x25, d]"]
        put_directive_chars [OF d, of s]
      by (cases "put_chars o1 s") (auto simp: kprintf_loop_steps put_chars_append)
  qed
qed

section \<open>What kprintf does\<close>

lemma chars_upto_nul_term: "chars_upto_nul (out @ 0 # ds) = chars_upto_nul out"
  by (induction out) (simp_all add: chars_upto_nul_def)

definition kio_ok :: "'a kio_scheme \<Rightarrow> bool" where
  "kio_ok s \<longleftrightarrow> console_ok s \<and> length (kbuf s) = 1024"

lemma kprintf_run:
  assumes "length (kbuf s) = 1024" and "render cs args = Some out" and "0 \<notin> set cs"
  shows "kprintf (cs @ [0]) args s =
    (if length out < 1024
     then Inr ((), fold putch (chars_upto_nul out)
       (s\<lparr>kptr := of_nat (length out), kbuf := out @ 0 # drop (Suc (length out)) (kbuf s)\<rparr>))
     else Inl Buffer_overflow)"
proof -
  have at: "kptr_at 0 (s\<lparr>kptr := 0\<rparr>)" using assms(1) by (simp add: kptr_at_def)
  have loop: "kprintf_loop (cs @ [0]) 0 args (s\<lparr>kptr := 0\<rparr>) = put_chars out (s\<lparr>kptr := 0\<rparr>)"
    using kprintf_loop_render [OF assms(2,3), of "[]"] by simp
  show ?thesis
  proof (cases "length out \<le> 1024")
    case False
    then show ?thesis
      using assms(1) by (simp add: kprintf_def loop put_chars_run [OF at])
  next
    case True
    let ?s = "s\<lparr>kptr := of_nat (length out), kbuf := out @ drop (length out) (kbuf s)\<rparr>"
    have run: "put_chars out (s\<lparr>kptr := 0\<rparr>) = Inr ((), ?s)"
      using True assms(1) by (simp add: put_chars_run [OF at])
    have sint: "sint (of_nat (length out) :: u32) = int (length out)"
      using True by (simp add: sint_small unat_of_nat32)
    show ?thesis
    proof (cases "length out < 1024")
      case False
      then show ?thesis using True assms(1) by (simp add: kprintf_def loop run sint)
    next
      case lt: True
      have upd: "(out @ drop (length out) (kbuf s))[length out := 0]
        = out @ 0 # drop (Suc (length out)) (kbuf s)"
        using lt assms(1) by (simp add: list_update_append Cons_nth_drop_Suc [symmetric])
      show ?thesis
        using lt assms(1) by (simp add: kprintf_def loop run sint upd puts_fold chars_upto_nul_term Let_def)
    qed
  qed
qed

lemma kprintf_screen:
  assumes "kio_ok s" and "render cs args = Some out" and "0 \<notin> set cs" and "length out < 1024"
  shows "\<exists>s'. kprintf (cs @ [0]) args s = Inr ((), s') \<and>
    screen_of s' = fold scr_putch (chars_upto_nul out) (screen_of s) \<and> kio_ok s' \<and>
    outside (textmemptr s) (mem s) (mem s') \<and> textmemptr s' = textmemptr s"
proof -
  let ?s = "s\<lparr>kptr := of_nat (length out), kbuf := out @ 0 # drop (Suc (length out)) (kbuf s)\<rparr>"
  let ?s' = "fold putch (chars_upto_nul out) ?s"
  have len: "length (kbuf s) = 1024" using assms(1) by (simp add: kio_ok_def)
  have "console_ok ?s" using assms(1) by (simp add: kio_ok_def console_ok_def)
  moreover have scr: "screen_of ?s = screen_of s" by (simp add: screen_of_def)
  ultimately have f: "screen_of ?s' = fold scr_putch (chars_upto_nul out) (screen_of s)" "console_ok ?s'"
    "outside (textmemptr s) (mem s) (mem ?s')" "textmemptr ?s' = textmemptr s"
    using fold_putch_ok [of ?s "chars_upto_nul out"] unfolding scr by simp_all
  obtain m p x y where "?s' = ?s\<lparr>mem := m, port_out := p, csr_x := x, csr_y := y\<rparr>"
    using fold_putch_fields by blast
  then have "kbuf ?s' = kbuf ?s" by simp
  then have "length (kbuf ?s') = 1024" using assms(1,4) by (simp add: kio_ok_def)
  moreover have "kprintf (cs @ [0]) args s = Inr ((), ?s')"
    using kprintf_run [OF len assms(2,3)] assms(4) by simp
  ultimately show ?thesis
    using f by (auto simp: kio_ok_def)
qed

text \<open>\<open>kio_part s s'\<close>: \<open>s'\<close> differs from \<open>s\<close> at most in what printing changes.\<close>

definition kio_part :: "'a kio_scheme \<Rightarrow> 'a kio_scheme \<Rightarrow> bool" where
  "kio_part s s' \<longleftrightarrow> spares_pics s s' \<and> (\<exists>k b m p x y.
     s' = s\<lparr>kptr := k, kbuf := b, mem := m, port_out := p, csr_x := x, csr_y := y\<rparr>)"

lemma kio_partI:
  "s' = s\<lparr>kptr := k, kbuf := b, mem := m, port_out := p, csr_x := x, csr_y := y\<rparr> \<Longrightarrow> spares_pics s s' \<Longrightarrow>
    kio_part s s'"
  unfolding kio_part_def by blast

lemma kio_part_trans: "kio_part s s' \<Longrightarrow> kio_part s' s'' \<Longrightarrow> kio_part s s''"
  unfolding kio_part_def by (elim conjE exE, intro conjI, erule (1) spares_pics_trans) (simp, intro exI, rule refl)

lemma kio_part_frame:
  assumes "kio_part s s'"
  shows "int_flag s' = int_flag s" "attrib s' = attrib s" "textmemptr s' = textmemptr s"
    "cr0 s' = cr0 s" "cr3 s' = cr3 s"
  using assms by (auto simp: kio_part_def)

lemma kprintf_part:
  assumes "length (kbuf s) = 1024" and "render cs args = Some out" and "0 \<notin> set cs" and "length out < 1024"
    and "kprintf (cs @ [0]) args s = Inr ((), s')"
  shows "kio_part s s'"
proof -
  let ?s = "s\<lparr>kptr := of_nat (length out), kbuf := out @ 0 # drop (Suc (length out)) (kbuf s)\<rparr>"
  obtain m p x y where "fold putch (chars_upto_nul out) ?s
      = ?s\<lparr>mem := m, port_out := p, csr_x := x, csr_y := y\<rparr>"
    using fold_putch_fields by blast
  moreover have "spares_pics s (fold putch (chars_upto_nul out) ?s)"
    by (rule spares_pics_trans [OF spares_pics_same fold_putch_video]) simp
  ultimately show ?thesis
    using kprintf_run [OF assms(1-3)] assms(4,5) by (auto intro: kio_partI)
qed

section \<open>Properties\<close>

definition kio0 :: kio where
  "kio0 = console.extend console0 \<lparr>kbuf = replicate 1024 0, kptr = -1\<rparr>"

lemma kio0_ok: "kio_ok kio0"
  using console0_ok by (simp add: kio_ok_def console_ok_def kio0_def console.defs)

text \<open>C13. A format string whose conversions match the arguments and whose rendering fits in the buffer
  with its terminator is printed exactly as rendered, up to the first null character it renders;
  the call returns, the cursor stays on the screen and memory outside the text memory is untouched.\<close>

theorem kprintf_prints_rendering:
  assumes "kio_ok s" and "render cs args = Some out" and "0 \<notin> set cs" and "length out < 1024"
  shows "\<exists>s'. kprintf (cs @ [0]) args s = Inr ((), s') \<and>
    screen_of s' = fold scr_putch (chars_upto_nul out) (screen_of s) \<and> kio_ok s' \<and>
    outside (textmemptr s) (mem s) (mem s')"
  using kprintf_screen [OF assms] by blast

theorem kprintf_prints_rendering_witness:
  "\<exists>s'. kprintf [0x6E, 0x3D, 0x25, 0x64, 0] [Karg_word 42] kio0 = Inr ((), s') \<and>
     screen_of s' = fold scr_putch [0x6E, 0x3D, 0x34, 0x32] (screen_of kio0)"
proof -
  have d: "dec_chars 42 = [0x34, 0x32]" by (simp add: dec_chars.simps)
  have r: "render [0x6E, 0x3D, 0x25, 0x64] [Karg_word 42] = Some [0x6E, 0x3D, 0x34, 0x32]"
    by (simp add: directive_chars_def d)
  show ?thesis
    using kprintf_prints_rendering [OF kio0_ok r] by (auto simp: chars_upto_nul_def)
qed

text \<open>C31. There is no bound on what a call may render: as soon as the rendering does not leave room
  for its terminator in the 1024 bytes of \<open>buf\<close>, the call writes outside the array.\<close>

theorem kprintf_overflow:
  assumes "kio_ok s" and "render cs args = Some out" and "0 \<notin> set cs"
  shows "kprintf (cs @ [0]) args s = Inl Buffer_overflow \<longleftrightarrow> 1024 \<le> length out"
  using kprintf_run [OF _ assms(2,3), of s] assms(1) by (auto simp: kio_ok_def)

theorem kprintf_overflow_witness:
  "kprintf [0x25, 0x73, 0] [Karg_str (replicate 1024 0x41 @ [0])] kio0 = Inl Buffer_overflow"
proof -
  have "chars_upto_nul (replicate 1024 0x41 @ [0]) = replicate 1024 0x41"
    unfolding chars_upto_nul_def by (subst takeWhile_append2) auto
  then have "render [0x25, 0x73] [Karg_str (replicate 1024 0x41 @ [0])] = Some (replicate 1024 0x41)"
    by (simp add: directive_chars_def)
  from kprintf_overflow [OF kio0_ok this] show ?thesis by simp
qed

text \<open>C28. The numerals are right: reading back what \<open>%d\<close> (unsigned decimal) and \<open>%x\<close> (eight hexadecimal
  digits) append to the buffer gives the argument, for every 32-bit value.\<close>

theorem numerals_roundtrip:
  "parse_num v 10 s = put_chars (dec_chars (unat v)) s \<and>
   num_value 10 dec_digit (dec_chars (unat v)) = unat v \<and>
   parse_hex v s = put_chars (hex_chars (unat v)) s \<and> length (hex_chars (unat v)) = 8 \<and>
   num_value 16 hex_digit (hex_chars (unat v)) = unat v"
  by (intro conjI parse_num_10 num_value_dec parse_hex_chars hex_chars_length num_value_hex)

end
