(* ===== verification/Panic.thy ===== *)
theory Panic
  imports Kprintf
begin

text \<open>
  The two ways the kernel gives up (\<open>core/panic.c\<close>): both disable interrupts, print a report in
  yellow on red and loop forever, so a call to either is the fault \<open>Halted\<close> carrying the state the
  machine is left in. \<open>HALT_AND_CATCH_FIRE(m)\<close> and \<open>ASSERT(b)\<close> of \<open>include/kernel.h\<close> add the file
  and the line.
\<close>

section \<open>Literals\<close>

text \<open>\<open>c_chars s\<close>: the bytes of a string literal; \<open>c_lit s\<close>: the array the compiler makes of it.\<close>

definition c_chars :: "string \<Rightarrow> u8 list" where
  "c_chars s = map of_char s"

definition c_lit :: "string \<Rightarrow> u8 list" where
  "c_lit s = c_chars s @ [0]"

definition nl :: string where
  "nl = [CHR 0x0A]"

section \<open>Operations\<close>

definition halt_and_catch_fire ::
  "u8 list \<Rightarrow> u8 list \<Rightarrow> u32 \<Rightarrow> 'a kio_scheme \<Rightarrow> ('b, 'a kio_scheme) result" where
  "halt_and_catch_fire error_message file line s =
     (let s0 = settextcolor 14 4 (s\<lparr>int_flag := False\<rparr>) in
      res_bind (kprintf (c_lit (''PANIC! %s'' @ nl)) [Karg_str error_message] s0) (\<lambda>(_, s1).
      res_bind (kprintf (c_lit (''File: %s'' @ nl)) [Karg_str file] s1) (\<lambda>(_, s2).
      res_bind (kprintf (c_lit (''Line: %d'' @ nl)) [Karg_word line] s2) (\<lambda>(_, s3).
      Inl (Halted s3)))))"

definition assert_failed ::
  "u8 list \<Rightarrow> u32 \<Rightarrow> u8 list \<Rightarrow> 'a kio_scheme \<Rightarrow> ('b, 'a kio_scheme) result" where
  "assert_failed file line desc s =
     (let s0 = settextcolor 14 4 (s\<lparr>int_flag := False\<rparr>) in
      res_bind (kprintf (c_lit (''ASSERTION FAILED! %s'' @ nl)) [Karg_str desc] s0) (\<lambda>(_, s1).
      res_bind (kprintf (c_lit (''File: %s'' @ nl)) [Karg_str file] s1) (\<lambda>(_, s2).
      res_bind (kprintf (c_lit (''Line: %d'' @ nl)) [Karg_word line] s2) (\<lambda>(_, s3).
      Inl (Halted s3)))))"

definition ASSERT :: "bool \<Rightarrow> string \<Rightarrow> u32 \<Rightarrow> string \<Rightarrow> 'a kio_scheme \<Rightarrow> (unit, 'a kio_scheme) result" where
  "ASSERT statement file line desc s =
     (if statement then Inr ((), s) else assert_failed (c_lit file) line (c_lit desc) s)"

lemma ASSERT_True [simp]: "ASSERT True f l d s = Inr ((), s)"
  by (simp add: ASSERT_def)

lemma panic_never_returns:
  "halt_and_catch_fire m f l s \<noteq> Inr x"
  "assert_failed f' l' d s \<noteq> Inr x"
  by (auto simp: halt_and_catch_fire_def assert_failed_def res_bind_Inr_iff Let_def split: prod.splits)

lemma ASSERT_Inr: "ASSERT b f l d s = Inr x \<longleftrightarrow> b \<and> x = ((), s)"
  by (cases x) (auto simp: ASSERT_def panic_never_returns)

section \<open>What the report looks like\<close>

lemma render_plain:
  assumes "list_all (\<lambda>c. c \<noteq> 0x25 \<and> c \<noteq> 0x5C) pre"
  shows "render (pre @ cs) args = map_option ((@) pre) (render cs args)"
  using assms by (induction pre; cases "render cs args") simp_all

lemma no_nul_id: "0 \<notin> set cs \<Longrightarrow> chars_upto_nul cs = cs"
  by (auto simp: chars_upto_nul_def takeWhile_eq_all_conv)

lemma chars_upto_nul_no_nul: "0 \<notin> set (chars_upto_nul t)"
  by (auto simp: chars_upto_nul_def dest: set_takeWhileD)

text \<open>The three lines of a report, for any title: a prefix, one conversion, a newline.\<close>

lemma render_string_line:
  assumes "list_all (\<lambda>c. c \<noteq> 0x25 \<and> c \<noteq> 0x5C) pre" and "0 \<in> set t"
  shows "render (pre @ [0x25, 0x73, 0x0A]) [Karg_str t] = Some (pre @ chars_upto_nul t @ [0x0A])"
  using assms by (simp add: render_plain directive_chars_def)

lemma render_number_line:
  assumes "list_all (\<lambda>c. c \<noteq> 0x25 \<and> c \<noteq> 0x5C) pre"
  shows "render (pre @ [0x25, 0x64, 0x0A]) [Karg_word w] = Some (pre @ dec_chars (unat w) @ [0x0A])"
  using assms by (simp add: render_plain directive_chars_def)

lemma dec_chars_digits: "c \<in> set (dec_chars n) \<Longrightarrow> \<exists>k < 10. c = 0x30 + of_nat k"
proof (induction n rule: dec_chars.induct)
  case (1 n)
  show ?case
  proof (cases "n < 10")
    case True
    with 1 show ?thesis by (auto simp: dec_chars.simps [of n])
  next
    case False
    with 1 show ?thesis by (auto simp: dec_chars.simps [of n] intro: exI [of _ "n mod 10"])
  qed
qed

lemma dec_chars_no_nul: "0 \<notin> set (dec_chars n)"
proof
  assume "0 \<in> set (dec_chars n)"
  then obtain k where k: "k < 10" "0 = (0x30 + of_nat k :: u8)" by (auto dest: dec_chars_digits)
  have "unat (0x30 + of_nat k :: u8) = 0x30 + k"
    using k(1) unat_of_nat_small [where 'a = 8, of "k + 0x30"] by (simp add: add.commute)
  with k(2) show False by simp
qed

lemma dec_chars_length: "n < 10 ^ k \<Longrightarrow> 0 < k \<Longrightarrow> length (dec_chars n) \<le> k"
proof (induction k arbitrary: n)
  case (Suc k)
  show ?case
  proof (cases "n < 10")
    case True
    then show ?thesis by (simp add: dec_chars.simps [of n])
  next
    case False
    then have "0 < k" using Suc.prems by (cases k) auto
    moreover have "n div 10 < 10 ^ k" using Suc.prems by (simp add: less_mult_imp_div_less)
    ultimately show ?thesis using Suc.IH [of "n div 10"] False by (simp add: dec_chars.simps [of n])
  qed
qed simp

text \<open>\<open>says s cs s'\<close>: going from \<open>s\<close> to \<open>s'\<close> prints \<open>cs\<close>, and changes nothing printing does not change.\<close>

definition says :: "'a kio_scheme \<Rightarrow> u8 list \<Rightarrow> 'a kio_scheme \<Rightarrow> bool" where
  "says s cs s' \<longleftrightarrow> screen_of s' = fold scr_putch cs (screen_of s) \<and> kio_ok s' \<and>
     outside (textmemptr s) (mem s) (mem s') \<and> kio_part s s'"

lemma says_trans: "says s cs s' \<Longrightarrow> says s' ds s'' \<Longrightarrow> says s (cs @ ds) s''"
  using kio_part_frame(3) [of s s']
  by (auto simp: says_def intro: outside_trans kio_part_trans)

lemma kprintf_says:
  assumes "kio_ok s" and "render cs args = Some out" and "0 \<notin> set cs" and "0 \<notin> set out"
    and "length out < 1024"
  shows "\<exists>s'. kprintf (cs @ [0]) args s = Inr ((), s') \<and> says s out s'"
  using kprintf_screen [OF assms(1,2,3,5)] kprintf_part [OF _ assms(2,3,5), of s] assms(1,4)
  by (auto simp: says_def kio_ok_def no_nul_id)

lemma kprintf_string_line:
  assumes "kio_ok s" and "list_all (\<lambda>c. c \<noteq> 0x25 \<and> c \<noteq> 0x5C \<and> c \<noteq> 0) pre" and "0 \<in> set t"
    and "length pre + length (chars_upto_nul t) < 1023"
  shows "\<exists>s'. kprintf (pre @ [0x25, 0x73, 0x0A] @ [0]) [Karg_str t] s = Inr ((), s') \<and>
    says s (pre @ chars_upto_nul t @ [0x0A]) s'"
proof -
  have pre: "list_all (\<lambda>c. c \<noteq> 0x25 \<and> c \<noteq> 0x5C) pre" "0 \<notin> set pre"
    using assms(2) by (auto simp: list_all_iff)
  show ?thesis
    using kprintf_says [OF assms(1) render_string_line [OF pre(1) assms(3)]] pre(2) assms(4)
      chars_upto_nul_no_nul [of t] by simp
qed

lemma kprintf_number_line:
  assumes "kio_ok s" and "list_all (\<lambda>c. c \<noteq> 0x25 \<and> c \<noteq> 0x5C \<and> c \<noteq> 0) pre" and "length pre < 1000"
  shows "\<exists>s'. kprintf (pre @ [0x25, 0x64, 0x0A] @ [0]) [Karg_word w] s = Inr ((), s') \<and>
    says s (pre @ dec_chars (unat w) @ [0x0A]) s'"
proof -
  have pre: "list_all (\<lambda>c. c \<noteq> 0x25 \<and> c \<noteq> 0x5C) pre" "0 \<notin> set pre"
    using assms(2) by (auto simp: list_all_iff)
  have "length (dec_chars (unat w)) \<le> 10"
    using unat_u32_bound [of w] by (intro dec_chars_length) simp_all
  then show ?thesis
    using kprintf_says [OF assms(1) render_number_line [OF pre(1)]] pre(2) assms(3)
      dec_chars_no_nul [of "unat w"] by simp
qed

text \<open>The report of either panic, over its title.\<close>

definition report :: "string \<Rightarrow> u8 list \<Rightarrow> u8 list \<Rightarrow> u32 \<Rightarrow> u8 list" where
  "report title message file line =
     (c_chars title @ chars_upto_nul message @ [0x0A]) @
     (c_chars ''File: '' @ chars_upto_nul file @ [0x0A]) @
     (c_chars ''Line: '' @ dec_chars (unat line) @ [0x0A])"

lemma print_report:
  assumes "kio_ok s" and "0 \<in> set message" and "0 \<in> set file"
    and "length (chars_upto_nul message) < 1000" and "length (chars_upto_nul file) < 1000"
    and "list_all (\<lambda>c. c \<noteq> 0x25 \<and> c \<noteq> 0x5C \<and> c \<noteq> 0) (c_chars title)" and "length title < 23"
  shows "\<exists>s3. res_bind (kprintf (c_lit (title @ ''%s'' @ nl)) [Karg_str message] s) (\<lambda>(_, s1).
      res_bind (kprintf (c_lit (''File: %s'' @ nl)) [Karg_str file] s1) (\<lambda>(_, s2).
      res_bind (kprintf (c_lit (''Line: %d'' @ nl)) [Karg_word line] s2) (\<lambda>(_, s3).
      Inl (Halted s3)))) = Inl (Halted s3) \<and> says s (report title message file line) s3"
proof -
  have lits: "c_lit (title @ ''%s'' @ nl) = c_chars title @ [0x25, 0x73, 0x0A] @ [0]"
    "c_lit (''File: %s'' @ nl) = c_chars ''File: '' @ [0x25, 0x73, 0x0A] @ [0]"
    "c_lit (''Line: %d'' @ nl) = c_chars ''Line: '' @ [0x25, 0x64, 0x0A] @ [0]"
    by (simp_all add: c_lit_def c_chars_def nl_def)
  have ok: "list_all (\<lambda>c. c \<noteq> 0x25 \<and> c \<noteq> 0x5C \<and> c \<noteq> 0) (c_chars ''File: '')"
    "list_all (\<lambda>c. c \<noteq> 0x25 \<and> c \<noteq> 0x5C \<and> c \<noteq> 0) (c_chars ''Line: '')"
    by code_simp+
  have len: "length (c_chars t) = length t" for t by (simp add: c_chars_def)
  obtain s1 where 1: "kprintf (c_lit (title @ ''%s'' @ nl)) [Karg_str message] s = Inr ((), s1)"
    "says s (c_chars title @ chars_upto_nul message @ [0x0A]) s1"
    using kprintf_string_line [OF assms(1,6,2)] assms(4,7) unfolding lits len by auto
  obtain s2 where 2: "kprintf (c_lit (''File: %s'' @ nl)) [Karg_str file] s1 = Inr ((), s2)"
    "says s1 (c_chars ''File: '' @ chars_upto_nul file @ [0x0A]) s2"
    using kprintf_string_line [OF _ ok(1) assms(3), of s1] assms(5) 1(2) unfolding lits len
    by (auto simp: says_def)
  obtain s3 where 3: "kprintf (c_lit (''Line: %d'' @ nl)) [Karg_word line] s2 = Inr ((), s3)"
    "says s2 (c_chars ''Line: '' @ dec_chars (unat line) @ [0x0A]) s3"
    using kprintf_number_line [OF _ ok(2), of s2 line] 2(2) unfolding lits len
    by (auto simp: says_def)
  have "says s (report title message file line) s3"
    unfolding report_def using says_trans [OF 1(2) says_trans [OF 2(2) 3(2)]] .
  then show ?thesis using 1(1) 2(1) 3(1) by simp
qed

lemma panic_prefixes:
  "list_all (\<lambda>c. c \<noteq> 0x25 \<and> c \<noteq> 0x5C \<and> c \<noteq> 0) (c_chars ''PANIC! '')"
  "list_all (\<lambda>c. c \<noteq> 0x25 \<and> c \<noteq> 0x5C \<and> c \<noteq> 0) (c_chars ''ASSERTION FAILED! '')"
  by code_simp+

text \<open>\<open>panicked s rep s'\<close>: the machine stopped in \<open>s'\<close>, interrupts off, after printing \<open>rep\<close> in
  yellow on red.\<close>

definition panicked :: "'a kio_scheme \<Rightarrow> u8 list \<Rightarrow> 'a kio_scheme \<Rightarrow> bool" where
  "panicked s rep s' \<longleftrightarrow> \<not> int_flag s' \<and> attrib s' = 0x4E \<and>
     screen_of s' = fold scr_putch rep ((screen_of s)\<lparr>colour := 0x4E\<rparr>) \<and>
     outside (textmemptr s) (mem s) (mem s')"

lemma settextcolor_panic: "attrib (settextcolor 14 4 s) = 0x4E"
  by (simp add: settextcolor_def)

lemma says_panicked:
  assumes "kio_ok s" and "says (settextcolor 14 4 (s\<lparr>int_flag := False\<rparr>)) rep s'"
  shows "panicked s rep s'"
proof -
  let ?s = "settextcolor 14 4 (s\<lparr>int_flag := False\<rparr>)"
  have "screen_of ?s = (screen_of s)\<lparr>colour := 0x4E\<rparr>"
    by (simp add: settextcolor_def screen_of_def)
  moreover have "int_flag s' = int_flag ?s" "attrib s' = attrib ?s"
    using assms(2) kio_part_frame [of ?s s'] by (simp_all add: says_def)
  ultimately show ?thesis
    using assms(2) by (simp add: panicked_def says_def settextcolor_def) (simp add: screen_of_def)
qed

lemma kio_ok_settextcolor: "kio_ok s \<Longrightarrow> kio_ok (settextcolor f b (s\<lparr>int_flag := i\<rparr>))"
  by (simp add: kio_ok_def console_ok_def settextcolor_def)

lemma halt_and_catch_fire_report:
  assumes "kio_ok s" and "0 \<in> set m" and "0 \<in> set f"
    and "length (chars_upto_nul m) < 1000" and "length (chars_upto_nul f) < 1000"
  shows "\<exists>s'. halt_and_catch_fire m f l s = Inl (Halted s') \<and> panicked s (report ''PANIC! '' m f l) s'"
  using print_report [OF kio_ok_settextcolor [OF assms(1)] assms(2-5) panic_prefixes(1), of 14 4 False l]
    says_panicked [OF assms(1)]
  by (auto simp: halt_and_catch_fire_def Let_def)

lemma assert_failed_report:
  assumes "kio_ok s" and "0 \<in> set d" and "0 \<in> set f"
    and "length (chars_upto_nul d) < 1000" and "length (chars_upto_nul f) < 1000"
  shows "\<exists>s'. assert_failed f l d s = Inl (Halted s') \<and>
    panicked s (report ''ASSERTION FAILED! '' d f l) s'"
  using print_report [OF kio_ok_settextcolor [OF assms(1)] assms(2-5) panic_prefixes(2), of 14 4 False l]
    says_panicked [OF assms(1)]
  by (auto simp: assert_failed_def Let_def)

section \<open>Properties\<close>

text \<open>C27. A panic never returns to its caller: with interrupts disabled, it leaves exactly the three
  lines of its report (message, file, line number) on the screen, in yellow on red, and no byte of
  memory outside the text memory is changed.\<close>

theorem panic_reports_and_halts:
  assumes "kio_ok s" and "0 \<in> set m" and "0 \<in> set f"
    and "length (chars_upto_nul m) < 1000" and "length (chars_upto_nul f) < 1000"
  shows "(\<exists>s'. (halt_and_catch_fire m f l s :: (unit, 'a kio_scheme) result) = Inl (Halted s') \<and>
      panicked s (report ''PANIC! '' m f l) s') \<and>
    (\<exists>s'. (assert_failed f l m s :: (unit, 'a kio_scheme) result) = Inl (Halted s') \<and>
      panicked s (report ''ASSERTION FAILED! '' m f l) s')"
  using halt_and_catch_fire_report [OF assms] assert_failed_report [OF assms] by blast

theorem panic_reports_and_halts_witness:
  "\<exists>s'. (halt_and_catch_fire (c_lit ''Page fault'') (c_lit ''mem.c'') 230 kio0 :: (unit, kio) result)
      = Inl (Halted s') \<and>
     panicked kio0 (report ''PANIC! '' (c_lit ''Page fault'') (c_lit ''mem.c'') 230) s'"
proof -
  have "length (chars_upto_nul (c_lit ''Page fault'')) < 1000"
    "length (chars_upto_nul (c_lit ''mem.c'')) < 1000"
    by code_simp+
  with panic_reports_and_halts [OF kio0_ok, of "c_lit ''Page fault''" "c_lit ''mem.c''" 230]
  show ?thesis by (simp add: c_lit_def)
qed

end
