(* ===== verification/Messages.thy ===== *)
theory Messages
  imports Panic
begin

text \<open>
  What the kernel's own messages print. A format string of literals and conversions is a list of
  pieces; printing it says the pieces in order. The theories of the page fault handler and of the
  boot messages use this instead of running \<open>kprintf\<close> on each string.
\<close>

datatype piece = Lit string | Dec u32 | Hex u32 | Str "u8 list"

fun piece_fmt :: "piece \<Rightarrow> u8 list" where
  "piece_fmt (Lit t) = c_chars t"
| "piece_fmt (Dec w) = [0x25, 0x64]"
| "piece_fmt (Hex w) = [0x25, 0x78]"
| "piece_fmt (Str t) = [0x25, 0x73]"

fun piece_args :: "piece \<Rightarrow> karg list" where
  "piece_args (Lit t) = []"
| "piece_args (Dec w) = [Karg_word w]"
| "piece_args (Hex w) = [Karg_word w]"
| "piece_args (Str t) = [Karg_str t]"

fun piece_out :: "piece \<Rightarrow> u8 list" where
  "piece_out (Lit t) = c_chars t"
| "piece_out (Dec w) = dec_chars (unat w)"
| "piece_out (Hex w) = hex_chars (unat w)"
| "piece_out (Str t) = chars_upto_nul t"

definition msg_fmt :: "piece list \<Rightarrow> u8 list" where
  "msg_fmt ps = concat (map piece_fmt ps)"

definition msg_args :: "piece list \<Rightarrow> karg list" where
  "msg_args ps = concat (map piece_args ps)"

definition msg_out :: "piece list \<Rightarrow> u8 list" where
  "msg_out ps = concat (map piece_out ps)"

lemma msg_simps [simp]:
  "msg_fmt [] = []" "msg_fmt (p # ps) = piece_fmt p @ msg_fmt ps"
  "msg_args [] = []" "msg_args (p # ps) = piece_args p @ msg_args ps"
  "msg_out [] = []" "msg_out (p # ps) = piece_out p @ msg_out ps"
  by (simp_all add: msg_fmt_def msg_args_def msg_out_def)

text \<open>A piece is plain when it prints as it stands: literals without conversions, escapes or zeros,
  strings with a terminator.\<close>

fun piece_ok :: "piece \<Rightarrow> bool" where
  "piece_ok (Lit t) = list_all (\<lambda>c. c \<noteq> 0x25 \<and> c \<noteq> 0x5C \<and> c \<noteq> 0) (c_chars t)"
| "piece_ok (Str t) = (0 \<in> set t)"
| "piece_ok _ = True"

lemma render_message:
  "list_all piece_ok ps \<Longrightarrow> render (msg_fmt ps) (msg_args ps) = Some (msg_out ps)"
proof (induction ps)
  case (Cons p ps)
  show ?case
  proof (cases p)
    case (Lit t)
    then have "list_all (\<lambda>c. c \<noteq> 0x25 \<and> c \<noteq> 0x5C) (c_chars t)"
      using Cons.prems by (auto simp: list_all_iff)
    with Cons Lit show ?thesis by (simp add: render_plain)
  qed (use Cons in \<open>simp_all add: directive_chars_def\<close>)
qed simp

lemma hex_chars_no_nul: "0 \<notin> set (hex_chars n)"
proof -
  have "list_all (\<lambda>k. hex_digits ! k \<noteq> 0) [0..<16]" by code_simp
  then have "hex_digits ! k \<noteq> 0" if "k < 16" for k using that by (simp add: list_all_iff)
  then show ?thesis unfolding hex_chars_def by fastforce
qed

lemma message_no_nul:
  "list_all piece_ok ps \<Longrightarrow> 0 \<notin> set (msg_fmt ps) \<and> 0 \<notin> set (msg_out ps)"
proof (induction ps)
  case (Cons p ps)
  then show ?case
    using dec_chars_no_nul hex_chars_no_nul chars_upto_nul_no_nul
    by (cases p) (auto simp: list_all_iff)
qed simp

text \<open>Numerals are short, so the length of a message is bounded by its literals and strings.\<close>

fun piece_size :: "piece \<Rightarrow> nat" where
  "piece_size (Lit t) = length t"
| "piece_size (Str t) = length (chars_upto_nul t)"
| "piece_size (Dec w) = 10"
| "piece_size (Hex w) = 8"

lemma piece_out_length: "length (piece_out p) \<le> piece_size p"
proof (cases p)
  case (Dec w)
  have "length (dec_chars (unat w)) \<le> 10"
    using unat_u32_bound [of w] by (intro dec_chars_length) simp_all
  with Dec show ?thesis by simp
qed (simp_all add: c_chars_def hex_chars_length)

lemma msg_out_length: "length (msg_out ps) \<le> sum_list (map piece_size ps)"
  by (induction ps) (auto intro: add_mono piece_out_length)

lemma message_says:
  assumes "kio_ok s" and "list_all piece_ok ps" and "sum_list (map piece_size ps) < 1024"
  shows "\<exists>s'. kprintf (msg_fmt ps @ [0]) (msg_args ps) s = Inr ((), s') \<and> says s (msg_out ps) s'"
  using kprintf_says [OF assms(1) render_message [OF assms(2)]] message_no_nul [OF assms(2)]
    msg_out_length [of ps] assms(3) by simp

end
