(* ===== verification/Descriptors.thy ===== *)
theory Descriptors
  imports Panic
begin

text \<open>
  The two descriptor tables (\<open>core/GDT.c\<close>, \<open>core/IDT.c\<close>): the packed entries with the fields of the
  C structs, the functions that fill them and the loads of \<open>start.asm\<close> (\<open>gdt_flush\<close>, \<open>idt_load\<close>).
  The processor reads an entry by putting its split base and limit together again
  (\<open>seg_base\<close>, \<open>seg_limit\<close>, \<open>gate_offset\<close>); the theory proves that what was encoded is what is read.
\<close>

section \<open>State\<close>

record gdt_entry =
  g_limit_low :: u16
  g_base_low :: u16
  g_base_middle :: u8
  g_access :: u8
  g_gran :: u8
  g_base_high :: u8

record idt_entry =
  i_base_low :: u16
  i_sel :: u16
  i_zero :: u8
  i_flags :: u8
  i_base_high :: u16

text \<open>\<open>table_ptr\<close>: the operand of \<open>lgdt\<close> and \<open>lidt\<close>, both \<open>struct gdt_ptr\<close> and \<open>struct idt_ptr\<close>.\<close>

record table_ptr =
  tp_limit :: u16
  tp_base :: u32

text \<open>\<open>gdt_addr\<close> and \<open>idt_addr\<close> are the addresses the linker gave the two arrays; \<open>gdtr\<close>, \<open>idtr\<close>,
  \<open>seg_cs\<close> and \<open>seg_data\<close> (\<open>ds\<close>, \<open>es\<close>, \<open>fs\<close>, \<open>gs\<close>, \<open>ss\<close>, always loaded together) are registers.\<close>

record desc = kio +
  gdt :: "gdt_entry list"
  gp :: table_ptr
  idt :: "idt_entry list"
  idtp :: table_ptr
  gdt_addr :: u32
  idt_addr :: u32
  gdtr :: table_ptr
  idtr :: table_ptr
  seg_cs :: u16
  seg_data :: u16

section \<open>Operations\<close>

definition gdt_flush :: "'a desc_scheme \<Rightarrow> 'a desc_scheme" where
  "gdt_flush s = s\<lparr>gdtr := gp s, seg_data := 0x10, seg_cs := 0x08\<rparr>"

definition gdt_entry_of :: "u32 \<Rightarrow> u32 \<Rightarrow> u8 \<Rightarrow> u8 \<Rightarrow> gdt_entry" where
  "gdt_entry_of base limit access gran =
     \<lparr>g_limit_low = ucast (limit AND 0xFFFF),
      g_base_low = ucast (base AND 0xFFFF),
      g_base_middle = ucast (drop_bit 16 base AND 0xFF),
      g_access = access,
      g_gran = ucast (drop_bit 16 limit AND 0x0F) OR (gran AND 0xF0),
      g_base_high = ucast (drop_bit 24 base AND 0xFF)\<rparr>"

text \<open>An index of type \<open>int\<close>, here and in the tables of handlers, is a 32-bit word; a negative one is
  a large \<open>unat\<close>, outside every table as well.\<close>

definition gdt_set_gate ::
  "u32 \<Rightarrow> u32 \<Rightarrow> u32 \<Rightarrow> u8 \<Rightarrow> u8 \<Rightarrow> 'a desc_scheme \<Rightarrow> (unit, 'a desc_scheme) result" where
  "gdt_set_gate num base limit access gran s =
     (if unat num < length (gdt s)
      then Inr ((), s\<lparr>gdt := (gdt s)[unat num := gdt_entry_of base limit access gran]\<rparr>)
      else Inl Buffer_overflow)"

definition gdt_install :: "'a desc_scheme \<Rightarrow> (unit, 'a desc_scheme) result" where
  "gdt_install s =
     (let s0 = s\<lparr>gp := \<lparr>tp_limit = 8 * 3 - 1, tp_base = gdt_addr s\<rparr>\<rparr> in
      res_bind (gdt_set_gate 0 0 0 0 0 s0) (\<lambda>(_, s1).
      res_bind (gdt_set_gate 1 0 0xFFFFFFFF 0x9A 0xCF s1) (\<lambda>(_, s2).
      res_bind (gdt_set_gate 2 0 0xFFFFFFFF 0x92 0xCF s2) (\<lambda>(_, s3).
      Inr ((), gdt_flush s3)))))"

definition idt_load :: "'a desc_scheme \<Rightarrow> 'a desc_scheme" where
  "idt_load s = s\<lparr>idtr := idtp s\<rparr>"

definition idt_entry_of :: "u32 \<Rightarrow> u16 \<Rightarrow> u8 \<Rightarrow> idt_entry" where
  "idt_entry_of base sel flags =
     \<lparr>i_base_low = ucast (base AND 0xFFFF), i_sel = sel, i_zero = 0, i_flags = flags,
      i_base_high = ucast (drop_bit 16 base AND 0xFFFF)\<rparr>"

text \<open>\<open>num\<close> is an \<open>unsigned char\<close> and \<open>idt\<close> has 256 entries.\<close>

definition idt_set_gate :: "u8 \<Rightarrow> u32 \<Rightarrow> u16 \<Rightarrow> u8 \<Rightarrow> 'a desc_scheme \<Rightarrow> 'a desc_scheme" where
  "idt_set_gate num base sel flags s =
     s\<lparr>idt := (idt s)[unat num := idt_entry_of base sel flags]\<rparr>"

definition idt_entry0 :: idt_entry where
  "idt_entry0 = \<lparr>i_base_low = 0, i_sel = 0, i_zero = 0, i_flags = 0, i_base_high = 0\<rparr>"

definition idt_install :: "'a desc_scheme \<Rightarrow> 'a desc_scheme" where
  "idt_install s =
     (let s1 = s\<lparr>idtp := \<lparr>tp_limit = 8 * 256 - 1, tp_base = idt_addr s\<rparr>\<rparr>;
          s2 = s1\<lparr>idt := replicate 256 idt_entry0\<rparr>
      in idt_load s2)"

section \<open>How the processor reads an entry\<close>

definition seg_base :: "gdt_entry \<Rightarrow> u32" where
  "seg_base e = ucast (g_base_low e) OR push_bit 16 (ucast (g_base_middle e))
     OR push_bit 24 (ucast (g_base_high e))"

definition seg_limit_field :: "gdt_entry \<Rightarrow> u32" where
  "seg_limit_field e = ucast (g_limit_low e) OR push_bit 16 (ucast (g_gran e AND 0x0F))"

text \<open>With the granularity bit set the limit counts pages of 4096 bytes.\<close>

definition seg_limit :: "gdt_entry \<Rightarrow> u32" where
  "seg_limit e = (if g_gran e AND 0x80 \<noteq> 0 then push_bit 12 (seg_limit_field e) OR 0xFFF
     else seg_limit_field e)"

definition gate_offset :: "idt_entry \<Rightarrow> u32" where
  "gate_offset e = ucast (i_base_low e) OR push_bit 16 (ucast (i_base_high e))"

lemma split_base:
  fixes b :: u32
  shows "ucast (ucast (b AND 0xFFFF) :: u16) OR push_bit 16 (ucast (ucast (drop_bit 16 b AND 0xFF) :: u8))
    OR push_bit 24 (ucast (ucast (drop_bit 24 b AND 0xFF) :: u8)) = b"
proof -
  have m: "(0xFFFF :: u32) = mask 16" "(0xFF :: u32) = mask 8" by (simp_all add: mask_eq_exp_minus_1)
  show ?thesis
  proof (rule bit_word_eqI)
    fix n assume n: "n < LENGTH(32)"
    consider "n < 16" | "16 \<le> n" "n < 24" | "24 \<le> n" by linarith
    then show "bit (ucast (ucast (b AND 0xFFFF) :: u16) OR
        push_bit 16 (ucast (ucast (drop_bit 16 b AND 0xFF) :: u8)) OR
        push_bit 24 (ucast (ucast (drop_bit 24 b AND 0xFF) :: u8)) :: u32) n = bit b n"
      using n by cases (auto simp: m bit_simps)
  qed
qed

lemma split_offset:
  fixes b :: u32
  shows "ucast (ucast (b AND 0xFFFF) :: u16) OR push_bit 16 (ucast (ucast (drop_bit 16 b AND 0xFFFF) :: u16)) = b"
proof -
  have m: "(0xFFFF :: u32) = mask 16" by (simp add: mask_eq_exp_minus_1)
  show ?thesis
  proof (rule bit_word_eqI)
    fix n assume n: "n < LENGTH(32)"
    show "bit (ucast (ucast (b AND 0xFFFF) :: u16) OR
        push_bit 16 (ucast (ucast (drop_bit 16 b AND 0xFFFF) :: u16)) :: u32) n = bit b n"
      using n by (cases "n < 16") (auto simp: m bit_simps)
  qed
qed

lemma split_limit:
  fixes b :: u32 and g :: u8
  shows "ucast (ucast (b AND 0xFFFF) :: u16) OR
    push_bit 16 (ucast ((ucast (drop_bit 16 b AND 0x0F) OR (g AND 0xF0)) AND 0x0F :: u8)) = take_bit 20 b"
proof -
  have m: "(0xFFFF :: u32) = mask 16" "(0x0F :: u32) = mask 4" "(0x0F :: u8) = mask 4"
      "(0xF0 :: u8) = push_bit 4 (mask 4)"
    by (simp_all add: mask_eq_exp_minus_1)
  show ?thesis
  proof (rule bit_word_eqI)
    fix n assume n: "n < LENGTH(32)"
    show "bit (ucast (ucast (b AND 0xFFFF) :: u16) OR
        push_bit 16 (ucast ((ucast (drop_bit 16 b AND 0x0F) OR (g AND 0xF0)) AND 0x0F :: u8)) :: u32) n
      = bit (take_bit 20 b) n"
      using n unfolding m by (cases "n < 16") (auto simp: bit_simps)
  qed
qed

lemma gran_flags:
  fixes b :: u32 and g :: u8
  shows "(ucast (drop_bit 16 b AND 0x0F) OR (g AND 0xF0)) AND 0xF0 = g AND 0xF0"
proof -
  have m: "(0x0F :: u32) = mask 4" "(0xF0 :: u8) = push_bit 4 (mask 4)"
    by (simp_all add: mask_eq_exp_minus_1)
  show ?thesis
    unfolding m by (rule bit_word_eqI) (auto simp: bit_simps)
qed

lemma gdt_entry_decode:
  "seg_base (gdt_entry_of base limit access gran) = base"
  "seg_limit_field (gdt_entry_of base limit access gran) = take_bit 20 limit"
  "g_access (gdt_entry_of base limit access gran) = access"
  "g_gran (gdt_entry_of base limit access gran) AND 0xF0 = gran AND 0xF0"
  by (simp_all add: gdt_entry_of_def seg_base_def seg_limit_field_def split_base split_limit gran_flags)

lemma idt_entry_decode:
  "gate_offset (idt_entry_of base sel flags) = base" "i_sel (idt_entry_of base sel flags) = sel"
  "i_flags (idt_entry_of base sel flags) = flags" "i_zero (idt_entry_of base sel flags) = 0"
  by (simp_all add: idt_entry_of_def gate_offset_def split_offset)

lemma gdt_install_run:
  assumes "length (gdt s) = 3"
  shows "gdt_install s = Inr ((), s\<lparr>gp := \<lparr>tp_limit = 23, tp_base = gdt_addr s\<rparr>,
    gdt := [gdt_entry_of 0 0 0 0, gdt_entry_of 0 0xFFFFFFFF 0x9A 0xCF, gdt_entry_of 0 0xFFFFFFFF 0x92 0xCF],
    gdtr := \<lparr>tp_limit = 23, tp_base = gdt_addr s\<rparr>, seg_data := 0x10, seg_cs := 0x08\<rparr>)"
proof -
  obtain x y z where "gdt s = [x, y, z]"
    using assms by (auto simp: length_Suc_conv numeral_3_eq_3)
  then show ?thesis
    by (simp add: gdt_install_def gdt_set_gate_def gdt_flush_def Let_def)
qed

lemma flat_limit:
  "seg_limit (gdt_entry_of 0 0 0 0) = 0"
  "seg_limit (gdt_entry_of 0 0xFFFFFFFF a 0xCF) = 0xFFFFFFFF"
  by (simp_all add: seg_limit_def gdt_entry_decode) (simp_all add: gdt_entry_of_def)

section \<open>Properties\<close>

text \<open>C29. Encoding a segment descriptor loses nothing the processor reads: the entry written decodes
  to the whole base, the low 20 bits of the limit, the access byte and the four flag bits given, and
  no other entry changes; an index outside the table, a negative one too, is an overflow.\<close>

theorem gdt_set_gate_roundtrip:
  "(unat num < length (gdt s) \<and>
     (\<exists>e s'. gdt_set_gate num base limit access gran s = Inr ((), s') \<and> gdt s' = (gdt s)[unat num := e] \<and>
       seg_base e = base \<and> seg_limit_field e = take_bit 20 limit \<and> g_access e = access \<and>
       g_gran e AND 0xF0 = gran AND 0xF0)) \<or>
   (length (gdt s) \<le> unat num \<and> gdt_set_gate num base limit access gran s = Inl Buffer_overflow)"
  by (cases "unat num < length (gdt s)")
    (auto simp: gdt_set_gate_def gdt_entry_decode
      intro!: exI [of _ "gdt_entry_of base limit access gran"])

text \<open>\<open>gdt_install\<close> leaves the null descriptor and two flat segments, code readable and executable,
  data writable, both from 0 to the last byte of the address space, and the segment registers select
  them.\<close>

theorem gdt_install_flat:
  assumes "length (gdt s) = 3"
  shows "\<exists>s'. gdt_install s = Inr ((), s') \<and> length (gdt s') = 3 \<and>
    seg_base (gdt s' ! 0) = 0 \<and> seg_limit (gdt s' ! 0) = 0 \<and> g_access (gdt s' ! 0) = 0 \<and>
    (\<forall>i \<in> {1, 2}. seg_base (gdt s' ! i) = 0 \<and> seg_limit (gdt s' ! i) = 0xFFFFFFFF) \<and>
    g_access (gdt s' ! 1) = 0x9A \<and> g_access (gdt s' ! 2) = 0x92 \<and>
    gdtr s' = \<lparr>tp_limit = 23, tp_base = gdt_addr s\<rparr> \<and>
    unat (seg_cs s') = 8 * 1 \<and> unat (seg_data s') = 8 * 2"
  unfolding gdt_install_run [OF assms] by (simp add: gdt_entry_decode flat_limit)

definition desc0 :: desc where
  "desc0 = kio.extend kio0 \<lparr>gdt = replicate 3 (gdt_entry_of 0 0 0 0), gp = \<lparr>tp_limit = 0, tp_base = 0\<rparr>,
     idt = replicate 256 idt_entry0, idtp = \<lparr>tp_limit = 0, tp_base = 0\<rparr>,
     gdt_addr = 0x109000, idt_addr = 0x109100, gdtr = \<lparr>tp_limit = 0, tp_base = 0\<rparr>,
     idtr = \<lparr>tp_limit = 0, tp_base = 0\<rparr>, seg_cs = 0, seg_data = 0\<rparr>"

theorem gdt_install_flat_witness:
  "\<exists>s'. gdt_install desc0 = Inr ((), s') \<and> seg_limit (gdt s' ! 1) = 0xFFFFFFFF"
proof -
  have "length (gdt desc0) = 3" by (simp add: desc0_def kio.defs)
  from gdt_install_flat [OF this] show ?thesis by auto
qed

end
