(* ===== verification/Interrupts.thy ===== *)
theory Interrupts
  imports Descriptors
begin

text \<open>
  Exceptions and hardware interrupts (\<open>core/isrs.c\<close>, \<open>core/irq.c\<close>): the tables of installed
  handlers, the gates for the 48 vectors in use, the initialisation of the two 8259 controllers and
  the two dispatchers. A function pointer is a constructor of \<open>handler\<close>, a null one is \<open>None\<close>; the
  dispatchers take the function that runs a handler as the parameter \<open>call\<close>, which the theory \<open>System\<close>
  fixes. The addresses of the assembly stubs \<open>_isr0\<dots>\<close> and \<open>_irq0\<dots>\<close> are the linker's.
\<close>

section \<open>State\<close>

datatype handler = Timer_handler | Keyboard_handler | Page_fault

text \<open>\<open>struct regs\<close> as the stubs push it.\<close>

record regs =
  r_gs :: u32
  r_fs :: u32
  r_es :: u32
  r_ds :: u32
  r_edi :: u32
  r_esi :: u32
  r_ebp :: u32
  r_esp :: u32
  r_ebx :: u32
  r_edx :: u32
  r_ecx :: u32
  r_eax :: u32
  int_no :: u32
  err_code :: u32
  r_eip :: u32
  r_cs :: u32
  r_eflags :: u32
  r_useresp :: u32
  r_ss :: u32

record intr = desc +
  isrs_routines :: "handler option list"
  irq_routines :: "handler option list"
  isr_stub :: "nat \<Rightarrow> u32"
  irq_stub :: "nat \<Rightarrow> u32"

section \<open>Operations\<close>

definition isrs_install_handler :: "u32 \<Rightarrow> handler \<Rightarrow> 'a intr_scheme \<Rightarrow> (unit, 'a intr_scheme) result" where
  "isrs_install_handler isrs h s =
     (if unat isrs < length (isrs_routines s)
      then Inr ((), s\<lparr>isrs_routines := (isrs_routines s)[unat isrs := Some h]\<rparr>) else Inl Buffer_overflow)"

definition isrs_uninstall_handler :: "u32 \<Rightarrow> 'a intr_scheme \<Rightarrow> (unit, 'a intr_scheme) result" where
  "isrs_uninstall_handler isrs s =
     (if unat isrs < length (isrs_routines s)
      then Inr ((), s\<lparr>isrs_routines := (isrs_routines s)[unat isrs := None]\<rparr>) else Inl Buffer_overflow)"

definition isrs_install :: "'a intr_scheme \<Rightarrow> 'a intr_scheme" where
  "isrs_install s = fold (\<lambda>n s. idt_set_gate (of_nat n) (isr_stub s n) 0x08 0x8E s) [0..<32] s"

definition irq_install_handler :: "u32 \<Rightarrow> handler \<Rightarrow> 'a intr_scheme \<Rightarrow> (unit, 'a intr_scheme) result" where
  "irq_install_handler irq h s =
     (if unat irq < length (irq_routines s)
      then Inr ((), s\<lparr>irq_routines := (irq_routines s)[unat irq := Some h]\<rparr>) else Inl Buffer_overflow)"

definition irq_uninstall_handler :: "u32 \<Rightarrow> 'a intr_scheme \<Rightarrow> (unit, 'a intr_scheme) result" where
  "irq_uninstall_handler irq s =
     (if unat irq < length (irq_routines s)
      then Inr ((), s\<lparr>irq_routines := (irq_routines s)[unat irq := None]\<rparr>) else Inl Buffer_overflow)"

definition irq_remap :: "'a intr_scheme \<Rightarrow> 'a intr_scheme" where
  "irq_remap s = fold (\<lambda>(port, data). outportb port data)
     [(0x20, 0x11), (0xA0, 0x11), (0x21, 0x20), (0xA1, 0x28), (0x21, 0x04), (0xA1, 0x02),
      (0x21, 0x01), (0xA1, 0x01), (0x21, 0x0), (0xA1, 0x0)] s"

definition irq_install :: "'a intr_scheme \<Rightarrow> 'a intr_scheme" where
  "irq_install s =
     (let s1 = irq_remap s;
          s2 = fold (\<lambda>n s. idt_set_gate (of_nat (32 + n)) (irq_stub s n) 0x08 0x8E s) [0..<16] s1
      in s2\<lparr>int_flag := True\<rparr>)"

definition exception_messages :: "u8 list list" where
  "exception_messages = map c_lit
     ([''division by zero'', ''debug'', ''non-maskable interrupt'', ''breakpoint'',
       ''detected overflow'', ''out-of-bounds'', ''invalid opcode'', ''no coprocessor'',
       ''double fault'', ''coprocessor segment overrun'', ''bad TSS'', ''segment not present'',
       ''stack fault'', ''general protection fault'', ''page fault'', ''unknown interrupt'',
       ''coprocessor fault'', ''alignment check'', ''machine check''] @ replicate 13 ''reserved'')"

definition fault_handler ::
  "(handler \<Rightarrow> regs \<Rightarrow> 'a intr_scheme \<Rightarrow> (unit, 'a intr_scheme) result) \<Rightarrow>
     regs \<Rightarrow> 'a intr_scheme \<Rightarrow> (unit, 'a intr_scheme) result" where
  "fault_handler call r s =
     (if int_no r < 32 then
        (case isrs_routines s ! unat (int_no r) of
           Some h \<Rightarrow> call h r s
         | None \<Rightarrow>
             (let msg = exception_messages ! unat (int_no r) in
              res_bind (kprintf (c_lit (''%s exception encountered.'' @ nl)) [Karg_str msg] s) (\<lambda>(_, s1).
              res_bind (puts msg s1) (\<lambda>(_, s2).
              halt_and_catch_fire (c_lit ''System halted.'') (c_lit ''isrs.c'') 135 s2))))
      else Inr ((), s))"

definition irq_handler ::
  "(handler \<Rightarrow> regs \<Rightarrow> 'a intr_scheme \<Rightarrow> (unit, 'a intr_scheme) result) \<Rightarrow>
     regs \<Rightarrow> 'a intr_scheme \<Rightarrow> (unit, 'a intr_scheme) result" where
  "irq_handler call r s =
     (let i = unat (int_no r - 32) in
      if i < length (irq_routines s) then
        res_bind (case irq_routines s ! i of Some h \<Rightarrow> call h r s | None \<Rightarrow> Inr ((), s)) (\<lambda>(_, s1).
          let s2 = (if 40 \<le> int_no r then outportb 0xA0 0x20 s1 else s1)
          in Inr ((), outportb 0x20 0x20 s2))
      else Inl Buffer_overflow)"

section \<open>The gates\<close>

lemma idt_set_gate_fields:
  "idt_set_gate n b sel f s = s\<lparr>idt := (idt s)[unat n := idt_entry_of b sel f]\<rparr>"
  by (simp add: idt_set_gate_def)

lemma outportb_idt [simp]:
  "idt (outportb p d s) = idt s" "isrs_routines (outportb p d t) = isrs_routines t"
  "irq_routines (outportb p d t) = irq_routines t" "irq_stub (outportb p d t) = irq_stub t"
  "isr_stub (outportb p d t) = isr_stub t"
  by (simp_all add: outportb_def)

text \<open>Installing \<open>k\<close> gates from vector \<open>v\<close> on sets exactly those entries.\<close>

lemma install_gates:
  fixes s :: "'a intr_scheme"
  assumes "v + k \<le> 256" and "length (idt s) = 256"
    and "\<And>s t :: 'a intr_scheme. \<exists>g. t = s\<lparr>idt := g\<rparr> \<Longrightarrow> stub t = stub s"
  shows "\<exists>g. fold (\<lambda>n s. idt_set_gate (of_nat (v + n)) (stub s n) sel f s) [0..<k] s = s\<lparr>idt := g\<rparr> \<and>
    length g = 256 \<and>
    (\<forall>i < 256. g ! i = (if v \<le> i \<and> i < v + k then idt_entry_of (stub s (i - v)) sel f else idt s ! i))"
  using assms(1)
proof (induction k)
  case 0
  show ?case using assms(2) by (intro exI [of _ "idt s"]) auto
next
  case (Suc k)
  then obtain g where g: "fold (\<lambda>n s. idt_set_gate (of_nat (v + n)) (stub s n) sel f s) [0..<k] s = s\<lparr>idt := g\<rparr>"
    "length g = 256"
    "\<And>i. i < 256 \<Longrightarrow> g ! i = (if v \<le> i \<and> i < v + k then idt_entry_of (stub s (i - v)) sel f else idt s ! i)"
    by auto
  have u: "unat (of_nat (v + k) :: u8) = v + k"
    using Suc.prems unat_of_nat_small [where 'a = 8, of "v + k"] by simp
  have st: "stub (s\<lparr>idt := g\<rparr>) = stub s" by (rule assms(3)) blast
  show ?case
    using Suc.prems g u
    by (intro exI [of _ "g[v + k := idt_entry_of (stub s k) sel f]"])
      (auto simp: idt_set_gate_fields st nth_list_update simp del: of_nat_add)
qed

section \<open>The interrupt controllers\<close>

text \<open>
  What an 8259 does with the bytes written to its two ports: a command byte with bit 4 set starts
  the initialisation, which takes the next three data bytes as the vector base (ICW2), the cascade
  (ICW3) and the mode (ICW4); otherwise a data byte is the mask, and the command \<open>0x20\<close> ends the
  interrupt in service that has the highest priority (the lowest line).
\<close>

datatype pic_phase = Ready | Want_ICW2 | Want_ICW3 | Want_ICW4

record pic =
  phase :: pic_phase
  vector_base :: u8
  cascade :: u8
  pic_mode :: u8
  pic_mask :: u8
  in_service :: "nat set"

definition pic_command :: "u8 \<Rightarrow> pic \<Rightarrow> pic" where
  "pic_command d p =
     (if d AND 0x10 \<noteq> 0 then p\<lparr>phase := Want_ICW2, pic_mask := 0, in_service := {}\<rparr>
      else if d = 0x20 \<and> in_service p \<noteq> {} then p\<lparr>in_service := in_service p - {Min (in_service p)}\<rparr>
      else p)"

definition pic_data :: "u8 \<Rightarrow> pic \<Rightarrow> pic" where
  "pic_data d p = (case phase p of
       Ready \<Rightarrow> p\<lparr>pic_mask := d\<rparr>
     | Want_ICW2 \<Rightarrow> p\<lparr>vector_base := d, phase := Want_ICW3\<rparr>
     | Want_ICW3 \<Rightarrow> p\<lparr>cascade := d, phase := Want_ICW4\<rparr>
     | Want_ICW4 \<Rightarrow> p\<lparr>pic_mode := d, phase := Ready\<rparr>)"

text \<open>\<open>pics out (m, v)\<close>: the master (ports 0x20, 0x21) and slave (0xA0, 0xA1) after the writes \<open>out\<close>.\<close>

fun pic_write :: "u16 \<times> u8 \<Rightarrow> pic \<times> pic \<Rightarrow> pic \<times> pic" where
  "pic_write (port, d) (m, v) =
     (if port = 0x20 then (pic_command d m, v)
      else if port = 0x21 then (pic_data d m, v)
      else if port = 0xA0 then (m, pic_command d v)
      else if port = 0xA1 then (m, pic_data d v)
      else (m, v))"

definition pics :: "(u16 \<times> u8) list \<Rightarrow> pic \<times> pic \<Rightarrow> pic \<times> pic" where
  "pics out mv = fold pic_write out mv"

text \<open>Line \<open>n\<close> of the pair is line \<open>n\<close> of the master, or line \<open>n - 8\<close> of the slave through the
  master's line 2.\<close>

definition line_vector :: "pic \<times> pic \<Rightarrow> nat \<Rightarrow> nat" where
  "line_vector mv n = (if n < 8 then unat (vector_base (fst mv)) + n
     else unat (vector_base (snd mv)) + (n - 8))"

definition deliver :: "nat \<Rightarrow> pic \<times> pic \<Rightarrow> pic \<times> pic" where
  "deliver n mv = (if n < 8 then ((fst mv)\<lparr>in_service := insert n (in_service (fst mv))\<rparr>, snd mv)
     else ((fst mv)\<lparr>in_service := insert 2 (in_service (fst mv))\<rparr>,
           (snd mv)\<lparr>in_service := insert (n - 8) (in_service (snd mv))\<rparr>))"

definition idle_pics :: "pic \<times> pic \<Rightarrow> bool" where
  "idle_pics mv \<longleftrightarrow> in_service (fst mv) = {} \<and> in_service (snd mv) = {}"

lemma pics_append: "pics (out @ out') mv = pics out' (pics out mv)"
  by (simp add: pics_def)

definition remap_writes :: "(u16 \<times> u8) list" where
  "remap_writes = [(0x20, 0x11), (0xA0, 0x11), (0x21, 0x20), (0xA1, 0x28), (0x21, 0x04), (0xA1, 0x02),
      (0x21, 0x01), (0xA1, 0x01), (0x21, 0x0), (0xA1, 0x0)]"

lemma fold_outportb:
  "fold (\<lambda>(port, data). outportb port data) ws s = s\<lparr>port_out := port_out s @ ws\<rparr>"
  by (induction ws arbitrary: s) (auto simp: outportb_def)

lemma irq_remap_writes: "irq_remap s = s\<lparr>port_out := port_out s @ remap_writes\<rparr>"
  by (simp only: irq_remap_def fold_outportb remap_writes_def)

lemma pics_remapped:
  "pics remap_writes (m, v) =
    (m\<lparr>phase := Ready, vector_base := 0x20, cascade := 4, pic_mode := 1, pic_mask := 0, in_service := {}\<rparr>,
     v\<lparr>phase := Ready, vector_base := 0x28, cascade := 2, pic_mode := 1, pic_mask := 0, in_service := {}\<rparr>)"
  by (cases m; cases v) (simp add: pics_def remap_writes_def pic_command_def pic_data_def)

text \<open>Ending the interrupt on line \<open>n\<close>.\<close>

definition eoi_writes :: "nat \<Rightarrow> (u16 \<times> u8) list" where
  "eoi_writes n = (if 8 \<le> n then [(0xA0, 0x20)] else []) @ [(0x20, 0x20)]"

lemma pics_video: "other_writes w \<Longrightarrow> pics w mv = mv"
proof (induction w arbitrary: mv)
  case (Cons x w)
  obtain m v p d where x: "mv = (m, v)" "x = (p, d)" by (cases mv, cases x)
  have "p \<notin> {0x20, 0x21, 0xA0, 0xA1}" "other_writes w" using Cons.prems by (auto simp: other_writes_def x)
  then show ?case using Cons.IH by (auto simp: pics_def x)
qed (simp add: pics_def)

lemma eoi_restores:
  assumes "idle_pics mv"
  shows "pics (eoi_writes n) (deliver n mv) = mv"
  using assms by (cases mv) (auto simp: idle_pics_def pics_def eoi_writes_def deliver_def pic_command_def)

text \<open>What is written between an interrupt and its end, a handler's bytes for other ports and the acknowledgement.\<close>

lemma ack_restores:
  assumes "spares_pics s s1" and "idle_pics mv"
  shows "pics (drop (length (port_out s)) (port_out s1 @ eoi_writes n)) (deliver n mv) = mv"
proof -
  obtain w where w: "port_out s1 = port_out s @ w" "other_writes w" using assms(1) by (auto simp: spares_pics_def)
  then have "drop (length (port_out s)) (port_out s1 @ eoi_writes n) = w @ eoi_writes n" by simp
  then show ?thesis using pics_video [OF w(2)] eoi_restores [OF assms(2)] by (simp only: pics_append)
qed

lemma irq_handler_run:
  assumes "n < 16" and "int_no r = of_nat (32 + n)" and "length (irq_routines s) = 16"
    and "(case irq_routines s ! n of Some h \<Rightarrow> call h r s | None \<Rightarrow> Inr ((), s)) = Inr ((), s1)"
  shows "irq_handler call r s = Inr ((), s1\<lparr>port_out := port_out s1 @ eoi_writes n\<rparr>)"
proof -
  have u: "unat (of_nat n :: u32) = n" using assms(1) by (simp add: unat_of_nat32)
  have "unat (of_nat (32 + n) :: u32) = 32 + n"
    using assms(1) unat_of_nat32 [of "32 + n"] by simp
  then have "(40 \<le> int_no r) = (8 \<le> n)" by (simp add: assms(2) word_le_nat_alt)
  moreover have "unat (int_no r - 32) = n" using u by (simp add: assms(2))
  ultimately show ?thesis
    using assms by (simp add: irq_handler_def outportb_def eoi_writes_def)
qed

section \<open>Both installs together\<close>

lemma isrs_install_run:
  assumes "length (idt s) = 256"
  shows "\<exists>g. isrs_install s = s\<lparr>idt := g\<rparr> \<and> length g = 256 \<and>
    (\<forall>i < 256. g ! i = (if i < 32 then idt_entry_of (isr_stub s i) 0x08 0x8E else idt s ! i))"
proof -
  have e: "isrs_install s = fold (\<lambda>n s. idt_set_gate (of_nat (0 + n)) (isr_stub s n) 0x08 0x8E s) [0..<32] s"
    by (simp only: isrs_install_def add_0)
  have "0 + 32 \<le> (256 :: nat)" by simp
  note i = install_gates [OF this assms, of isr_stub "0x08" "0x8E"]
  have "\<exists>g. isrs_install s = s\<lparr>idt := g\<rparr> \<and> length g = 256 \<and>
    (\<forall>i < 256. g ! i = (if 0 \<le> i \<and> i < 0 + 32 then idt_entry_of (isr_stub s (i - 0)) 0x08 0x8E else idt s ! i))"
    unfolding e by (rule i) auto
  then show ?thesis by (simp only: add_0 diff_zero le0 simp_thms)
qed

lemma irq_install_run:
  fixes s :: "'a intr_scheme"
  assumes "length (idt s) = 256"
  shows "\<exists>g. irq_install s = s\<lparr>port_out := port_out s @ remap_writes, idt := g, int_flag := True\<rparr> \<and>
    length g = 256 \<and>
    (\<forall>i < 256. g ! i = (if 32 \<le> i \<and> i < 48 then idt_entry_of (irq_stub s (i - 32)) 0x08 0x8E
      else idt s ! i))"
proof -
  let ?s = "s\<lparr>port_out := port_out s @ remap_writes\<rparr>"
  have e: "irq_install s = (fold (\<lambda>n s. idt_set_gate (of_nat (32 + n)) (irq_stub s n) 0x08 0x8E s) [0..<16] ?s)
      \<lparr>int_flag := True\<rparr>"
    by (simp only: irq_install_def irq_remap_writes Let_def)
  have st: "irq_stub t = irq_stub u" if "\<exists>g. t = u\<lparr>idt := g\<rparr>" for u t :: "'a intr_scheme"
    using that by auto
  have le: "32 + 16 \<le> (256 :: nat)" and len: "length (idt ?s) = 256" using assms by simp_all
  obtain g where g: "fold (\<lambda>n s. idt_set_gate (of_nat (32 + n)) (irq_stub s n) 0x08 0x8E s) [0..<16] ?s = ?s\<lparr>idt := g\<rparr>"
    "length g = 256"
    "\<forall>i < 256. g ! i = (if 32 \<le> i \<and> i < 32 + 16 then idt_entry_of (irq_stub ?s (i - 32)) 0x08 0x8E else idt ?s ! i)"
    using install_gates [where stub = irq_stub and sel = "0x08" and f = "0x8E", OF le len st] by blast
  show ?thesis
    unfolding e g(1) using g(2,3) by (intro exI [of _ g]) simp
qed

lemma install_vectors_run:
  "\<exists>g. irq_install (isrs_install (idt_install s)) = (idt_load (s\<lparr>idtp := \<lparr>tp_limit = 2047, tp_base = idt_addr s\<rparr>\<rparr>))
      \<lparr>port_out := port_out s @ remap_writes, idt := g, int_flag := True\<rparr> \<and>
    length g = 256 \<and>
    (\<forall>i < 256. g ! i = (if i < 32 then idt_entry_of (isr_stub s i) 0x08 0x8E
      else if i < 48 then idt_entry_of (irq_stub s (i - 32)) 0x08 0x8E else idt_entry0))"
proof -
  let ?s1 = "idt_install s"
  have s1: "?s1 = (idt_load (s\<lparr>idtp := \<lparr>tp_limit = 2047, tp_base = idt_addr s\<rparr>\<rparr>))\<lparr>idt := replicate 256 idt_entry0\<rparr>"
    by (simp add: idt_install_def idt_load_def Let_def)
  have f: "isr_stub ?s1 = isr_stub s" "irq_stub ?s1 = irq_stub s" "idt ?s1 = replicate 256 idt_entry0"
    "port_out ?s1 = port_out s"
    by (simp_all add: s1 idt_load_def)
  obtain g where g: "isrs_install ?s1 = ?s1\<lparr>idt := g\<rparr>" "length g = 256"
    "\<forall>i < 256. g ! i = (if i < 32 then idt_entry_of (isr_stub s i) 0x08 0x8E else replicate 256 idt_entry0 ! i)"
    using isrs_install_run [of ?s1] f by auto
  obtain h where h: "irq_install (?s1\<lparr>idt := g\<rparr>)
      = ?s1\<lparr>idt := g, port_out := port_out s @ remap_writes, idt := h, int_flag := True\<rparr>" "length h = 256"
    "\<forall>i < 256. h ! i = (if 32 \<le> i \<and> i < 48 then idt_entry_of (irq_stub s (i - 32)) 0x08 0x8E else g ! i)"
    using irq_install_run [of "?s1\<lparr>idt := g\<rparr>"] f g(2) by auto
  show ?thesis
    using g h by (intro exI [of _ h]) (auto simp: s1 idt_load_def nth_replicate)
qed

section \<open>Exceptions\<close>

lemma exception_messages_ok:
  "list_all (\<lambda>m. 0 \<in> set m \<and> length (chars_upto_nul m) < 40) exception_messages"
  "length exception_messages = 32"
  by code_simp+

lemma exception_message:
  assumes "n < 32"
  shows "0 \<in> set (exception_messages ! n)" "length (chars_upto_nul (exception_messages ! n)) < 40"
  using exception_messages_ok assms by (auto simp: list_all_length)

definition exception_chars :: "nat \<Rightarrow> u8 list" where
  "exception_chars n = chars_upto_nul (exception_messages ! n)"

lemma render_encountered:
  assumes "n < 32"
  shows "render (c_chars (''%s exception encountered.'' @ nl)) [Karg_str (exception_messages ! n)]
    = Some (exception_chars n @ c_chars ('' exception encountered.'' @ nl))"
proof -
  have "c_chars (''%s exception encountered.'' @ nl) = 0x25 # 0x73 # c_chars ('' exception encountered.'' @ nl)"
    by (simp add: c_chars_def)
  moreover have "list_all (\<lambda>c. c \<noteq> 0x25 \<and> c \<noteq> 0x5C) (c_chars ('' exception encountered.'' @ nl))"
    by code_simp
  ultimately show ?thesis
    using exception_message [OF assms] render_plain [of "c_chars ('' exception encountered.'' @ nl)" "[]" "[]"]
    by (simp add: directive_chars_def exception_chars_def)
qed

lemma says_exception:
  assumes "kio_ok s" and "n < 32"
  shows "\<exists>s'. kprintf (c_lit (''%s exception encountered.'' @ nl)) [Karg_str (exception_messages ! n)] s
      = Inr ((), s') \<and> says s (exception_chars n @ c_chars ('' exception encountered.'' @ nl)) s'"
proof -
  have "0 \<notin> set (c_chars (''%s exception encountered.'' @ nl))"
    "0 \<notin> set (c_chars ('' exception encountered.'' @ nl))"
    "length (c_chars ('' exception encountered.'' @ nl)) < 100"
    by code_simp+
  then show ?thesis
    using kprintf_says [OF assms(1) render_encountered [OF assms(2)]] exception_message [OF assms(2)]
      chars_upto_nul_no_nul [of "exception_messages ! n"]
    by (simp add: c_lit_def exception_chars_def)
qed

lemma says_puts:
  assumes "kio_ok s" and "0 \<in> set t"
  shows "\<exists>s'. puts t s = Inr ((), s') \<and> says s (chars_upto_nul t) s'"
proof -
  let ?s = "fold putch (chars_upto_nul t) s"
  obtain m p x y where f: "?s = s\<lparr>mem := m, port_out := p, csr_x := x, csr_y := y\<rparr>"
    using fold_putch_fields by blast
  then have "kio_part s ?s"
    using fold_putch_video [of s "chars_upto_nul t"] by (intro kio_partI [where k = "kptr s" and b = "kbuf s"]) simp_all
  moreover have "kbuf ?s = kbuf s" using f by simp
  ultimately have "says s (chars_upto_nul t) ?s"
    using fold_putch_ok [of s "chars_upto_nul t"] assms(1) by (simp add: says_def kio_ok_def)
  then show ?thesis using puts_fold [OF assms(2), of s] by blast
qed

lemma unhandled_exception:
  assumes "kio_ok s" and "int_no r = of_nat n" and "n < 32" and "isrs_routines s ! n = None"
  shows "\<exists>s1 s'. fault_handler call r s = Inl (Halted s') \<and>
    says s (exception_chars n @ c_chars ('' exception encountered.'' @ nl) @ exception_chars n) s1 \<and>
    panicked s1 (report ''PANIC! '' (c_lit ''System halted.'') (c_lit ''isrs.c'') 135) s'"
proof -
  have u: "unat (of_nat n :: u32) = n" using assms(3) by (simp add: unat_of_nat32)
  have lt: "(of_nat n :: u32) < 32" using assms(3) u by (simp add: word_less_nat_alt)
  obtain s1 where 1: "kprintf (c_lit (''%s exception encountered.'' @ nl)) [Karg_str (exception_messages ! n)] s
      = Inr ((), s1)" "says s (exception_chars n @ c_chars ('' exception encountered.'' @ nl)) s1"
    using says_exception [OF assms(1,3)] by blast
  obtain s2 where 2: "puts (exception_messages ! n) s1 = Inr ((), s2)" "says s1 (exception_chars n) s2"
    using says_puts [of s1] 1(2) exception_message(1) [OF assms(3)]
    by (auto simp: says_def exception_chars_def)
  have m: "length (chars_upto_nul (c_lit ''System halted.'')) < 1000"
    "length (chars_upto_nul (c_lit ''isrs.c'')) < 1000" by code_simp+
  obtain s' where 3: "(halt_and_catch_fire (c_lit ''System halted.'') (c_lit ''isrs.c'') 135 s2
        :: (unit, 'a intr_scheme) result) = Inl (Halted s')"
      "panicked s2 (report ''PANIC! '' (c_lit ''System halted.'') (c_lit ''isrs.c'') 135) s'"
    using halt_and_catch_fire_report [OF _ _ _ m, of s2] 2(2) by (auto simp: says_def c_lit_def)
  have "fault_handler call r s = Inl (Halted s')"
    by (simp only: fault_handler_def assms(2,4) lt u 1(1) 2(1) 3(1) Let_def res_bind_simps if_True
        option.case prod.case)
  then show ?thesis using says_trans [OF 1(2) 2(2)] 3(2) by auto
qed

section \<open>Properties\<close>

text \<open>C22. After the installs \<open>main\<close> performs, every exception vector points to its own stub, and
  every interrupt line of the two controllers is delivered on a vector of its own, 32 to 47, whose
  gate points to the stub of that line; all these are present 32-bit interrupt gates in the code
  segment, the other vectors stay empty, the table is loaded and interrupts are enabled.\<close>

theorem interrupt_vectors_installed:
  fixes s :: "'a intr_scheme"
  defines "s' \<equiv> irq_install (isrs_install (idt_install s))"
  shows "(\<forall>n < 32. idt s' ! n = idt_entry_of (isr_stub s n) 0x08 0x8E \<and>
      gate_offset (idt s' ! n) = isr_stub s n) \<and>
    (\<exists>out. port_out s' = port_out s @ out \<and> (\<forall>mv. idle_pics (pics out mv) \<and>
      (\<forall>n < 16. line_vector (pics out mv) n = 32 + n \<and>
        gate_offset (idt s' ! line_vector (pics out mv) n) = irq_stub s n \<and>
        i_flags (idt s' ! line_vector (pics out mv) n) = 0x8E))) \<and>
    (\<forall>i. 48 \<le> i \<and> i < 256 \<longrightarrow> idt s' ! i = idt_entry0) \<and>
    idtr s' = \<lparr>tp_limit = 2047, tp_base = idt_addr s\<rparr> \<and> int_flag s'"
proof -
  obtain g where s': "s' = (idt_load (s\<lparr>idtp := \<lparr>tp_limit = 2047, tp_base = idt_addr s\<rparr>\<rparr>))
      \<lparr>port_out := port_out s @ remap_writes, idt := g, int_flag := True\<rparr>"
    and g: "\<And>i. i < 256 \<Longrightarrow> g ! i = (if i < 32 then idt_entry_of (isr_stub s i) 0x08 0x8E
      else if i < 48 then idt_entry_of (irq_stub s (i - 32)) 0x08 0x8E else idt_entry0)"
    using install_vectors_run [of s] unfolding s'_def by blast
  have pics: "idle_pics (pics remap_writes mv)"
    "n < 16 \<Longrightarrow> line_vector (pics remap_writes mv) n = 32 + n" for mv n
    by (cases mv, simp add: pics_remapped idle_pics_def line_vector_def)+
  have "port_out s' = port_out s @ remap_writes" by (simp add: s')
  with pics g show ?thesis
    by (auto simp: s' idt_entry_decode idt_load_def intro!: exI [of _ remap_writes])
qed

text \<open>C24. An interrupt on any of the 16 lines is acknowledged once its handler returns, to the
  controllers that have it in service and to no other, the slave before the master: if the controllers had
  nothing in service when the interrupt came, and the handler writes to none of their ports, then after the
  writes made since, the handler's and the acknowledgement, they are in the state they were in before it, and the
  next one can come. What was written to the ports earlier, by \<open>irq_remap\<close> for one, does not matter.\<close>

theorem irq_acknowledged:
  assumes "n < 16" and "int_no r = of_nat (32 + n)" and "length (irq_routines s) = 16"
    and "(case irq_routines s ! n of Some h \<Rightarrow> call h r s | None \<Rightarrow> Inr ((), s)) = Inr ((), s1)"
    and "spares_pics s s1" and "idle_pics mv"
  shows "\<exists>ack. irq_handler call r s = Inr ((), s1\<lparr>port_out := port_out s1 @ ack\<rparr>) \<and>
    ack = (if n < 8 then [(0x20, 0x20)] else [(0xA0, 0x20), (0x20, 0x20)]) \<and>
    pics (drop (length (port_out s)) (port_out s1 @ ack)) (deliver n mv) = mv"
  using irq_handler_run [where call = call and r = r and s = s, OF assms(1-4)] ack_restores [OF assms(5,6), of n]
  by (intro exI [of _ "eoi_writes n"]) (simp add: eoi_writes_def)

text \<open>An idle machine for the witnesses, with no handler installed.\<close>

definition intr0 :: intr where
  "intr0 = desc.extend desc0 \<lparr>isrs_routines = replicate 32 None, irq_routines = replicate 16 None,
     isr_stub = (\<lambda>n. 0x100200 + 16 * of_nat n), irq_stub = (\<lambda>n. 0x100400 + 16 * of_nat n)\<rparr>"

definition regs0 :: regs where
  "regs0 = \<lparr>r_gs = 0, r_fs = 0, r_es = 0, r_ds = 0, r_edi = 0, r_esi = 0, r_ebp = 0, r_esp = 0,
     r_ebx = 0, r_edx = 0, r_ecx = 0, r_eax = 0, int_no = 0, err_code = 0, r_eip = 0, r_cs = 0,
     r_eflags = 0, r_useresp = 0, r_ss = 0\<rparr>"

definition pic0 :: pic where
  "pic0 = \<lparr>phase = Ready, vector_base = 0, cascade = 0, pic_mode = 0, pic_mask = 0, in_service = {}\<rparr>"

lemma intr0_fields:
  "isrs_routines intr0 = replicate 32 None" "irq_routines intr0 = replicate 16 None"
  "port_out intr0 = []"
  by (simp_all add: intr0_def desc.defs desc0_def kio.defs kio0_def console.defs console0_def
      machine.defs machine0_def)

lemma intr0_ok: "kio_ok intr0"
  using kio0_ok
  by (simp add: kio_ok_def console_ok_def intr0_def desc.defs desc0_def kio.defs)

text \<open>The state the installs leave, with a handler on line 12 that writes a byte to the keyboard's port.\<close>

definition intr_up :: intr where
  "intr_up = irq_install (isrs_install (idt_install (intr0\<lparr>irq_routines := (replicate 16 None)[12 := Some Keyboard_handler]\<rparr>)))"

theorem irq_acknowledged_witness:
  "irq_handler (\<lambda>h r s. Inr ((), outportb 0x60 0xED s)) (regs0\<lparr>int_no := 44\<rparr>) intr_up
      = Inr ((), intr_up\<lparr>port_out := remap_writes @ [(0x60, 0xED), (0xA0, 0x20), (0x20, 0x20)]\<rparr>) \<and>
    pics [(0x60, 0xED), (0xA0, 0x20), (0x20, 0x20)] (deliver 12 (pics remap_writes (pic0, pic0))) = pics remap_writes (pic0, pic0)"
proof -
  have up: "irq_routines intr_up = (replicate 16 None)[12 := Some Keyboard_handler]" "port_out intr_up = remap_writes"
    using install_vectors_run [of "intr0\<lparr>irq_routines := (replicate 16 None)[12 := Some Keyboard_handler]\<rparr>"]
    by (auto simp: intr_up_def idt_load_def intr0_fields)
  have h: "int_no (regs0\<lparr>int_no := 44\<rparr>) = of_nat (32 + 12)" "idle_pics (pics remap_writes (pic0, pic0))"
    "spares_pics intr_up (outportb 0x60 0xED intr_up)"
    by (simp_all add: pics_remapped idle_pics_def spares_pics_def outportb_def other_writes_def)
  show ?thesis
    using irq_acknowledged [of 12, OF _ h(1) _ _ h(3,2), of "\<lambda>h r s. Inr ((), outportb 0x60 0xED s)"]
    by (simp add: up outportb_def)
qed

theorem interrupt_vectors_installed_witness:
  "gate_offset (idt (irq_install (isrs_install (idt_install intr0))) ! 33) = 0x100410 \<and>
   gate_offset (idt (irq_install (isrs_install (idt_install intr0))) ! 14) = 0x1002E0 \<and>
   idt (irq_install (isrs_install (idt_install intr0))) ! 255 = idt_entry0"
proof -
  let ?s = "irq_install (isrs_install (idt_install intr0))"
  have stubs: "isr_stub intr0 14 = 0x1002E0" "irq_stub intr0 1 = 0x100410"
    by (simp_all add: intr0_def desc.defs)
  note v = interrupt_vectors_installed [of intr0]
  have 14: "gate_offset (idt ?s ! 14) = isr_stub intr0 14"
    using conjunct1 [OF v] by (elim allE [of _ 14]) (simp add: idt_entry_decode)
  have 255: "idt ?s ! 255 = idt_entry0"
    using conjunct1 [OF conjunct2 [OF conjunct2 [OF v]]] by (elim allE [of _ 255]) simp
  obtain out where "\<forall>mv. idle_pics (pics out mv) \<and> (\<forall>n < 16. line_vector (pics out mv) n = 32 + n \<and>
        gate_offset (idt ?s ! line_vector (pics out mv) n) = irq_stub intr0 n \<and>
        i_flags (idt ?s ! line_vector (pics out mv) n) = 0x8E)"
    using conjunct1 [OF conjunct2 [OF v]] by (elim exE conjE)
  then have "gate_offset (idt ?s ! 33) = irq_stub intr0 1"
    by (elim allE [of _ "(pic0, pic0)"] conjE allE [of _ 1]) auto
  with 14 255 show ?thesis by (simp only: stubs simp_thms)
qed

text \<open>C25. An exception no handler is installed for never returns to the faulting code: its name is
  printed twice on the screen, the second time by the bare \<open>puts\<close>, followed by the report of the panic
  at \<open>isrs.c:135\<close>, and the machine stops with interrupts disabled.\<close>

theorem unhandled_exception_halts:
  assumes "kio_ok s" and "int_no r = of_nat n" and "n < 32" and "isrs_routines s ! n = None"
  shows "\<exists>s1 s'. fault_handler call r s = Inl (Halted s') \<and>
    says s (exception_chars n @ c_chars ('' exception encountered.'' @ nl) @ exception_chars n) s1 \<and>
    panicked s1 (report ''PANIC! '' (c_lit ''System halted.'') (c_lit ''isrs.c'') 135) s'"
  by (rule unhandled_exception [OF assms])

theorem unhandled_exception_halts_witness:
  "\<exists>s1 s'. fault_handler (\<lambda>h r s. Inr ((), s)) (regs0\<lparr>int_no := 13\<rparr>) intr0 = Inl (Halted s') \<and>
    says intr0 (c_chars (''general protection fault exception encountered.'' @ nl @
      ''general protection fault'')) s1 \<and> \<not> int_flag s'"
proof -
  have e: "exception_chars 13 @ c_chars ('' exception encountered.'' @ nl) @ exception_chars 13 =
    c_chars (''general protection fault exception encountered.'' @ nl @ ''general protection fault'')"
    by code_simp
  have lt: "13 < (32 :: nat)" by simp
  have "int_no (regs0\<lparr>int_no := 13\<rparr>) = of_nat 13" "isrs_routines intr0 ! 13 = None"
    by (simp_all add: intr0_fields nth_replicate)
  from unhandled_exception_halts [OF intr0_ok this(1) lt this(2), of "\<lambda>h r s. Inr ((), s)"]
  obtain s1 s' where 1: "fault_handler (\<lambda>h r s. Inr ((), s)) (regs0\<lparr>int_no := 13\<rparr>) intr0 = Inl (Halted s')"
    "says intr0 (exception_chars 13 @ c_chars ('' exception encountered.'' @ nl) @ exception_chars 13) s1"
    "panicked s1 (report ''PANIC! '' (c_lit ''System halted.'') (c_lit ''isrs.c'') 135) s'"
    by blast
  moreover have "\<not> int_flag s'" using 1(3) by (simp only: panicked_def simp_thms)
  ultimately show ?thesis unfolding e by blast
qed

end
