(* ===== verification/Timer.thy ===== *)
theory Timer
  imports Interrupts "HOL-Library.Signed_Division"
begin

text \<open>
  The system timer (\<open>core/timer.c\<close>): programming the interval timer, the tick counters its
  interrupt advances, and the busy wait on them. While \<open>timer_wait\<close> spins, the only thing that can
  change the counter is the timer interrupt, so the wait is a run of a loop in which each turn is
  preceded by the interrupts that arrived since the last one.
\<close>

section \<open>State and operations\<close>

record timer = intr +
  timer_ticks :: u32
  ticker :: u32

definition timer_phase :: "u32 \<Rightarrow> 'a timer_scheme \<Rightarrow> (unit, 'a timer_scheme) result" where
  "timer_phase hz s =
     (if hz = 0 then Inl Divide_error
      else let divisor = word_of_int (1193180 sdiv sint hz) :: u32;
               s1 = outportb 0x43 0x36 s;
               s2 = outportb 0x40 (ucast (divisor AND 0xFF)) s1
           in Inr ((), outportb 0x40 (ucast (signed_drop_bit 8 divisor AND 0xFF)) s2))"

definition timer_handler :: "'a timer_scheme \<Rightarrow> 'a timer_scheme" where
  "timer_handler s =
     (let s1 = s\<lparr>timer_ticks := timer_ticks s + 1\<rparr>
      in if sint (timer_ticks s1) smod 18 = 0 then s1\<lparr>ticker := ticker s1 + 1\<rparr> else s1)"

definition timer_install :: "'a timer_scheme \<Rightarrow> (unit, 'a timer_scheme) result" where
  "timer_install s =
     res_bind (irq_install_handler 0 Timer_handler s) (\<lambda>(_, s1). timer_phase 100 s1)"

text \<open>\<open>timer_wait_loop deadline arr s\<close>: the tests of the loop, \<open>arr\<close> giving the number of timer
  interrupts handled before each further test; \<open>None\<close> while the loop is still spinning at its end.\<close>

fun timer_wait_loop :: "u32 \<Rightarrow> nat list \<Rightarrow> 'a timer_scheme \<Rightarrow> 'a timer_scheme option" where
  "timer_wait_loop eticks arr s =
     (if timer_ticks s <s eticks
      then (case arr of [] \<Rightarrow> None | n # arr' \<Rightarrow> timer_wait_loop eticks arr' ((timer_handler ^^ n) s))
      else Some s)"

declare timer_wait_loop.simps [simp del]

definition timer_wait :: "u32 \<Rightarrow> nat list \<Rightarrow> 'a timer_scheme \<Rightarrow> 'a timer_scheme option" where
  "timer_wait ticks arr s = (let eticks = timer_ticks s + ticks in timer_wait_loop eticks arr s)"

section \<open>The counters\<close>

lemma timer_handler_ticks [simp]: "timer_ticks (timer_handler s) = timer_ticks s + 1"
  by (simp add: timer_handler_def Let_def)

lemma timer_handler_run:
  "timer_handler s = s\<lparr>timer_ticks := timer_ticks s + 1,
     ticker := (if sint (timer_ticks s + 1) smod 18 = 0 then ticker s + 1 else ticker s)\<rparr>"
  by (simp add: timer_handler_def Let_def)

lemma timer_handlers_ticks: "timer_ticks ((timer_handler ^^ n) s) = timer_ticks s + of_nat n"
  by (induction n) (simp_all add: algebra_simps)

lemma smod_small:
  fixes w :: u32
  assumes "unat w < 2147483648"
  shows "sint w smod 18 = 0 \<longleftrightarrow> unat w mod 18 = 0"
proof -
  have "int n smod 18 = int (n mod 18)" for n
    by (cases n) (simp_all add: signed_modulo_int_def sgn_if zmod_int)
  then have "sint w smod 18 = int (unat w mod 18)" by (simp only: sint_small [OF assms])
  then show ?thesis by (simp only: of_nat_eq_0_iff)
qed

lemma Suc_div_18: "Suc n div 18 = (if Suc n mod 18 = 0 then Suc (n div 18) else n div 18)"
  by (auto simp: div_Suc)

text \<open>\<open>counters n s\<close>: the counters after \<open>n\<close> interrupts since boot.\<close>

definition counters :: "nat \<Rightarrow> 'a timer_scheme \<Rightarrow> bool" where
  "counters n s \<longleftrightarrow> timer_ticks s = of_nat n \<and> ticker s = of_nat (n div 18)"

lemma timer_handler_counters:
  assumes "counters n s" and "Suc n < 2147483648"
  shows "counters (Suc n) (timer_handler s)"
proof -
  have t: "timer_ticks s + 1 = of_nat (Suc n)" using assms(1) by (simp add: counters_def add.commute)
  have u: "unat (of_nat (Suc n) :: u32) = Suc n" using assms(2) by (intro unat_of_nat32) simp
  have z: "sint (of_nat (Suc n) :: u32) smod 18 = 0 \<longleftrightarrow> Suc n mod 18 = 0"
    using smod_small [of "of_nat (Suc n)"] assms(2) u by simp
  have "ticker (timer_handler s) = of_nat (Suc n div 18)"
    unfolding timer_handler_run timer.select_convs timer.simps t z Suc_div_18
    using assms(1) by (simp add: counters_def add.commute)
  then show ?thesis using t by (simp add: counters_def)
qed

lemma timer_handlers_counters:
  "counters m s \<Longrightarrow> m + n < 2147483648 \<Longrightarrow> counters (m + n) ((timer_handler ^^ n) s)"
  by (induction n) (simp_all add: timer_handler_counters)

section \<open>The wait\<close>

text \<open>How many bursts of interrupts it takes to reach a count, when the first does not: one more than from behind it.\<close>

lemma first_reached:
  fixes m n e :: nat
  assumes "m < e"
  shows "(\<exists>k \<le> length (n # arr). e \<le> m + sum_list (take k (n # arr))) \<longleftrightarrow> (\<exists>k \<le> length arr. e \<le> m + n + sum_list (take k arr))"
    "\<exists>k \<le> length arr. e \<le> m + n + sum_list (take k arr) \<Longrightarrow>
      (LEAST k. e \<le> m + sum_list (take k (n # arr))) = Suc (LEAST k. e \<le> m + n + sum_list (take k arr))"
proof -
  show "(\<exists>k \<le> length (n # arr). e \<le> m + sum_list (take k (n # arr))) \<longleftrightarrow> (\<exists>k \<le> length arr. e \<le> m + n + sum_list (take k arr))"
    (is "?L \<longleftrightarrow> ?R")
  proof
    assume ?L
    then obtain k where k: "k \<le> Suc (length arr)" "e \<le> m + sum_list (take k (n # arr))" by auto
    with assms show ?R by (cases k) (auto simp: add.assoc)
  next
    assume ?R
    then obtain k where "k \<le> length arr" "e \<le> m + n + sum_list (take k arr)" by auto
    then show ?L by (intro exI [of _ "Suc k"]) (simp add: add.assoc)
  qed
  assume "\<exists>k \<le> length arr. e \<le> m + n + sum_list (take k arr)"
  then obtain k where "e \<le> m + n + sum_list (take k arr)" by blast
  then have "e \<le> m + sum_list (take (Suc k) (n # arr))" by (simp add: add.assoc)
  from Least_Suc [where P = "\<lambda>k. e \<le> m + sum_list (take k (n # arr))", OF this] assms
  show "(LEAST k. e \<le> m + sum_list (take k (n # arr))) = Suc (LEAST k. e \<le> m + n + sum_list (take k arr))"
    by (simp add: add.assoc)
qed

lemma timer_wait_loop_run:
  assumes "timer_ticks s = of_nat m" and "m + sum_list arr < 2147483648" and "e < 2147483648"
  shows "timer_wait_loop (of_nat e) arr s =
    (if \<exists>k \<le> length arr. e \<le> m + sum_list (take k arr)
     then Some ((timer_handler ^^ sum_list (take (LEAST k. e \<le> m + sum_list (take k arr)) arr)) s)
     else None)"
  using assms
proof (induction arr arbitrary: m s)
  case Nil
  have lt: "(of_nat m :: u32) <s of_nat e \<longleftrightarrow> m < e"
    using Nil by (simp add: word_sless_alt sint_small unat_of_nat32)
  show ?case using Nil(1) lt by (simp add: timer_wait_loop.simps)
next
  case (Cons n arr)
  have lt: "(of_nat m :: u32) <s of_nat e \<longleftrightarrow> m < e"
    using Cons.prems by (simp add: word_sless_alt sint_small unat_of_nat32)
  show ?case
  proof (cases "m < e")
    case False
    have "(LEAST k. e \<le> m + sum_list (take k (n # arr))) = 0"
      using False by (intro Least_equality) auto
    then show ?thesis using False Cons.prems(1) lt by (auto simp: timer_wait_loop.simps)
  next
    case True
    let ?s = "(timer_handler ^^ n) s"
    have t: "timer_ticks ?s = of_nat (m + n)" using Cons.prems(1) by (simp add: timer_handlers_ticks)
    have step: "timer_wait_loop (of_nat e) (n # arr) s = timer_wait_loop (of_nat e) arr ?s"
      using True Cons.prems(1) lt by (subst timer_wait_loop.simps) simp
    have IH: "timer_wait_loop (of_nat e) arr ?s =
      (if \<exists>k \<le> length arr. e \<le> m + n + sum_list (take k arr)
       then Some ((timer_handler ^^ sum_list (take (LEAST k. e \<le> m + n + sum_list (take k arr)) arr)) ?s)
       else None)"
      using Cons.IH [OF t] Cons.prems(2,3) by simp
    note reached = first_reached [OF True, where n = n and arr = arr]
    show ?thesis
    proof (cases "\<exists>k \<le> length arr. e \<le> m + n + sum_list (take k arr)")
      case True
      then show ?thesis
        by (simp only: step IH reached if_True take_Suc_Cons sum_list.Cons)
          (simp add: funpow_add add.commute [of n])
    qed (simp only: step IH reached(1) if_False)
  qed
qed

section \<open>The interval timer\<close>

text \<open>\<open>pit_reload\<close>: the 16-bit reload value channel 0 counts down from, out of the two bytes written to
  its data port after a control byte that selects both (low byte first).\<close>

fun pit_reload :: "(u16 \<times> u8) list \<Rightarrow> u16 option" where
  "pit_reload [(p, c), (q, lo), (r, hi)] =
     (if p = 0x43 \<and> c AND 0xF0 = 0x30 \<and> q = 0x40 \<and> r = 0x40
      then Some (ucast lo OR push_bit 8 (ucast hi)) else None)"
| "pit_reload _ = None"

lemma reload_bytes:
  fixes d :: u32
  shows "ucast (ucast (d AND 0xFF) :: u8) OR push_bit 8 (ucast (ucast (signed_drop_bit 8 d AND 0xFF) :: u8))
    = (ucast d :: u16)"
proof -
  have m: "(0xFF :: u32) = mask 8" by (simp add: mask_eq_exp_minus_1)
  show ?thesis
  proof (rule bit_word_eqI)
    fix n assume n: "n < LENGTH(16)"
    show "bit (ucast (ucast (d AND 0xFF) :: u8) OR
        push_bit 8 (ucast (ucast (signed_drop_bit 8 d AND 0xFF) :: u8)) :: u16) n = bit (ucast d :: u16) n"
      using n by (cases "n < 8") (auto simp: m bit_simps)
  qed
qed

lemma unat_ucast16: "unat (ucast (d :: u32) :: u16) = unat d mod 65536"
  by (simp only: unsigned_ucast_eq) (simp add: take_bit_eq_mod)

lemma divisor_of_hz:
  assumes "0 < h" and "h < 2147483648"
  shows "word_of_int (1193180 sdiv sint (of_nat h :: u32)) = (of_nat (1193180 div h) :: u32)"
proof -
  have "sint (of_nat h :: u32) = int h"
    using assms(2) by (simp add: sint_small unat_of_nat32)
  moreover have "1193180 sdiv int h = int (1193180 div h)"
    using assms(1) by (simp add: signed_divide_int_def sgn_if zdiv_int)
  ultimately show ?thesis by simp
qed

lemma timer_phase_run:
  assumes "0 < h" and "h < 2147483648"
  shows "\<exists>lo hi. timer_phase (of_nat h) s
      = Inr ((), s\<lparr>port_out := port_out s @ [(0x43, 0x36), (0x40, lo), (0x40, hi)]\<rparr>) \<and>
    ucast lo OR push_bit 8 (ucast hi) = (of_nat (1193180 div h) :: u16)"
proof -
  have "unat (of_nat h :: u32) = h" using assms(2) by (simp add: unat_of_nat32)
  then have nz: "(of_nat h :: u32) \<noteq> 0" using assms(1) by auto
  let ?d = "of_nat (1193180 div h) :: u32"
  have "ucast ?d = (of_nat (1193180 div h) :: u16)"
    by (simp add: word_unat_eq_iff unsigned_ucast_eq unat_of_nat take_bit_eq_mod mod_mod_cancel)
  then show ?thesis
    using nz reload_bytes [of ?d]
    by (intro exI [of _ "ucast (?d AND 0xFF)"] exI [of _ "ucast (signed_drop_bit 8 ?d AND 0xFF)"])
      (simp add: timer_phase_def divisor_of_hz [OF assms] outportb_def Let_def)
qed

section \<open>Properties\<close>

definition timer0 :: timer where
  "timer0 = intr.extend intr0 \<lparr>timer_ticks = 0, ticker = 0\<rparr>"

lemma timer0_fields: "timer_ticks timer0 = 0" "ticker timer0 = 0" "port_out timer0 = []"
    "irq_routines timer0 = replicate 16 None"
  using intr0_fields by (simp_all add: timer0_def intr.defs)

text \<open>From boot, \<open>n\<close> timer interrupts leave \<open>timer_ticks\<close> at \<open>n\<close> and \<open>ticker\<close> at \<open>n\<close> divided by 18, for
  as long as the signed counter does not wrap (248 days at 100 Hz).\<close>

theorem timer_counts:
  assumes "timer_ticks s = 0" and "ticker s = 0" and "n < 2147483648"
  shows "timer_ticks ((timer_handler ^^ n) s) = of_nat n \<and> ticker ((timer_handler ^^ n) s) = of_nat (n div 18)"
  using timer_handlers_counters [of 0 s n] assms by (simp add: counters_def)

theorem timer_counts_witness:
  "timer_ticks ((timer_handler ^^ 1000) timer0) = 1000 \<and> ticker ((timer_handler ^^ 1000) timer0) = 55"
  using timer_counts [of timer0 1000] timer0_fields by simp

text \<open>C23. The loop of \<open>timer_wait\<close> ends at the first of its tests by which at least the requested number of
  interrupts has been handled, and not before; all it changed is what those interrupts changed.\<close>

theorem timer_wait_returns:
  assumes "timer_ticks s = of_nat m" and "m + sum_list arr < 2147483648" and "m + t < 2147483648"
  shows "timer_wait (of_nat t) arr s = Some s' \<longleftrightarrow>
    (\<exists>k \<le> length arr. t \<le> sum_list (take k arr) \<and> (\<forall>j < k. sum_list (take j arr) < t) \<and>
       s' = (timer_handler ^^ sum_list (take k arr)) s)"
proof -
  let ?P = "\<lambda>k. t \<le> sum_list (take k arr)"
  have w: "timer_wait (of_nat t) arr s = timer_wait_loop (of_nat (m + t)) arr s"
    using assms(1) by (simp add: timer_wait_def)
  have run: "timer_wait (of_nat t) arr s = (if \<exists>k \<le> length arr. ?P k
      then Some ((timer_handler ^^ sum_list (take (LEAST k. ?P k) arr)) s) else None)"
    unfolding w timer_wait_loop_run [OF assms] by simp
  have least: "(LEAST k. ?P k) = k" if "?P k" "\<forall>j < k. sum_list (take j arr) < t" for k
    using that by (intro Least_equality) (auto simp: not_less [symmetric])
  show ?thesis
  proof
    assume "timer_wait (of_nat t) arr s = Some s'"
    then obtain k where k: "k \<le> length arr" "?P k"
      "s' = (timer_handler ^^ sum_list (take (LEAST k. ?P k) arr)) s"
      using run by (auto split: if_splits)
    have "?P (LEAST k. ?P k)" "(LEAST k. ?P k) \<le> k" "\<forall>j < (LEAST k. ?P k). sum_list (take j arr) < t"
      using k(2) by (auto intro: LeastI Least_le dest: not_less_Least)
    with k show "\<exists>k \<le> length arr. ?P k \<and> (\<forall>j < k. sum_list (take j arr) < t) \<and>
       s' = (timer_handler ^^ sum_list (take k arr)) s"
      by (intro exI [of _ "LEAST k. ?P k"]) auto
  next
    assume "\<exists>k \<le> length arr. ?P k \<and> (\<forall>j < k. sum_list (take j arr) < t) \<and>
       s' = (timer_handler ^^ sum_list (take k arr)) s"
    then show "timer_wait (of_nat t) arr s = Some s'"
      using run least by auto
  qed
qed

theorem timer_wait_returns_witness:
  "timer_wait 2 [1, 0, 3, 5] timer0 = Some ((timer_handler ^^ 4) timer0)"
proof -
  let ?a = "[1, 0, 3, 5] :: nat list"
  have sums: "sum_list (take 3 ?a) = 4" "\<forall>j < 3. sum_list (take j ?a) < 2"
    by (auto simp: less_Suc_eq numeral_3_eq_3)
  have "\<exists>k \<le> length ?a. 2 \<le> sum_list (take k ?a) \<and> (\<forall>j < k. sum_list (take j ?a) < 2) \<and>
      (timer_handler ^^ 4) timer0 = (timer_handler ^^ sum_list (take k ?a)) timer0"
    by (intro exI [of _ 3] conjI sums(2)) (unfold sums(1), simp_all)
  then show ?thesis
    using timer_wait_returns [of timer0 0 ?a 2] timer0_fields by simp
qed

text \<open>C36. Programming the timer for \<open>h\<close> interrupts a second loads the reload value
  \<open>1193180 div h\<close>, which the 16-bit counter keeps whole exactly when \<open>h\<close> is at least 19; a frequency of
  0 divides by zero; \<open>timer_install\<close> programs 100 Hz (11931) and installs the handler on line 0.\<close>

theorem timer_phase_reload:
  assumes "0 < h" and "h < 2147483648" and "length (irq_routines s) = 16"
  shows "(\<exists>out r. timer_phase (of_nat h) s = Inr ((), s\<lparr>port_out := port_out s @ out\<rparr>) \<and>
      pit_reload out = Some r \<and> unat r = 1193180 div h mod 65536 \<and>
      (unat r = 1193180 div h \<longleftrightarrow> 19 \<le> h)) \<and>
    timer_phase 0 s = Inl Divide_error \<and>
    (\<exists>s'. timer_install s = Inr ((), s') \<and>
      irq_routines s' = (irq_routines s)[0 := Some Timer_handler] \<and>
      (\<exists>out. port_out s' = port_out s @ out \<and> pit_reload out = Some 11931))"
proof (intro conjI)
  obtain lo hi where r: "timer_phase (of_nat h) s
      = Inr ((), s\<lparr>port_out := port_out s @ [(0x43, 0x36), (0x40, lo), (0x40, hi)]\<rparr>)"
    "ucast lo OR push_bit 8 (ucast hi) = (of_nat (1193180 div h) :: u16)"
    using timer_phase_run [OF assms(1,2)] by blast
  have "1193180 div h < 65536 \<longleftrightarrow> 19 \<le> h"
  proof
    assume "1193180 div h < 65536"
    then show "19 \<le> h"
      using assms(1) div_le_mono2 [of h 18 1193180] by (cases "19 \<le> h") auto
  next
    assume "19 \<le> h"
    then show "1193180 div h < 65536" using div_le_mono2 [of 19 h 1193180] by simp
  qed
  moreover have "(n mod 65536 = n) = (n < (65536 :: nat))" for n by (auto simp: mod_eq_self_iff_div_eq_0 div_eq_0_iff)
  moreover have "unat (of_nat (1193180 div h) :: u16) = 1193180 div h mod 65536"
    by (simp add: unat_of_nat take_bit_eq_mod)
  ultimately show "\<exists>out r. timer_phase (of_nat h) s = Inr ((), s\<lparr>port_out := port_out s @ out\<rparr>) \<and>
      pit_reload out = Some r \<and> unat r = 1193180 div h mod 65536 \<and>
      (unat r = 1193180 div h \<longleftrightarrow> 19 \<le> h)"
    using r by (intro exI [of _ "[(0x43, 0x36), (0x40, lo), (0x40, hi)]"]
        exI [of _ "of_nat (1193180 div h)"]) simp
next
  show "timer_phase 0 s = Inl Divide_error" by (simp add: timer_phase_def)
next
  let ?s = "s\<lparr>irq_routines := (irq_routines s)[0 := Some Timer_handler]\<rparr>"
  obtain lo hi where r: "timer_phase 100 ?s
      = Inr ((), ?s\<lparr>port_out := port_out s @ [(0x43, 0x36), (0x40, lo), (0x40, hi)]\<rparr>)"
    "ucast lo OR push_bit 8 (ucast hi) = (11931 :: u16)"
    using timer_phase_run [of 100 ?s] by auto
  have "timer_install s = timer_phase 100 ?s"
    using assms(3) by (simp add: timer_install_def irq_install_handler_def)
  with r show "\<exists>s'. timer_install s = Inr ((), s') \<and>
      irq_routines s' = (irq_routines s)[0 := Some Timer_handler] \<and>
      (\<exists>out. port_out s' = port_out s @ out \<and> pit_reload out = Some 11931)"
    by simp
qed

theorem timer_phase_reload_witness:
  "\<exists>out r. timer_phase 1000 timer0 = Inr ((), timer0\<lparr>port_out := out\<rparr>) \<and>
    pit_reload out = Some r \<and> unat r = 1193"
  using timer_phase_reload [of 1000 timer0] timer0_fields by auto

end
