(* ===== verification/Keyboard.thy ===== *)
theory Keyboard
  imports Timer
begin

text \<open>
  The keyboard driver (\<open>core/kbd.c\<close>): the two layout tables, the dispatch table indexed by the low
  seven bits of a scan code, the one-bit modifier states and the interrupt handler that takes one
  scan code from port 0x60 and prints what it stands for. The theory describes the driver as a
  decoder of scan code sequences and shows which texts can be typed.
\<close>

section \<open>State and tables\<close>

record kbd = timer +
  kb_shift :: bool
  kb_alt :: bool
  kb_ctrl :: bool

definition kbd_us :: "u8 list" where
  "kbd_us = [0, 27] @ map of_char (''1234567890'' @ ''-='') @ [0x08, 0x09] @
     map of_char ''qwertyuiop[]'' @ [0x0A, 0] @ map of_char ''asdfghjkl;'' @ [0x27, 0x60, 0, 0x5C] @
     map of_char ''zxcvbnm,./'' @ [0] @ map of_char ''*'' @ [0, 0x20, 0, 0] @ replicate 8 0 @
     [0, 0, 0, 0, 0, 0, 0x2D, 0, 0, 0, 0x2B, 0, 0, 0, 0, 0, 0, 0, 0, 0, 0, 0] @ replicate 38 0"

definition kbd_us_l2 :: "u8 list" where
  "kbd_us_l2 = [0, 27] @ map of_char (''!@#$%^&*()'' @ ''_+'') @ [0x08, 0x09] @
     map of_char ''QWERTYUIOP{}'' @ [0x0A, 0] @ map of_char ''ASDFGHJKL:'' @ [0x22, 0x7E, 0, 0x7C] @
     map of_char ''ZXCVBNM<>?'' @ [0] @ map of_char ''*'' @ [0, 0x20, 0, 0] @ replicate 8 0 @
     [0, 0, 0, 0, 0, 0, 0x2D, 0, 0, 0, 0x2B, 0, 0, 0, 0, 0, 0, 0, 0, 0, 0, 0] @ replicate 38 0"

datatype key_fun = Norm | Shft | Altk | Ctlk | Func

definition key_method :: "key_fun option list" where
  "key_method =
     [None, None] @ replicate 6 (Some Norm) @ replicate 8 (Some Norm) @ replicate 8 (Some Norm) @
     replicate 5 (Some Norm) @ [Some Ctlk] @ replicate 2 (Some Norm) @ replicate 8 (Some Norm) @
     replicate 2 (Some Norm) @ [Some Shft] @ replicate 5 (Some Norm) @
     replicate 6 (Some Norm) @ [Some Shft, Some Norm] @
     [Some Altk, Some Norm, None] @ replicate 5 (Some Func) @
     replicate 5 (Some Func) @ replicate 3 None @ replicate 8 None @
     replicate 7 None @ [Some Func] @ [Some Func] @ replicate 7 None @ replicate 32 None"

section \<open>Operations\<close>

definition norm :: "u8 \<Rightarrow> 'a kbd_scheme \<Rightarrow> 'a kbd_scheme" where
  "norm scancode s =
     (if scancode AND 0x80 \<noteq> 0 then s
      else if kbd_us ! unat scancode = 0 then s
      else if kb_shift s then putch (kbd_us_l2 ! unat scancode) s
      else if kb_ctrl s then putch (kbd_us_l2 ! unat scancode) (putch 0x5E s)
      else putch (kbd_us ! unat scancode) s)"

definition shft :: "u8 \<Rightarrow> 'a kbd_scheme \<Rightarrow> 'a kbd_scheme" where
  "shft scancode s = s\<lparr>kb_shift := (kb_shift s \<noteq> True)\<rparr>"

definition altk :: "u8 \<Rightarrow> 'a kbd_scheme \<Rightarrow> 'a kbd_scheme" where
  "altk scancode s = s\<lparr>kb_alt := (kb_alt s \<noteq> True)\<rparr>"

definition ctlk :: "u8 \<Rightarrow> 'a kbd_scheme \<Rightarrow> 'a kbd_scheme" where
  "ctlk scancode s = s\<lparr>kb_ctrl := (kb_ctrl s \<noteq> True)\<rparr>"

definition func :: "u8 \<Rightarrow> 'a kbd_scheme \<Rightarrow> 'a kbd_scheme" where
  "func scancode s = s"

fun call_key :: "key_fun \<Rightarrow> u8 \<Rightarrow> 'a kbd_scheme \<Rightarrow> 'a kbd_scheme" where
  "call_key Norm = norm"
| "call_key Shft = shft"
| "call_key Altk = altk"
| "call_key Ctlk = ctlk"
| "call_key Func = func"

definition keyboard_handler :: "'a kbd_scheme \<Rightarrow> 'a kbd_scheme" where
  "keyboard_handler s =
     (let (scancode, s1) = inportb 0x60 s in
      case key_method ! unat (scancode AND 0x7F) of
        Some handler \<Rightarrow> call_key handler scancode s1
      | None \<Rightarrow> s1)"

definition keyboardInstall :: "'a kbd_scheme \<Rightarrow> (unit, 'a kbd_scheme) result" where
  "keyboardInstall s = irq_install_handler 1 Keyboard_handler s"

partial_function (option) keyboard_wait :: "'a kbd_scheme \<Rightarrow> 'a kbd_scheme option" where
  "keyboard_wait s = (let (status, s1) = inportb 0x64 s in
     if status AND 2 \<noteq> 0 then keyboard_wait s1 else Some s1)"

section \<open>The driver as a decoder\<close>

text \<open>Modifiers are a triple (shift, alt, ctrl); \<open>decode m b\<close> is what scan code \<open>b\<close> prints.\<close>

type_synonym mods = "bool \<times> bool \<times> bool"

definition mods_of :: "'a kbd_scheme \<Rightarrow> mods" where
  "mods_of s = (kb_shift s, kb_alt s, kb_ctrl s)"

definition key_chars :: "mods \<Rightarrow> u8 \<Rightarrow> u8 list" where
  "key_chars m b =
     (if kbd_us ! unat b = 0 then []
      else if fst m then [kbd_us_l2 ! unat b]
      else if snd (snd m) then [0x5E, kbd_us_l2 ! unat b]
      else [kbd_us ! unat b])"

fun decode :: "mods \<Rightarrow> u8 \<Rightarrow> u8 list \<times> mods" where
  "decode (sh, al, ct) b = (case key_method ! unat (b AND 0x7F) of
       Some Norm \<Rightarrow> (if b AND 0x80 = 0 then key_chars (sh, al, ct) b else [], (sh, al, ct))
     | Some Shft \<Rightarrow> ([], (\<not> sh, al, ct))
     | Some Altk \<Rightarrow> ([], (sh, \<not> al, ct))
     | Some Ctlk \<Rightarrow> ([], (sh, al, \<not> ct))
     | _ \<Rightarrow> ([], (sh, al, ct)))"

fun decode_all :: "mods \<Rightarrow> u8 list \<Rightarrow> u8 list \<times> mods" where
  "decode_all m [] = ([], m)"
| "decode_all m (b # bs) = (let (cs, m1) = decode m b; (ds, m2) = decode_all m1 bs in (cs @ ds, m2))"

lemma decode_all_append:
  "decode_all m (bs @ bs') = (let (cs, m1) = decode_all m bs; (ds, m2) = decode_all m1 bs' in (cs @ ds, m2))"
  by (induction bs arbitrary: m) (auto simp: Let_def split: prod.splits)

text \<open>\<open>next_codes n s\<close>: the next \<open>n\<close> scan codes the controller will deliver.\<close>

definition next_codes :: "nat \<Rightarrow> 'a machine_scheme \<Rightarrow> u8 list" where
  "next_codes n s = map (\<lambda>i. port_in s 0x60 (in_pos s 0x60 + i)) [0..<n]"

lemma next_codes_simps:
  "next_codes 0 s = []"
  "next_codes (Suc n) s = port_in s 0x60 (in_pos s 0x60) # next_codes n (snd (inportb 0x60 s))"
  by (simp_all add: next_codes_def inportb_def upt_conv_Cons map_Suc_upt [symmetric] del: upt_Suc)

text \<open>\<open>kbd_step s cs m s'\<close>: from \<open>s\<close> to \<open>s'\<close> the characters \<open>cs\<close> were printed, the modifiers became \<open>m\<close> and
  the devices were left alone.\<close>

definition kbd_step :: "'a kbd_scheme \<Rightarrow> u8 list \<Rightarrow> mods \<Rightarrow> 'a kbd_scheme \<Rightarrow> bool" where
  "kbd_step s cs m s' \<longleftrightarrow> screen_of s' = fold scr_putch cs (screen_of s) \<and> console_ok s' \<and>
     outside (textmemptr s) (mem s) (mem s') \<and> textmemptr s' = textmemptr s \<and> mods_of s' = m \<and>
     port_in s' = port_in s \<and> in_pos s' = in_pos s"

lemma kbd_step_print:
  assumes "console_ok s"
  shows "kbd_step s cs (mods_of s) (fold putch cs s)"
proof -
  obtain m p x y where "fold putch cs s = s\<lparr>mem := m, port_out := p, csr_x := x, csr_y := y\<rparr>"
    using fold_putch_fields by blast
  then show ?thesis
    using fold_putch_ok [OF assms, of cs] by (simp add: kbd_step_def mods_of_def)
qed

lemma norm_prints:
  "norm b s = fold putch (if b AND 0x80 = 0 then key_chars (mods_of s) b else []) s"
  by (simp add: norm_def key_chars_def mods_of_def)

lemma kbd_step_mods:
  "console_ok s \<Longrightarrow> kbd_step s [] (x, y, z) (s\<lparr>kb_shift := x, kb_alt := y, kb_ctrl := z\<rparr>)"
  by (simp add: kbd_step_def mods_of_def console_ok_def screen_of_def)

lemma call_key_step:
  assumes "console_ok s"
  shows "case key_method ! unat (b AND 0x7F) of
      Some f \<Rightarrow> kbd_step s (fst (decode (mods_of s) b)) (snd (decode (mods_of s) b)) (call_key f b s)
    | None \<Rightarrow> kbd_step s (fst (decode (mods_of s) b)) (snd (decode (mods_of s) b)) s"
proof -
  have m: "mods_of s = (kb_shift s, kb_alt s, kb_ctrl s)" by (simp add: mods_of_def)
  have id: "kbd_step s [] (mods_of s) s" using kbd_step_print [OF assms, of "[]"] by simp
  show ?thesis
  proof (cases "key_method ! unat (b AND 0x7F)")
    case None
    then show ?thesis using id by (simp add: m)
  next
    case (Some f)
    then show ?thesis
      using id kbd_step_print [OF assms] norm_prints [of b s]
        kbd_step_mods [OF assms, of "\<not> kb_shift s" "kb_alt s" "kb_ctrl s"]
        kbd_step_mods [OF assms, of "kb_shift s" "\<not> kb_alt s" "kb_ctrl s"]
        kbd_step_mods [OF assms, of "kb_shift s" "kb_alt s" "\<not> kb_ctrl s"]
      by (cases f) (simp_all add: m shft_def altk_def ctlk_def func_def)
  qed
qed

lemma keyboard_handler_step:
  assumes "console_ok s"
  shows "\<exists>s1. s1 = snd (inportb 0x60 s) \<and>
    kbd_step s1 (fst (decode (mods_of s) (port_in s 0x60 (in_pos s 0x60))))
      (snd (decode (mods_of s) (port_in s 0x60 (in_pos s 0x60)))) (keyboard_handler s)"
proof -
  let ?s1 = "snd (inportb 0x60 s)" and ?b = "port_in s 0x60 (in_pos s 0x60)"
  have "console_ok ?s1" "mods_of ?s1 = mods_of s"
    using assms by (simp_all add: inportb_def console_ok_def mods_of_def)
  then show ?thesis
    using call_key_step [of ?s1 ?b]
    by (auto simp: keyboard_handler_def inportb_def split: option.splits)
qed

text \<open>\<open>n\<close> keyboard interrupts print the decoding of the next \<open>n\<close> scan codes.\<close>

lemma keyboard_handlers_decode:
  assumes "console_ok s"
  shows "screen_of ((keyboard_handler ^^ n) s)
      = fold scr_putch (fst (decode_all (mods_of s) (next_codes n s))) (screen_of s) \<and>
    mods_of ((keyboard_handler ^^ n) s) = snd (decode_all (mods_of s) (next_codes n s)) \<and>
    console_ok ((keyboard_handler ^^ n) s) \<and>
    outside (textmemptr s) (mem s) (mem ((keyboard_handler ^^ n) s))"
  using assms
proof (induction n arbitrary: s)
  case 0
  show ?case using 0 by (simp add: next_codes_simps)
next
  case (Suc n)
  let ?b = "port_in s 0x60 (in_pos s 0x60)" and ?s = "keyboard_handler s"
  let ?s1 = "snd (inportb 0x60 s)"
  have k: "kbd_step ?s1 (fst (decode (mods_of s) ?b)) (snd (decode (mods_of s) ?b)) ?s"
    using keyboard_handler_step [OF Suc.prems] by blast
  have s1: "screen_of ?s1 = screen_of s" "textmemptr ?s1 = textmemptr s" "mem ?s1 = mem s"
    by (simp_all add: inportb_def screen_of_def)
  have n: "next_codes n ?s = next_codes n ?s1" using k by (simp add: kbd_step_def next_codes_def)
  have ok: "console_ok ?s" using k by (simp add: kbd_step_def)
  show ?case
    using Suc.IH [OF ok] k s1
    by (simp add: funpow_swap1 [symmetric] next_codes_simps kbd_step_def n Let_def split: prod.splits)
      (auto intro: outside_trans)
qed

section \<open>Typing\<close>

text \<open>The tables, spelled out.\<close>

lemma kbd_us_code [code]: "kbd_us =
    [0, 27, 49, 50, 51, 52, 53, 54, 55, 56, 57, 48, 45, 61, 8, 9, 113, 119, 101, 114, 116, 121,
     117, 105, 111, 112, 91, 93, 10, 0, 97, 115, 100, 102, 103, 104, 106, 107, 108, 59, 39, 96,
     0, 92, 122, 120, 99, 118, 98, 110, 109, 44, 46, 47, 0, 42, 0, 32, 0, 0, 0, 0, 0, 0, 0, 0, 0,
     0, 0, 0, 0, 0, 0, 0, 45, 0, 0, 0, 43, 0, 0, 0, 0, 0, 0, 0, 0, 0, 0, 0, 0, 0, 0, 0, 0, 0, 0,
     0, 0, 0, 0, 0, 0, 0, 0, 0, 0, 0, 0, 0, 0, 0, 0, 0, 0, 0, 0, 0, 0, 0, 0, 0, 0, 0, 0, 0, 0, 0]"
  by code_simp

lemma kbd_us_l2_code [code]: "kbd_us_l2 =
    [0, 27, 33, 64, 35, 36, 37, 94, 38, 42, 40, 41, 95, 43, 8, 9, 81, 87, 69, 82, 84, 89, 85, 73,
     79, 80, 123, 125, 10, 0, 65, 83, 68, 70, 71, 72, 74, 75, 76, 58, 34, 126, 0, 124, 90, 88,
     67, 86, 66, 78, 77, 60, 62, 63, 0, 42, 0, 32, 0, 0, 0, 0, 0, 0, 0, 0, 0, 0, 0, 0, 0, 0, 0,
     0, 45, 0, 0, 0, 43, 0, 0, 0, 0, 0, 0, 0, 0, 0, 0, 0, 0, 0, 0, 0, 0, 0, 0, 0, 0, 0, 0, 0, 0,
     0, 0, 0, 0, 0, 0, 0, 0, 0, 0, 0, 0, 0, 0, 0, 0, 0, 0, 0, 0, 0, 0, 0, 0, 0]"
  by code_simp

lemma key_method_code [code]: "key_method =
    [None, None, Some Norm, Some Norm, Some Norm, Some Norm, Some Norm, Some Norm, Some Norm,
     Some Norm, Some Norm, Some Norm, Some Norm, Some Norm, Some Norm, Some Norm, Some Norm, Some
     Norm, Some Norm, Some Norm, Some Norm, Some Norm, Some Norm, Some Norm, Some Norm, Some
     Norm, Some Norm, Some Norm, Some Norm, Some Ctlk, Some Norm, Some Norm, Some Norm, Some
     Norm, Some Norm, Some Norm, Some Norm, Some Norm, Some Norm, Some Norm, Some Norm, Some
     Norm, Some Shft, Some Norm, Some Norm, Some Norm, Some Norm, Some Norm, Some Norm, Some
     Norm, Some Norm, Some Norm, Some Norm, Some Norm, Some Shft, Some Norm, Some Altk, Some
     Norm, None, Some Func, Some Func, Some Func, Some Func, Some Func, Some Func, Some Func,
     Some Func, Some Func, Some Func, None, None, None, None, None, None, None, None, None, None,
     None, None, None, None, None, None, None, None, Some Func, Some Func, None, None, None,
     None, None, None, None, None, None, None, None, None, None, None, None, None, None, None,
     None, None, None, None, None, None, None, None, None, None, None, None, None, None, None,
     None, None, None, None, None, None]"
  by code_simp

lemma tables_size: "length kbd_us = 128" "length kbd_us_l2 = 128" "length key_method = 128"
  by code_simp+

text \<open>\<open>key_for layout c\<close>: the first key that prints and carries \<open>c\<close> in \<open>layout\<close>; the \<open>-\<close> and \<open>+\<close> of the
  numeric pad are in the tables too, but their entries in \<open>key_method\<close> are null.
  \<open>strokes c\<close>: the make and break codes of the key that carries \<open>c\<close>, with the left shift key held
  around them when \<open>c\<close> is on the second level.\<close>

definition key_for :: "u8 list \<Rightarrow> u8 \<Rightarrow> nat" where
  "key_for layout c =
     length (takeWhile (\<lambda>(x, m). \<not> (x = c \<and> m = Some Norm)) (zip layout key_method))"

definition strokes :: "u8 \<Rightarrow> u8 list" where
  "strokes c =
     (let k = key_for kbd_us c; k2 = key_for kbd_us_l2 c in
      if k < 128 then [of_nat k, of_nat k + 0x80]
      else [0x2A, of_nat k2, of_nat k2 + 0x80, 0x2A + 0x80])"

text \<open>Backspace, tab, newline and the 95 printable ASCII characters.\<close>

definition typeable :: "u8 list" where
  "typeable = [0x08, 0x09, 0x0A] @ map of_nat [0x20..<0x7F]"

lemma typeable_keys:
  "list_all (\<lambda>c. c \<noteq> 0 \<and> (key_for kbd_us c < 128 \<or> key_for kbd_us_l2 c < 128)) typeable"
  by code_simp

lemma key_for_found:
  assumes "key_for layout c < 128" and "length layout = 128"
  shows "layout ! key_for layout c = c \<and> key_method ! key_for layout c = Some Norm"
  using nth_length_takeWhile [of "\<lambda>(x, m). \<not> (x = c \<and> m = Some Norm)" "zip layout key_method"] assms
  by (simp add: key_for_def tables_size)

lemma both_levels: "list_all2 (\<lambda>x y. (x = 0) = (y = 0)) kbd_us kbd_us_l2"
  by code_simp

lemma scan_code_bits:
  assumes "k < 128"
  shows "(of_nat k :: u8) AND 0x80 = 0" "unat ((of_nat k :: u8) AND 0x7F) = k"
    "(of_nat k + 0x80 :: u8) AND 0x80 \<noteq> 0" "unat ((of_nat k + 0x80 :: u8) AND 0x7F) = k"
    "unat (of_nat k :: u8) = k"
proof -
  have "list_all (\<lambda>k. (of_nat k :: u8) AND 0x80 = 0 \<and> unat ((of_nat k :: u8) AND 0x7F) = k \<and>
    (of_nat k + 0x80 :: u8) AND 0x80 \<noteq> 0 \<and> unat ((of_nat k + 0x80 :: u8) AND 0x7F) = k \<and>
    unat (of_nat k :: u8) = k) [0..<128]" by code_simp
  then show "(of_nat k :: u8) AND 0x80 = 0" "unat ((of_nat k :: u8) AND 0x7F) = k"
    "(of_nat k + 0x80 :: u8) AND 0x80 \<noteq> 0" "unat ((of_nat k + 0x80 :: u8) AND 0x7F) = k"
    "unat (of_nat k :: u8) = k"
    using assms by (simp_all only: list_all_iff set_upt atLeastLessThan_iff le0 simp_thms)
qed

lemma decode_press:
  assumes "k < 128" and "key_method ! k = Some Norm" and "kbd_us ! k \<noteq> 0" and "\<not> ct"
  shows "decode_all (sh, al, ct) [of_nat k, of_nat k + 0x80]
    = ([if sh then kbd_us_l2 ! k else kbd_us ! k], (sh, al, ct))"
  using assms by (simp add: scan_code_bits key_chars_def)

lemma decode_shift:
  "decode (sh, al, ct) 0x2A = ([], (\<not> sh, al, ct))" "decode (sh, al, ct) 0xAA = ([], (\<not> sh, al, ct))"
proof -
  have "key_method ! unat ((0x2A :: u8) AND 0x7F) = Some Shft"
    "key_method ! unat ((0xAA :: u8) AND 0x7F) = Some Shft" by code_simp+
  then show "decode (sh, al, ct) 0x2A = ([], (\<not> sh, al, ct))"
    "decode (sh, al, ct) 0xAA = ([], (\<not> sh, al, ct))" by simp_all
qed

lemma strokes_decode:
  assumes "c \<in> set typeable"
  shows "decode_all (False, al, False) (strokes c) = ([c], (False, al, False))"
proof -
  have c: "c \<noteq> 0" "key_for kbd_us c < 128 \<or> key_for kbd_us_l2 c < 128"
    using typeable_keys assms by (auto simp: list_all_iff)
  show ?thesis
  proof (cases "key_for kbd_us c < 128")
    case True
    then show ?thesis
      using key_for_found [OF True] c(1) decode_press [of "key_for kbd_us c" False False al]
      by (simp add: strokes_def tables_size Let_def del: decode_all.simps)
  next
    case False
    let ?k = "key_for kbd_us_l2 c"
    have k: "?k < 128" using False c(2) by simp
    have "kbd_us ! ?k \<noteq> 0"
      using both_levels key_for_found [OF k] c(1) k by (simp add: list_all2_conv_all_nth tables_size)
    then have "decode_all (True, al, False) [of_nat ?k, of_nat ?k + 0x80] = ([c], (True, al, False))"
      using decode_press [OF k, of False True al] key_for_found [OF k] by (simp add: tables_size)
    then have "decode_all (False, al, False) ([0x2A] @ [of_nat ?k, of_nat ?k + 0x80] @ [0xAA]) = ([c], (False, al, False))"
      by (simp only: decode_all_append) (simp add: decode_shift del: decode.simps)
    then show ?thesis using False by (simp add: strokes_def Let_def del: decode_all.simps)
  qed
qed

lemma text_decode:
  assumes "set str \<subseteq> set typeable"
  shows "decode_all (False, al, False) (concat (map strokes str)) = (str, (False, al, False))"
  using assms
proof (induction str)
  case (Cons c str)
  then have "decode_all (False, al, False) (strokes c) = ([c], (False, al, False))"
    by (intro strokes_decode) simp
  with Cons show ?case by (simp add: decode_all_append)
qed simp

text \<open>The keys that are held together with others, by their make codes, with the modifier each stands for inverted.\<close>

definition modifier_keys :: "(u8 \<times> (mods \<Rightarrow> mods)) list" where
  "modifier_keys =
     [(0x2A, \<lambda>(sh, al, ct). (\<not> sh, al, ct)), (0x36, \<lambda>(sh, al, ct). (\<not> sh, al, ct)),
      (0x38, \<lambda>(sh, al, ct). (sh, \<not> al, ct)), (0x1D, \<lambda>(sh, al, ct). (sh, al, \<not> ct))]"

lemma decode_modifier:
  assumes "(k, flip) \<in> set modifier_keys"
  shows "decode m k = ([], flip m)" "decode m (k + 0x80) = ([], flip m)" "flip (flip m) = m"
proof -
  have "key_method ! 0x2A = Some Shft \<and> key_method ! 0x36 = Some Shft \<and> key_method ! 0x38 = Some Altk \<and> key_method ! 0x1D = Some Ctlk"
    by code_simp
  then show "decode m k = ([], flip m)" "decode m (k + 0x80) = ([], flip m)" "flip (flip m) = m"
    using assms by (cases m; auto simp: modifier_keys_def)+
qed

lemma decode_modifier_repeat:
  assumes "(k, flip) \<in> set modifier_keys"
  shows "decode_all m (replicate n k @ [k + 0x80]) = ([], if odd n then m else flip m)"
  by (induction n arbitrary: m) (simp_all add: decode_modifier [OF assms] del: decode.simps)

section \<open>Waiting for the controller\<close>

text \<open>\<open>status_at s k\<close>: the status byte the \<open>k\<close>-th next poll will read.\<close>

definition status_at :: "'a kbd_scheme \<Rightarrow> nat \<Rightarrow> u8" where
  "status_at s k = port_in s 0x64 (in_pos s 0x64 + k)"

definition after_polls :: "nat \<Rightarrow> 'a kbd_scheme \<Rightarrow> 'a kbd_scheme" where
  "after_polls n s = s\<lparr>in_pos := (in_pos s)(0x64 := in_pos s 0x64 + n)\<rparr>"

lemma status_after [simp]: "status_at (after_polls n s) k = status_at s (n + k)"
  by (simp add: status_at_def after_polls_def add.assoc)

lemma after_polls_add [simp]: "after_polls m (after_polls n s) = after_polls (n + m) s"
  by (simp add: after_polls_def add.assoc)

lemma keyboard_wait_unfold:
  "keyboard_wait s = (if status_at s 0 AND 2 \<noteq> 0 then keyboard_wait (after_polls 1 s) else Some (after_polls 1 s))"
  by (subst keyboard_wait.simps) (simp add: inportb_def status_at_def after_polls_def)

lemma keyboard_wait_ready:
  assumes "status_at s k AND 2 = 0" and "\<forall>j < k. status_at s j AND 2 \<noteq> 0"
  shows "keyboard_wait s = Some (after_polls (Suc k) s)"
  using assms
proof (induction k arbitrary: s)
  case 0
  then show ?case by (subst keyboard_wait_unfold) simp
next
  case (Suc k)
  have "keyboard_wait (after_polls 1 s) = Some (after_polls (Suc k) (after_polls 1 s))"
    using Suc.prems by (intro Suc.IH) auto
  with Suc.prems show ?case by (subst keyboard_wait_unfold) auto
qed

lemma keyboard_wait_only_ready: "keyboard_wait s = Some s' \<Longrightarrow> \<exists>k. status_at s k AND 2 = 0"
proof (rule keyboard_wait.raw_induct [where P = "\<lambda>s s'. \<exists>k. status_at s k AND 2 = 0"])
  fix wait and s s' :: "'a kbd_scheme"
  assume IH: "\<And>s s'. wait s = Some s' \<Longrightarrow> \<exists>k. status_at s k AND 2 = 0"
    and s: "(let (status, s1) = inportb 0x64 s in if status AND 2 \<noteq> 0 then wait s1 else Some s1) = Some s'"
  show "\<exists>k. status_at s k AND 2 = 0"
  proof (cases "status_at s 0 AND 2 = 0")
    case False
    with s have "wait (after_polls 1 s) = Some s'"
      by (simp add: inportb_def status_at_def after_polls_def)
    from IH [OF this] show ?thesis by auto
  qed auto
qed assumption

section \<open>Properties\<close>

definition kbd0 :: kbd where
  "kbd0 = timer.extend timer0 \<lparr>kb_shift = False, kb_alt = False, kb_ctrl = False\<rparr>"

lemma kbd0_fields: "mods_of kbd0 = (False, False, False)" "in_pos kbd0 = (\<lambda>_. 0)"
  by (simp_all add: kbd0_def mods_of_def timer.defs timer0_def intr.defs intr0_def desc.defs desc0_def
      kio.defs kio0_def console.defs console0_def machine.defs machine0_def)

lemma kbd0_ok: "console_ok kbd0"
  using intr0_ok by (simp add: kbd0_def timer.defs timer0_def intr.defs console_ok_def kio_ok_def)

text \<open>C21. Every printable ASCII character, newline, tab and backspace can be typed: when the next scan
  codes are the strokes of a text, the interrupts that deliver them print exactly that text and leave
  the modifiers as they were, touching no memory outside the text memory.\<close>

theorem typing_roundtrip:
  assumes "console_ok s" and "\<not> kb_shift s" and "\<not> kb_ctrl s" and "set str \<subseteq> set typeable"
    and "next_codes n s = concat (map strokes str)"
  shows "screen_of ((keyboard_handler ^^ n) s) = fold scr_putch str (screen_of s) \<and>
    mods_of ((keyboard_handler ^^ n) s) = mods_of s \<and>
    outside (textmemptr s) (mem s) (mem ((keyboard_handler ^^ n) s))"
proof -
  have "mods_of s = (False, kb_alt s, False)" using assms(2,3) by (simp add: mods_of_def)
  then show ?thesis
    using keyboard_handlers_decode [OF assms(1), of n] text_decode [OF assms(4), of "kb_alt s"] assms(5)
    by simp
qed

theorem typing_roundtrip_witness:
  "screen_of ((keyboard_handler ^^ 6)
      (kbd0\<lparr>port_in := \<lambda>p i. [0x2A, 0x23, 0xA3, 0xAA, 0x17, 0x97] ! i\<rparr>))
    = fold scr_putch [0x48, 0x69] (screen_of kbd0)"
proof -
  let ?s = "kbd0\<lparr>port_in := \<lambda>p i. [0x2A, 0x23, 0xA3, 0xAA, 0x17, 0x97] ! i\<rparr>"
  have c: "concat (map strokes [0x48, 0x69]) = [0x2A, 0x23, 0xA3, 0xAA, 0x17, 0x97]" by code_simp
  have t: "set [0x48, 0x69] \<subseteq> set typeable"
  proof -
    have "list_all (\<lambda>c. List.member typeable c) [0x48, 0x69]" by code_simp
    then show ?thesis by (simp add: list_all_iff)
  qed
  have n: "next_codes 6 ?s = [0x2A, 0x23, 0xA3, 0xAA, 0x17, 0x97]"
    by (simp add: next_codes_def kbd0_fields upt_rec numeral_eq_Suc)
  have ok: "console_ok ?s" "screen_of ?s = screen_of kbd0" "mods_of ?s = (False, False, False)"
    using kbd0_ok kbd0_fields by (simp_all add: console_ok_def screen_of_def mods_of_def)
  then have "\<not> kb_shift ?s" "\<not> kb_ctrl ?s" by (simp_all add: mods_of_def)
  from typing_roundtrip [OF ok(1) this t, of 6] ok(2) show ?thesis by (simp only: n c)
qed

text \<open>C37. The modifiers are toggled, not set: holding a modifier key - the left or right shift, the alt or the
  control key - while the keyboard repeats its make code \<open>n\<close> times and releasing it prints nothing and leaves the
  modifiers as they were only when \<open>n\<close> is odd; after an even number of repetitions exactly the modifier of that key is
  inverted, so that every later key is taken with the wrong one.\<close>

theorem shift_repeat_desyncs:
  assumes "console_ok s" and "(k, flip) \<in> set modifier_keys" and "next_codes (Suc n) s = replicate n k @ [k + 0x80]"
  shows "screen_of ((keyboard_handler ^^ Suc n) s) = screen_of s \<and>
    mods_of ((keyboard_handler ^^ Suc n) s) = (if odd n then mods_of s else flip (mods_of s))"
  using keyboard_handlers_decode [OF assms(1), of "Suc n"]
  by (simp add: assms(3) decode_modifier_repeat [OF assms(2)] del: decode_all.simps funpow.simps)

text \<open>The control key, repeated once, and the left shift key, not repeated.\<close>

theorem shift_repeat_desyncs_witness:
  "mods_of ((keyboard_handler ^^ 3) (kbd0\<lparr>port_in := \<lambda>p i. [0x1D, 0x1D, 0x9D] ! i\<rparr>)) = (False, False, True) \<and>
   mods_of ((keyboard_handler ^^ 2) (kbd0\<lparr>port_in := \<lambda>p i. [0x2A, 0xAA] ! i\<rparr>)) = (False, False, False)"
proof -
  let ?s = "\<lambda>bs. kbd0\<lparr>port_in := \<lambda>p i. bs ! i\<rparr>"
  have n: "next_codes (Suc 2) (?s [0x1D, 0x1D, 0x9D]) = replicate 2 0x1D @ [0x1D + 0x80]"
    "next_codes (Suc 1) (?s [0x2A, 0xAA]) = replicate 1 0x2A @ [0x2A + 0x80]"
    by (simp_all add: next_codes_def kbd0_fields upt_rec numeral_eq_Suc)
  have k: "(0x1D, \<lambda>(sh, al, ct). (sh, al, \<not> ct)) \<in> set modifier_keys" "(0x2A, \<lambda>(sh, al, ct). (\<not> sh, al, ct)) \<in> set modifier_keys"
    by (simp_all add: modifier_keys_def)
  have ok: "console_ok (?s bs)" "mods_of (?s bs) = (False, False, False)" for bs
    using kbd0_ok kbd0_fields(1) by (simp_all add: console_ok_def mods_of_def)
  show ?thesis
    using shift_repeat_desyncs [OF ok(1) k(1) n(1)] shift_repeat_desyncs [OF ok(1) k(2) n(2)]
    by (simp add: ok(2) numeral_3_eq_3 numeral_2_eq_2)
qed

text \<open>C26. \<open>keyboard_wait\<close> returns exactly when a status byte with the input-buffer bit clear will come,
  having consumed the bytes up to the first such one and changed nothing else; otherwise it never
  returns.\<close>

theorem keyboard_wait_returns:
  "(keyboard_wait s = Some s' \<longleftrightarrow> (\<exists>k. status_at s k AND 2 = 0 \<and> (\<forall>j < k. status_at s j AND 2 \<noteq> 0) \<and>
      s' = after_polls (Suc k) s)) \<and>
   (keyboard_wait s = None \<longleftrightarrow> (\<forall>k. status_at s k AND 2 \<noteq> 0))"
proof -
  have first: "\<exists>k. status_at s k AND 2 = 0 \<and> (\<forall>j < k. status_at s j AND 2 \<noteq> 0)" if "status_at s i AND 2 = 0" for i
    using that by (intro exI [of _ "LEAST k. status_at s k AND 2 = 0"]) (metis (mono_tags, lifting) LeastI not_less_Least)
  have "keyboard_wait s \<noteq> None \<longleftrightarrow> (\<exists>k. status_at s k AND 2 = 0)"
    using keyboard_wait_only_ready [of s] first keyboard_wait_ready [of s] by fastforce
  moreover have "keyboard_wait s = Some s' \<longleftrightarrow>
      (\<exists>k. status_at s k AND 2 = 0 \<and> (\<forall>j < k. status_at s j AND 2 \<noteq> 0) \<and> s' = after_polls (Suc k) s)"
    using keyboard_wait_only_ready [of s] first keyboard_wait_ready [of s] by fastforce
  ultimately show ?thesis by blast
qed

theorem keyboard_wait_returns_witness:
  "keyboard_wait (kbd0\<lparr>port_in := \<lambda>p i. if i < 5 then 0x1E else 0x1C\<rparr>)
     = Some (after_polls 6 (kbd0\<lparr>port_in := \<lambda>p i. if i < 5 then 0x1E else 0x1C\<rparr>))"
proof -
  let ?s = "kbd0\<lparr>port_in := \<lambda>p i. if i < 5 then 0x1E else 0x1C\<rparr>"
  have "status_at ?s 5 AND 2 = 0 \<and> (\<forall>j < 5. status_at ?s j AND 2 \<noteq> 0)"
    by (simp add: status_at_def kbd0_fields)
  then show ?thesis
    using keyboard_wait_returns [of ?s "after_polls 6 ?s"] by (auto intro!: exI [of _ 5])
qed

end
