(* ===== verification/Frames.thy ===== *)
theory Frames
  imports Keyboard
begin

text \<open>
  The first half of \<open>core/mem.c\<close>: the placement allocator (\<open>kmalloc\<close> and its variants), and the
  physical frame allocator, a bitmap in memory with one bit per 4096-byte frame. The bitmap is
  abstracted to the set of used frames; an interface locale says what a pool of frames promises, and
  is interpreted on the bitmap.
\<close>

section \<open>State\<close>

text \<open>Pointers are addresses; \<open>frames\<close> points to the bitmap, the directories to a \<open>page_directory_t\<close>.\<close>

record mm = kbd +
  placement_pointer :: u32
  frames :: u32
  nframes :: u32
  kernel_directory :: u32
  current_directory :: u32
  heap_end :: u32

section \<open>The placement allocator\<close>

definition kmalloc_startat :: "u32 \<Rightarrow> 'a mm_scheme \<Rightarrow> 'a mm_scheme" where
  "kmalloc_startat address s = s\<lparr>placement_pointer := address\<rparr>"

text \<open>The result is the address and what \<open>*phys\<close> receives, when \<open>phys\<close> is not null.\<close>

definition kmalloc_real :: "u32 \<Rightarrow> bool \<Rightarrow> bool \<Rightarrow> 'a mm_scheme \<Rightarrow> (u32 \<times> u32 option) \<times> 'a mm_scheme" where
  "kmalloc_real sz align phys s =
     (let s1 = (if align \<and> placement_pointer s AND 0xFFFFF000 \<noteq> 0
                then s\<lparr>placement_pointer := placement_pointer s AND 0xFFFFF000\<rparr> else s);
          p = (if phys then Some (placement_pointer s1) else None);
          address = placement_pointer s1
      in ((address, p), s1\<lparr>placement_pointer := placement_pointer s1 + sz\<rparr>))"

definition kmalloc :: "u32 \<Rightarrow> 'a mm_scheme \<Rightarrow> u32 \<times> 'a mm_scheme" where
  "kmalloc sz s = (let ((a, _), s1) = kmalloc_real sz False False s in (a, s1))"

definition kvmalloc :: "u32 \<Rightarrow> 'a mm_scheme \<Rightarrow> u32 \<times> 'a mm_scheme" where
  "kvmalloc sz s = (let ((a, _), s1) = kmalloc_real sz True False s in (a, s1))"

definition kmalloc_p :: "u32 \<Rightarrow> 'a mm_scheme \<Rightarrow> (u32 \<times> u32 option) \<times> 'a mm_scheme" where
  "kmalloc_p sz s = kmalloc_real sz False True s"

definition kvmalloc_p :: "u32 \<Rightarrow> 'a mm_scheme \<Rightarrow> (u32 \<times> u32 option) \<times> 'a mm_scheme" where
  "kvmalloc_p sz s = kmalloc_real sz True True s"

section \<open>The frame bitmap\<close>

definition INDEX_FROM_BIT :: "u32 \<Rightarrow> u32" where
  "INDEX_FROM_BIT b = b div 0x20"

definition OFFSET_FROM_BIT :: "u32 \<Rightarrow> u32" where
  "OFFSET_FROM_BIT b = b mod 0x20"

definition set_frame :: "u32 \<Rightarrow> 'a mm_scheme \<Rightarrow> 'a mm_scheme" where
  "set_frame frame_addr s =
     (let frame = frame_addr div 0x1000;
          index = INDEX_FROM_BIT frame;
          offset = OFFSET_FROM_BIT frame;
          p = frames s + 4 * index
      in s\<lparr>mem := store32 (mem s) p (load32 (mem s) p OR push_bit (unat offset) 1)\<rparr>)"

definition clear_frame :: "u32 \<Rightarrow> 'a mm_scheme \<Rightarrow> 'a mm_scheme" where
  "clear_frame frame_addr s =
     (let frame = frame_addr div 0x1000;
          index = INDEX_FROM_BIT frame;
          offset = OFFSET_FROM_BIT frame;
          p = frames s + 4 * index
      in s\<lparr>mem := store32 (mem s) p (load32 (mem s) p AND NOT (push_bit (unat offset) 1))\<rparr>)"

definition test_frame :: "u32 \<Rightarrow> 'a mm_scheme \<Rightarrow> u32" where
  "test_frame frame_addr s =
     (let frame = frame_addr div 0x1000;
          index = INDEX_FROM_BIT frame;
          offset = OFFSET_FROM_BIT frame
      in load32 (mem s) (frames s + 4 * index) AND push_bit (unat offset) 1)"

text \<open>The two nested loops of \<open>first_frame\<close>, over the words still to scan.\<close>

definition first_clear_bit :: "u32 \<Rightarrow> nat option" where
  "first_clear_bit w = List.find (\<lambda>j. w AND push_bit j 1 = 0) [0..<32]"

fun first_frame_loop :: "mem \<Rightarrow> u32 \<Rightarrow> nat list \<Rightarrow> u32" where
  "first_frame_loop m base [] = - 1"
| "first_frame_loop m base (i # is) =
     (let w = load32 m (base + 4 * of_nat i) in
      if w \<noteq> 0xFFFFFFFF then
        (case first_clear_bit w of
           Some j \<Rightarrow> of_nat (i * 0x20 + j)
         | None \<Rightarrow> first_frame_loop m base is)
      else first_frame_loop m base is)"

definition first_frame :: "'a mm_scheme \<Rightarrow> u32" where
  "first_frame s = first_frame_loop (mem s) (frames s) [0..<unat (INDEX_FROM_BIT (nframes s))]"

section \<open>Page table entries\<close>

text \<open>\<open>page_t\<close> is a word of bit fields; \<open>put_field\<close> is the read-modify-write of one of them.\<close>

definition put_field :: "nat \<Rightarrow> nat \<Rightarrow> u32 \<Rightarrow> u32 \<Rightarrow> u32" where
  "put_field lsb width v e = (e AND NOT (push_bit lsb (mask width))) OR push_bit lsb (v AND mask width)"

definition get_field :: "nat \<Rightarrow> nat \<Rightarrow> u32 \<Rightarrow> u32" where
  "get_field lsb width e = drop_bit lsb e AND mask width"

definition pg_present :: "u32 \<Rightarrow> u32" where
  "pg_present = get_field 0 1"

definition pg_rw :: "u32 \<Rightarrow> u32" where
  "pg_rw = get_field 1 1"

definition pg_user :: "u32 \<Rightarrow> u32" where
  "pg_user = get_field 2 1"

definition pg_frame :: "u32 \<Rightarrow> u32" where
  "pg_frame = get_field 12 20"

section \<open>Allocating and freeing frames\<close>

definition alloc_frame :: "u32 \<Rightarrow> bool \<Rightarrow> bool \<Rightarrow> 'a mm_scheme \<Rightarrow> (unit, 'a mm_scheme) result" where
  "alloc_frame page is_kernel is_writeable s =
     (if pg_frame (load32 (mem s) page) \<noteq> 0 then Inr ((), s)
      else let index = first_frame s in
        if index = - 1 then
          halt_and_catch_fire (c_lit ''Failed to allocate a frame: out of frames'') (c_lit ''mem.c'') 143 s
        else
          let s1 = set_frame (index * 0x1000) s;
              e0 = load32 (mem s1) page;
              e1 = put_field 0 1 1 e0;
              e2 = put_field 1 1 (if is_writeable then 1 else 0) e1;
              e3 = put_field 2 1 (if is_kernel then 0 else 1) e2;
              e4 = put_field 12 20 index e3
          in Inr ((), s1\<lparr>mem := store32 (mem s1) page e4\<rparr>))"

definition free_frame :: "u32 \<Rightarrow> 'a mm_scheme \<Rightarrow> 'a mm_scheme" where
  "free_frame page s =
     (let frame = pg_frame (load32 (mem s) page) in
      if frame = 0 then s
      else let s1 = clear_frame frame s
           in s1\<lparr>mem := store32 (mem s1) page (put_field 12 20 0 (load32 (mem s1) page))\<rparr>)"

section \<open>The abstraction: the set of used frames\<close>

definition capacity :: "'a mm_scheme \<Rightarrow> nat" where
  "capacity s = 32 * (unat (nframes s) div 32)"

definition frame_bit :: "mem \<Rightarrow> u32 \<Rightarrow> nat \<Rightarrow> bool" where
  "frame_bit m base f \<longleftrightarrow> bit (load32 m (base + 4 * of_nat (f div 32))) (f mod 32)"

definition used :: "'a mm_scheme \<Rightarrow> nat set" where
  "used s = {f. f < capacity s \<and> frame_bit (mem s) (frames s) f}"

text \<open>A bitmap is well formed when it is word aligned and covers at most the 4 GB there are.\<close>

definition frames_ok :: "'a mm_scheme \<Rightarrow> bool" where
  "frames_ok s \<longleftrightarrow> aligned4 (frames s) \<and> unat (nframes s) \<le> 1048576"

text \<open>\<open>in_bitmap s a\<close>: \<open>a\<close> is the address of a word of the bitmap.\<close>

definition in_bitmap :: "'a mm_scheme \<Rightarrow> u32 \<Rightarrow> bool" where
  "in_bitmap s a \<longleftrightarrow> (\<exists>i < unat (nframes s) div 32. a = frames s + 4 * of_nat i)"

lemma unat_4_of_nat: "i < 1073741824 \<Longrightarrow> unat (4 * of_nat i :: u32) = 4 * i"
  using unat_of_nat32 [of "4 * i"] by simp

lemma aligned4_add:
  assumes "aligned4 a" and "aligned4 b"
  shows "aligned4 (a + b)"
proof -
  have "(unat a + unat b) mod 4294967296 mod 4 = (unat a + unat b) mod 4"
    by (rule mod_mod_cancel) simp
  then have "unat (a + b) mod 4 = (unat a + unat b) mod 4" by (simp add: unat_word_ariths)
  then show ?thesis using assms unfolding aligned4_def by presburger
qed

lemma aligned4_times: "aligned4 (4 * w)"
proof -
  have "4 * unat w mod 4294967296 mod 4 = 4 * unat w mod 4" by (rule mod_mod_cancel) simp
  then show ?thesis by (simp add: aligned4_def unat_word_ariths)
qed

lemma aligned4_index [simp]: "aligned4 b \<Longrightarrow> aligned4 (b + 4 * w)"
  by (intro aligned4_add aligned4_times)

lemma index_inj:
  assumes "i < 1073741824" and "j < 1073741824"
  shows "(b + 4 * of_nat i = (b + 4 * of_nat j :: u32)) = (i = j)"
proof
  assume "b + 4 * of_nat i = (b + 4 * of_nat j :: u32)"
  then have "unat (4 * of_nat i :: u32) = unat (4 * of_nat j :: u32)" by simp
  then show "i = j" using assms by (simp add: unat_4_of_nat)
qed simp

lemma frame_index:
  fixes a :: u32
  shows "INDEX_FROM_BIT (a div 0x1000) = of_nat (unat a div 4096 div 32)"
    and "unat (OFFSET_FROM_BIT (a div 0x1000)) = unat a div 4096 mod 32"
    and "unat a div 4096 < 1048576"
proof -
  have "unat (INDEX_FROM_BIT (a div 0x1000)) = unat a div 4096 div 32"
    by (simp add: INDEX_FROM_BIT_def unat_div_distrib)
  then show "INDEX_FROM_BIT (a div 0x1000) = of_nat (unat a div 4096 div 32)"
    by (metis of_nat_unat ucast_id)
  show "unat (OFFSET_FROM_BIT (a div 0x1000)) = unat a div 4096 mod 32"
    by (simp add: OFFSET_FROM_BIT_def unat_div_distrib unat_mod_distrib)
  show "unat a div 4096 < 1048576" using unat_u32_bound [of a] by simp
qed

lemma div_mod_eq_iff: "(f = g) = (f div 32 = g div 32 \<and> f mod 32 = (g mod 32 :: nat))"
  by (metis div_mult_mod_eq)

lemma frame_bit_store:
  assumes "aligned4 b" and "f < 1048576" and "g < 1048576"
  shows "frame_bit (store32 m (b + 4 * of_nat (g div 32)) w) b f
    = (if f div 32 = g div 32 then bit w (f mod 32) else frame_bit m b f)"
proof (cases "f div 32 = g div 32")
  case True
  then show ?thesis by (simp add: frame_bit_def)
next
  case False
  have "f div 32 < 1073741824" "g div 32 < 1073741824" using assms(2,3) by simp_all
  then have "b + 4 * of_nat (g div 32) \<noteq> (b + 4 * of_nat (f div 32) :: u32)"
    using False by (simp only: index_inj not_sym simp_thms)
  then show ?thesis
    using False by (simp only: frame_bit_def load32_store32_aligned aligned4_index [OF assms(1)] if_False)
qed

lemma set_frame_bit:
  assumes "aligned4 (frames s)" and "f < 1048576"
  shows "frame_bit (mem (set_frame a s)) (frames s) f
    = (f = unat a div 4096 \<or> frame_bit (mem s) (frames s) f)"
proof -
  define g where "g = unat a div 4096"
  have g: "g < 1048576" unfolding g_def by (rule frame_index(3))
  have "mem (set_frame a s) = store32 (mem s) (frames s + 4 * of_nat (g div 32))
      (load32 (mem s) (frames s + 4 * of_nat (g div 32)) OR push_bit (g mod 32) 1)"
    by (simp only: set_frame_def Let_def frame_index(1,2) g_def [symmetric]) simp
  then show ?thesis
    using div_mod_eq_iff [of f g]
    by (simp only: frame_bit_store [OF assms g] g_def [symmetric])
      (auto simp: frame_bit_def bit_or_iff bit_exp_iff)
qed

lemma clear_frame_bit:
  assumes "aligned4 (frames s)" and "f < 1048576"
  shows "frame_bit (mem (clear_frame a s)) (frames s) f
    = (f \<noteq> unat a div 4096 \<and> frame_bit (mem s) (frames s) f)"
proof -
  define g where "g = unat a div 4096"
  have g: "g < 1048576" unfolding g_def by (rule frame_index(3))
  have "mem (clear_frame a s) = store32 (mem s) (frames s + 4 * of_nat (g div 32))
      (load32 (mem s) (frames s + 4 * of_nat (g div 32)) AND NOT (push_bit (g mod 32) 1))"
    by (simp only: clear_frame_def Let_def frame_index(1,2) g_def [symmetric]) simp
  then show ?thesis
    using div_mod_eq_iff [of f g]
    by (simp only: frame_bit_store [OF assms g] g_def [symmetric])
      (auto simp: frame_bit_def bit_and_iff bit_not_iff bit_exp_iff)
qed

lemma test_frame_bit: "test_frame a s \<noteq> 0 \<longleftrightarrow> frame_bit (mem s) (frames s) (unat a div 4096)"
proof -
  define g where "g = unat a div 4096"
  have "(w AND push_bit k 1 \<noteq> 0) = bit w k" for w :: u32 and k
    by (simp add: bit_iff_and_push_bit_not_eq_0)
  then show ?thesis
    by (simp only: test_frame_def Let_def frame_index(1,2) g_def [symmetric] frame_bit_def)
qed

section \<open>The scan for a free frame\<close>

lemma and_bit_eq_0: "(w AND push_bit k 1 = 0) = (\<not> bit (w :: u32) k)"
  by (simp add: bit_iff_and_push_bit_not_eq_0)

lemma first_clear_bit_Some:
  "first_clear_bit w = Some j \<longleftrightarrow> j < 32 \<and> \<not> bit w j \<and> (\<forall>k < j. bit w k)"
proof -
  have "first_clear_bit w = Some j \<longleftrightarrow>
      (\<exists>i < 32. \<not> bit w ([0..<32] ! i) \<and> j = [0..<32] ! i \<and> (\<forall>k < i. bit w ([0..<32] ! k)))"
    by (simp only: first_clear_bit_def find_Some_iff length_upt and_bit_eq_0 not_not) simp
  moreover have "[0..<32] ! i = i" if "i < 32" for i
    using that nth_upt [of 0 i 32] by (simp del: upt_rec_numeral)
  ultimately show ?thesis by (metis (no_types, lifting) order_less_trans)
qed

lemma first_clear_bit_None: "first_clear_bit w = None \<longleftrightarrow> (\<forall>k < 32. bit w k)"
proof -
  have "first_clear_bit w = None \<longleftrightarrow> (\<forall>k \<in> set [0..<32]. bit w k)"
    unfolding first_clear_bit_def find_None_iff and_bit_eq_0 by blast
  then show ?thesis by (simp only: set_upt) auto
qed

lemma word_full: "(w = (0xFFFFFFFF :: u32)) = (\<forall>k < 32. bit w k)"
proof -
  have "(0xFFFFFFFF :: u32) = - 1" by simp
  then show ?thesis by (simp only: bit_eq_iff [of w]) (auto simp: bit_simps dest: bit_imp_le_length)
qed

lemma frame_bit_index: "k < 32 \<Longrightarrow> frame_bit m b (32 * i + k) = bit (load32 m (b + 4 * of_nat i)) k"
  by (simp add: frame_bit_def)

lemma block_cases: "32 * i \<le> g \<Longrightarrow> (\<exists>k < 32. g = 32 * i + k) \<or> 32 * Suc i \<le> g" for g :: nat
  by (cases "g < 32 * Suc i") (auto intro: exI [of _ "g - 32 * i"])

lemma first_frame_loop_result:
  assumes "i \<le> n"
  shows "(\<exists>f. first_frame_loop m b [i..<n] = of_nat f \<and> 32 * i \<le> f \<and> f < 32 * n \<and> \<not> frame_bit m b f \<and>
       (\<forall>g. 32 * i \<le> g \<and> g < f \<longrightarrow> frame_bit m b g)) \<or>
    (first_frame_loop m b [i..<n] = - 1 \<and> (\<forall>g. 32 * i \<le> g \<and> g < 32 * n \<longrightarrow> frame_bit m b g))"
  using assms
proof (induction "n - i" arbitrary: i)
  case 0
  then have "i = n" by simp
  then show ?case by auto
next
  case (Suc d)
  then have i: "[i..<n] = i # [Suc i..<n]" "Suc i \<le> n" "d = n - Suc i" by (auto simp: upt_conv_Cons)
  let ?w = "load32 m (b + 4 * of_nat i)"
  have none: "(?w \<noteq> 0xFFFFFFFF) = (first_clear_bit ?w \<noteq> None)"
    by (simp only: word_full first_clear_bit_None)
  show ?case
  proof (cases "first_clear_bit ?w")
    case None
    then have full: "\<forall>k < 32. frame_bit m b (32 * i + k)" by (simp add: first_clear_bit_None frame_bit_index)
    have low: "frame_bit m b g" if "32 * i \<le> g" "\<not> 32 * Suc i \<le> g" for g
      using block_cases [OF that(1)] that(2) full by auto
    have e: "first_frame_loop m b [i..<n] = first_frame_loop m b [Suc i..<n]"
      using None none by (simp only: i(1) first_frame_loop.simps Let_def) simp
    have low': "32 * Suc i \<le> g" if "32 * i \<le> g" "\<not> frame_bit m b g" for g
      using low that by blast
    have mono: "32 * i \<le> f" if "32 * Suc i \<le> f" for f using that by simp
    show ?thesis
      unfolding e using Suc.hyps(1) [OF i(3,2)] low' mono by meson
  next
    case (Some j)
    then have "first_frame_loop m b [i..<n] = of_nat (32 * i + j)"
      using none by (simp only: i(1) first_frame_loop.simps Let_def) (simp add: mult.commute)
    moreover have "j < 32" "\<not> frame_bit m b (32 * i + j)" "\<forall>k < j. frame_bit m b (32 * i + k)"
      using Some by (auto simp: first_clear_bit_Some frame_bit_index)
    moreover have "g < 32 * i + j \<Longrightarrow> 32 * i \<le> g \<Longrightarrow> \<exists>k < j. g = 32 * i + k" for g
      by (intro exI [of _ "g - 32 * i"]) auto
    ultimately show ?thesis
      using i(2) by (intro disjI1 exI [of _ "32 * i + j"]) (auto simp del: of_nat_add of_nat_mult)
  qed
qed

lemma capacity_bound: "frames_ok s \<Longrightarrow> capacity s \<le> 1048576"
  unfolding frames_ok_def capacity_def using div_times_less_eq_dividend [of "unat (nframes s)" 32] by linarith

lemma used_subset: "used s \<subseteq> {..<capacity s}"
  by (auto simp: used_def)

text \<open>The scan returns the least free frame, or \<open>-1\<close> when there is none.\<close>

lemma first_frame_least:
  assumes "frames_ok s"
  shows "(\<exists>f. first_frame s = of_nat f \<and> f < capacity s \<and> f \<notin> used s \<and> (\<forall>g < f. g \<in> used s)) \<or>
    (first_frame s = - 1 \<and> used s = {..<capacity s})"
proof -
  have e: "first_frame s = first_frame_loop (mem s) (frames s) [0..<unat (nframes s) div 32]"
    by (simp add: first_frame_def INDEX_FROM_BIT_def unat_div_distrib)
  show ?thesis
    using first_frame_loop_result [of 0 "unat (nframes s) div 32" "mem s" "frames s"] used_subset [of s]
    unfolding e by (auto simp: used_def capacity_def)
qed

lemma frame_number:
  assumes "frames_ok s" and "f < capacity s"
  shows "(of_nat f :: u32) \<noteq> - 1" "unat (of_nat f :: u32) = f" "unat (of_nat f * 0x1000 :: u32) div 4096 = f"
    "unat (of_nat f AND mask 20 :: u32) = f"
proof -
  have f: "f < 1048576" using capacity_bound [OF assms(1)] assms(2) by simp
  then show u: "unat (of_nat f :: u32) = f" by (simp add: unat_of_nat32)
  have "unat (- 1 :: u32) = 4294967295" by (simp add: unsigned_minus_1_eq_mask mask_eq_exp_minus_1)
  then show "(of_nat f :: u32) \<noteq> - 1" using u f by auto
  have "(of_nat f * 0x1000 :: u32) = of_nat (f * 4096)" by simp
  then show "unat (of_nat f * 0x1000 :: u32) div 4096 = f" using f unat_of_nat32 [of "f * 4096"] by simp
  show "unat (of_nat f AND mask 20 :: u32) = f"
    using f by (simp add: take_bit_eq_mask [symmetric] unsigned_take_bit_eq u take_bit_nat_eq_self)
qed

section \<open>Entries and their fields\<close>

lemma get_put_same: "l + w \<le> 32 \<Longrightarrow> get_field l w (put_field l w v e) = v AND mask w"
  by (rule bit_word_eqI) (auto simp: get_field_def put_field_def bit_simps)

lemma get_put_other:
  "l + w \<le> l' \<or> l' + w' \<le> l \<Longrightarrow> l' + w' \<le> 32 \<Longrightarrow> get_field l' w' (put_field l w v e) = get_field l' w' e"
  by (rule bit_word_eqI) (auto simp: get_field_def put_field_def bit_simps)

lemmas pg_defs = pg_present_def pg_rw_def pg_user_def pg_frame_def

text \<open>\<open>same_word m m' a\<close>: the four bytes at \<open>a\<close> are the same in both memories.\<close>

definition same_word :: "mem \<Rightarrow> mem \<Rightarrow> u32 \<Rightarrow> bool" where
  "same_word m m' a \<longleftrightarrow> (\<forall>j < 4. m' (a + of_nat j) = m (a + of_nat j))"

lemma same_word_refl [simp]: "same_word m m a"
  by (simp add: same_word_def)

lemma same_word_trans: "same_word m m' a \<Longrightarrow> same_word m' m'' a \<Longrightarrow> same_word m m'' a"
  by (simp add: same_word_def)

lemma same_word_load: "same_word m m' a \<Longrightarrow> load32 m' a = load32 m a"
  by (rule load32_cong) (simp add: same_word_def)

lemma same_word_store:
  assumes "aligned4 a" and "aligned4 p" and "a \<noteq> p"
  shows "same_word m (store32 m p v) a"
proof -
  have "apart p 4 a 4" using aligned4_apart [OF assms(2,1)] assms(3) by simp
  then have "4 \<le> unat (a + of_nat j - p)" if "j < 4" for j
    using apart_offset [of p 4 a 4 j] that by simp
  then show ?thesis by (auto simp: same_word_def intro: store32_other)
qed

lemma set_frame_mem:
  "\<exists>v. set_frame a s = s\<lparr>mem := store32 (mem s) (frames s + 4 * of_nat (unat a div 4096 div 32)) v\<rparr>"
  by (simp only: set_frame_def Let_def frame_index(1)) blast

lemma clear_frame_mem:
  "\<exists>v. clear_frame a s = s\<lparr>mem := store32 (mem s) (frames s + 4 * of_nat (unat a div 4096 div 32)) v\<rparr>"
  by (simp only: clear_frame_def Let_def frame_index(1)) blast

lemma in_bitmap_word: "f < capacity s \<Longrightarrow> in_bitmap s (frames s + 4 * of_nat (f div 32))"
  unfolding in_bitmap_def capacity_def by (intro exI [of _ "f div 32"]) (auto simp: less_mult_imp_div_less mult.commute)

lemma set_frame_used:
  assumes "frames_ok s" and "f < capacity s"
  shows "used (set_frame (of_nat f * 0x1000) s) = insert f (used s)"
proof -
  obtain v where v: "set_frame (of_nat f * 0x1000) s = s\<lparr>mem := v\<rparr>" using set_frame_mem by blast
  have "frame_bit (mem (set_frame (of_nat f * 0x1000) s)) (frames s) g = (g = f \<or> frame_bit (mem s) (frames s) g)"
    if "g < capacity s" for g
    using set_frame_bit [of s g "of_nat f * 0x1000"] that capacity_bound [OF assms(1)] frame_number(3) [OF assms] assms(1)
    by (simp add: frames_ok_def)
  then show ?thesis using assms(2) by (auto simp: used_def v capacity_def)
qed

text \<open>A word outside the bitmap does not count in \<open>used\<close>.\<close>

lemma frame_bit_outside:
  assumes "frames_ok s" and "aligned4 p" and "\<not> in_bitmap s p" and "f < capacity s"
  shows "frame_bit (store32 m p v) (frames s) f = frame_bit m (frames s) f"
proof -
  have "frames s + 4 * of_nat (f div 32) \<noteq> p" using in_bitmap_word [OF assms(4)] assms(3) by metis
  then show ?thesis
    using assms(1,2) by (simp add: frame_bit_def frames_ok_def load32_store32_aligned)
qed

text \<open>\<open>takes s p f e s'\<close>: page entry \<open>p\<close> was given frame \<open>f\<close>, becoming \<open>e\<close>; besides it only the bitmap changed.\<close>

definition takes :: "'a mm_scheme \<Rightarrow> u32 \<Rightarrow> nat \<Rightarrow> u32 \<Rightarrow> 'a mm_scheme \<Rightarrow> bool" where
  "takes s p f e s' \<longleftrightarrow> s' = s\<lparr>mem := mem s'\<rparr> \<and> load32 (mem s') p = e \<and> used s' = insert f (used s) \<and>
     (\<forall>a. aligned4 a \<and> a \<noteq> p \<and> \<not> in_bitmap s a \<longrightarrow> same_word (mem s) (mem s') a)"

definition fresh_page :: "'a mm_scheme \<Rightarrow> u32 \<Rightarrow> bool" where
  "fresh_page s p \<longleftrightarrow> aligned4 p \<and> \<not> in_bitmap s p \<and> pg_frame (load32 (mem s) p) = 0"

lemma alloc_frame_takes:
  assumes "frames_ok s" and "fresh_page s p" and "first_frame s = of_nat f" and "f < capacity s"
  shows "\<exists>e s'. alloc_frame p k w s = Inr ((), s') \<and> takes s p f e s' \<and> pg_present e = 1 \<and>
    pg_rw e = (if w then 1 else 0) \<and> pg_user e = (if k then 0 else 1) \<and> unat (pg_frame e) = f"
proof -
  let ?s1 = "set_frame (of_nat f * 0x1000) s"
  let ?e = "put_field 12 20 (of_nat f) (put_field 2 1 (if k then 0 else 1)
      (put_field 1 1 (if w then 1 else 0) (put_field 0 1 1 (load32 (mem ?s1) p))))"
  let ?s' = "?s1\<lparr>mem := store32 (mem ?s1) p ?e\<rparr>"
  have p: "aligned4 p" "\<not> in_bitmap s p" "pg_frame (load32 (mem s) p) = 0"
    using assms(2) by (simp_all add: fresh_page_def)
  have run: "alloc_frame p k w s = Inr ((), ?s')"
    using frame_number(1) [OF assms(1,4)] by (simp only: alloc_frame_def p(3) assms(3) Let_def if_False simp_thms)
  obtain v where v: "?s1 = s\<lparr>mem := store32 (mem s) (frames s + 4 * of_nat (f div 32)) v\<rparr>"
    using set_frame_mem [of "of_nat f * 0x1000" s] frame_number(3) [OF assms(1,4)] by auto
  have "used ?s' = used ?s1"
    using frame_bit_outside [OF assms(1) p(1,2)] by (auto simp: used_def v capacity_def)
  then have u: "used ?s' = insert f (used s)" using set_frame_used [OF assms(1,4)] by simp
  have b: "aligned4 (frames s + 4 * of_nat (f div 32))" using assms(1) by (simp add: frames_ok_def)
  have "same_word (mem s) (mem ?s') a" if "aligned4 a" "a \<noteq> p" "\<not> in_bitmap s a" for a
  proof (rule same_word_trans)
    show "same_word (mem ?s1) (mem ?s') a" using same_word_store [OF that(1) p(1) that(2)] by simp
    have "a \<noteq> frames s + 4 * of_nat (f div 32)" using that(3) in_bitmap_word [OF assms(4)] by auto
    then show "same_word (mem s) (mem ?s1) a" using same_word_store [OF that(1) b] by (simp add: v)
  qed
  then have "takes s p f ?e ?s'" using u by (simp add: takes_def v)
  moreover have "pg_present ?e = 1" "pg_rw ?e = (if w then 1 else 0)" "pg_user ?e = (if k then 0 else 1)"
    "unat (pg_frame ?e) = f"
    using frame_number(4) [OF assms(1,4)]
    by (simp_all add: pg_defs get_put_same get_put_other mask_eq_exp_minus_1)
  ultimately show ?thesis using run by blast
qed

section \<open>What a pool of frames promises\<close>

fun alloc_all :: "('p \<Rightarrow> 's \<Rightarrow> 's option) \<Rightarrow> 'p list \<Rightarrow> 's \<Rightarrow> 's option" where
  "alloc_all alloc [] s = Some s"
| "alloc_all alloc (p # ps) s = (case alloc p s of None \<Rightarrow> None | Some s1 \<Rightarrow> alloc_all alloc ps s1)"

text \<open>
  The clients of the frame allocator give it page entries without a frame (\<open>fresh\<close>, among those it
  may write to, \<open>page\<close>); it hands out the least free frame until all \<open>cap\<close> of them are used.
\<close>

locale frame_pool =
  fixes inv :: "'s \<Rightarrow> bool" and taken :: "'s \<Rightarrow> nat set" and cap :: "'s \<Rightarrow> nat"
    and page :: "'s \<Rightarrow> 'p \<Rightarrow> bool" and fresh :: "'s \<Rightarrow> 'p \<Rightarrow> bool" and frame_of :: "'s \<Rightarrow> 'p \<Rightarrow> nat"
    and alloc :: "'p \<Rightarrow> 's \<Rightarrow> 's option"
  assumes taken_bound: "taken s \<subseteq> {..<cap s}"
    and fresh_page: "fresh s p \<Longrightarrow> page s p"
    and alloc_frame: "inv s \<Longrightarrow> fresh s p \<Longrightarrow> alloc p s = Some s' \<Longrightarrow>
      frame_of s' p < cap s \<and> frame_of s' p \<notin> taken s \<and> (\<forall>g < frame_of s' p. g \<in> taken s) \<and>
      taken s' = insert (frame_of s' p) (taken s)"
    and alloc_inv: "inv s \<Longrightarrow> fresh s p \<Longrightarrow> alloc p s = Some s' \<Longrightarrow> inv s' \<and> cap s' = cap s \<and> page s' = page s"
    and alloc_other: "inv s \<Longrightarrow> fresh s p \<Longrightarrow> alloc p s = Some s' \<Longrightarrow> q \<noteq> p \<Longrightarrow> page s q \<Longrightarrow>
      frame_of s' q = frame_of s q \<and> fresh s' q = fresh s q"
    and alloc_None: "inv s \<Longrightarrow> fresh s p \<Longrightarrow> alloc p s = None \<longleftrightarrow> taken s = {..<cap s}"
begin

lemma finite_taken: "finite (taken s)"
  using taken_bound finite_subset by blast

lemma allocs_frames:
  assumes "inv s" and "distinct ps" and "\<forall>p \<in> set ps. fresh s p" and "alloc_all alloc ps s = Some s'"
  shows "distinct (map (frame_of s') ps) \<and> set (map (frame_of s') ps) \<inter> taken s = {} \<and>
    taken s' = taken s \<union> set (map (frame_of s') ps) \<and> inv s' \<and> cap s' = cap s \<and>
    (\<forall>q. page s q \<and> q \<notin> set ps \<longrightarrow> frame_of s' q = frame_of s q)"
  using assms
proof (induction ps arbitrary: s)
  case Nil
  then show ?case by simp
next
  case (Cons p ps)
  then obtain s1 where s1: "alloc p s = Some s1" "alloc_all alloc ps s1 = Some s'"
    by (auto split: option.splits)
  have f: "fresh s p" and d: "p \<notin> set ps" "distinct ps" using Cons.prems by auto
  note a = alloc_frame [OF Cons.prems(1) f s1(1)] and i = alloc_inv [OF Cons.prems(1) f s1(1)]
    and o = alloc_other [OF Cons.prems(1) f s1(1)]
  have "\<forall>q \<in> set ps. fresh s1 q"
    using Cons.prems(3) d(1) o fresh_page by (metis list.set_intros(2))
  with Cons.IH [of s1] i d s1(2)
  have IH: "distinct (map (frame_of s') ps)" "set (map (frame_of s') ps) \<inter> taken s1 = {}"
    "taken s' = taken s1 \<union> set (map (frame_of s') ps)" "inv s'" "cap s' = cap s1"
    "\<forall>q. page s1 q \<and> q \<notin> set ps \<longrightarrow> frame_of s' q = frame_of s1 q" by auto
  have p: "frame_of s' p = frame_of s1 p" using IH(6) i d(1) fresh_page [OF f] by simp
  have "frame_of s1 p \<notin> set (map (frame_of s') ps)" using IH(2) a by auto
  moreover have "\<forall>q. page s q \<and> q \<notin> set (p # ps) \<longrightarrow> frame_of s' q = frame_of s q"
    using IH(6) i o by auto
  ultimately show ?case using IH a i p by auto
qed

text \<open>From a pool of which the first \<open>k\<close> frames are taken, the next ones come in order.\<close>

lemma allocs_least:
  assumes "inv s" and "distinct ps" and "\<forall>p \<in> set ps. fresh s p" and "alloc_all alloc ps s = Some s'" and "taken s = {..<k}"
  shows "map (frame_of s') ps = [k..<k + length ps]"
  using assms
proof (induction ps arbitrary: s k)
  case Nil
  then show ?case by simp
next
  case (Cons p ps)
  then obtain s1 where s1: "alloc p s = Some s1" "alloc_all alloc ps s1 = Some s'"
    by (auto split: option.splits)
  have f: "fresh s p" and d: "p \<notin> set ps" "distinct ps" using Cons.prems by auto
  note a = alloc_frame [OF Cons.prems(1) f s1(1)] and i = alloc_inv [OF Cons.prems(1) f s1(1)]
    and o = alloc_other [OF Cons.prems(1) f s1(1)]
  have fresh: "\<forall>q \<in> set ps. fresh s1 q" using Cons.prems(3) d(1) o fresh_page by (metis list.set_intros(2))
  have "frame_of s1 p = k" using a Cons.prems(5) by (metis lessThan_iff linorder_neqE_nat order_less_irrefl)
  moreover from this have "taken s1 = {..<Suc k}" using a Cons.prems(5) by (simp add: lessThan_Suc)
  then have "map (frame_of s') ps = [Suc k..<Suc k + length ps]" using Cons.IH [of s1] fresh i d(2) s1(2) by simp
  moreover have "frame_of s' p = frame_of s1 p"
    using allocs_frames [of s1 ps s'] fresh i d s1(2) fresh_page [OF f] by simp
  moreover have "[k..<k + length (p # ps)] = k # [Suc k..<Suc k + length ps]" by (simp add: upt_conv_Cons del: upt_Suc)
  ultimately show ?case by simp
qed

lemma allocs_succeed:
  assumes "inv s" and "distinct ps" and "\<forall>p \<in> set ps. fresh s p"
  shows "(\<exists>s'. alloc_all alloc ps s = Some s') \<longleftrightarrow> card (taken s) + length ps \<le> cap s"
  using assms
proof (induction ps arbitrary: s)
  case Nil
  have "card (taken s) \<le> cap s" using card_mono [OF _ taken_bound, of s] by simp
  then show ?case by simp
next
  case (Cons p ps)
  have f: "fresh s p" and d: "p \<notin> set ps" "distinct ps" using Cons.prems by auto
  have "card (taken s) \<le> cap s" using card_mono [OF _ taken_bound, of s] by simp
  then have full: "taken s = {..<cap s} \<longleftrightarrow> cap s \<le> card (taken s)"
    using card_subset_eq [OF _ taken_bound, of s] by force
  show ?case
  proof (cases "alloc p s")
    case None
    then show ?thesis using alloc_None [OF Cons.prems(1) f] full by simp
  next
    case (Some s1)
    note a = alloc_frame [OF Cons.prems(1) f Some] and i = alloc_inv [OF Cons.prems(1) f Some]
      and o = alloc_other [OF Cons.prems(1) f Some]
    have "\<forall>q \<in> set ps. fresh s1 q" using Cons.prems(3) d(1) o fresh_page by (metis list.set_intros(2))
    then have "(\<exists>s'. alloc_all alloc ps s1 = Some s') \<longleftrightarrow> card (taken s1) + length ps \<le> cap s1"
      using Cons.IH [of s1] i d by auto
    moreover have "card (taken s1) = Suc (card (taken s))" using a finite_taken by simp
    ultimately show ?thesis using Some i by simp
  qed
qed

end

section \<open>The bitmap is such a pool\<close>

definition frame_alloc :: "bool \<Rightarrow> bool \<Rightarrow> u32 \<Rightarrow> 'a mm_scheme \<Rightarrow> 'a mm_scheme option" where
  "frame_alloc k w p s = (case alloc_frame p k w s of Inr (_, s') \<Rightarrow> Some s' | Inl _ \<Rightarrow> None)"

definition page_entry :: "'a mm_scheme \<Rightarrow> u32 \<Rightarrow> bool" where
  "page_entry s p \<longleftrightarrow> aligned4 p \<and> \<not> in_bitmap s p"

definition entry_frame :: "'a mm_scheme \<Rightarrow> u32 \<Rightarrow> nat" where
  "entry_frame s p = unat (pg_frame (load32 (mem s) p))"

lemma takes_frame:
  assumes "takes s p f e s'"
  shows "frames_ok s' = frames_ok s" "capacity s' = capacity s" "in_bitmap s' = in_bitmap s"
    "page_entry s' = page_entry s"
proof -
  obtain m where "s' = s\<lparr>mem := m\<rparr>" using assms unfolding takes_def by blast
  then show "frames_ok s' = frames_ok s" "capacity s' = capacity s" "in_bitmap s' = in_bitmap s"
    "page_entry s' = page_entry s"
    by (auto simp: frames_ok_def capacity_def in_bitmap_def page_entry_def fun_eq_iff)
qed

lemma frame_alloc_exhausted:
  assumes "fresh_page s p" and "first_frame s = - 1"
  shows "alloc_frame p k w s
      = halt_and_catch_fire (c_lit ''Failed to allocate a frame: out of frames'') (c_lit ''mem.c'') 143 s"
    and "frame_alloc k w p s = None"
proof -
  show e: "alloc_frame p k w s
      = halt_and_catch_fire (c_lit ''Failed to allocate a frame: out of frames'') (c_lit ''mem.c'') 143 s"
    using assms by (simp only: alloc_frame_def fresh_page_def Let_def simp_thms if_True if_False)
  show "frame_alloc k w p s = None"
    unfolding frame_alloc_def e by (simp add: panic_never_returns split: sum.splits)
qed

lemma frame_alloc_Some:
  assumes "frames_ok s" and "fresh_page s p" and "frame_alloc k w p s = Some s'"
  shows "\<exists>e. takes s p (entry_frame s' p) e s' \<and> entry_frame s' p < capacity s \<and> entry_frame s' p \<notin> used s \<and>
    (\<forall>g < entry_frame s' p. g \<in> used s) \<and> pg_present e = 1"
  using first_frame_least [OF assms(1)]
proof (elim disjE exE conjE)
  fix f assume f: "first_frame s = of_nat f" "f < capacity s" "f \<notin> used s" "\<forall>g < f. g \<in> used s"
  obtain e s1 where 1: "alloc_frame p k w s = Inr ((), s1)" "takes s p f e s1" "unat (pg_frame e) = f"
    "pg_present e = 1"
    using alloc_frame_takes [OF assms(1,2) f(1,2)] by blast
  then have "s1 = s'" "entry_frame s' p = f"
    using assms(3) by (auto simp: frame_alloc_def entry_frame_def takes_def)
  then show ?thesis using 1 f by auto
next
  assume "first_frame s = - 1"
  then show ?thesis using frame_alloc_exhausted(2) [OF assms(2)] assms(3) by simp
qed

lemma frame_alloc_None:
  assumes "frames_ok s" and "fresh_page s p"
  shows "frame_alloc k w p s = None \<longleftrightarrow> used s = {..<capacity s}"
  using first_frame_least [OF assms(1)]
proof (elim disjE exE conjE)
  fix f assume f: "first_frame s = of_nat f" "f < capacity s" "f \<notin> used s"
  then obtain s1 where "alloc_frame p k w s = Inr ((), s1)"
    using alloc_frame_takes [OF assms f(1,2)] by blast
  with f show ?thesis by (auto simp: frame_alloc_def)
next
  assume m: "first_frame s = - 1" "used s = {..<capacity s}"
  then show ?thesis using frame_alloc_exhausted(2) [OF assms(2)] by simp
qed

interpretation bitmap: frame_pool frames_ok used capacity page_entry fresh_page entry_frame "frame_alloc k w"
  for k w
proof
  fix s s' :: "'b mm_scheme" and p q :: u32
  show "used s \<subseteq> {..<capacity s}" by (rule used_subset)
  show "fresh_page s p \<Longrightarrow> page_entry s p" by (simp add: fresh_page_def page_entry_def)
  assume s: "frames_ok s" "fresh_page s p"
  show "frame_alloc k w p s = None \<longleftrightarrow> used s = {..<capacity s}" by (rule frame_alloc_None [OF s])
  assume "frame_alloc k w p s = Some s'"
  from frame_alloc_Some [OF s this] obtain e where e: "takes s p (entry_frame s' p) e s'"
    "entry_frame s' p < capacity s" "entry_frame s' p \<notin> used s" "\<forall>g < entry_frame s' p. g \<in> used s"
    by blast
  then show "entry_frame s' p < capacity s \<and> entry_frame s' p \<notin> used s \<and>
      (\<forall>g < entry_frame s' p. g \<in> used s) \<and> used s' = insert (entry_frame s' p) (used s)"
    by (simp add: takes_def)
  show "frames_ok s' \<and> capacity s' = capacity s \<and> page_entry s' = page_entry s"
    using takes_frame [OF e(1)] s(1) by simp
  assume q: "q \<noteq> p" "page_entry s q"
  then have "load32 (mem s') q = load32 (mem s) q"
    using e(1) by (auto simp: takes_def page_entry_def intro: same_word_load)
  then show "entry_frame s' q = entry_frame s q \<and> fresh_page s' q = fresh_page s q"
    using takes_frame(3) [OF e(1)] by (simp add: entry_frame_def fresh_page_def)
qed

text \<open>Filling a list of entries makes them present and changes nothing but them and the bitmap.\<close>

lemma alloc_all_entries:
  assumes "frames_ok s" and "distinct ps" and "\<forall>p \<in> set ps. fresh_page s p"
    and "alloc_all (frame_alloc k w) ps s = Some s'"
  shows "s' = s\<lparr>mem := mem s'\<rparr> \<and> (\<forall>p \<in> set ps. pg_present (load32 (mem s') p) = 1) \<and>
    (\<forall>a. aligned4 a \<and> a \<notin> set ps \<and> \<not> in_bitmap s a \<longrightarrow> same_word (mem s) (mem s') a)"
  using assms
proof (induction ps arbitrary: s)
  case Nil
  then show ?case by simp
next
  case (Cons p ps)
  then obtain s1 where s1: "frame_alloc k w p s = Some s1" "alloc_all (frame_alloc k w) ps s1 = Some s'"
    by (auto split: option.splits)
  have f: "fresh_page s p" and d: "p \<notin> set ps" "distinct ps" using Cons.prems by auto
  obtain e where t: "takes s p (entry_frame s1 p) e s1" "pg_present e = 1"
    using frame_alloc_Some [OF Cons.prems(1) f s1(1)] by blast
  have ok: "frames_ok s1" using takes_frame(1) [OF t(1)] Cons.prems(1) by simp
  have fresh: "\<forall>q \<in> set ps. fresh_page s1 q"
    using bitmap.alloc_other [OF Cons.prems(1) f s1(1)] bitmap.fresh_page Cons.prems(3) d(1)
    by (metis list.set_intros(2))
  note IH = Cons.IH [OF ok d(2) fresh s1(2)]
  have bm: "in_bitmap s1 = in_bitmap s" by (rule takes_frame(3) [OF t(1)])
  have p: "aligned4 p" "\<not> in_bitmap s p" using f by (simp_all add: fresh_page_def)
  then have "same_word (mem s1) (mem s') p" using IH d(1) bm by simp
  then have "pg_present (load32 (mem s') p) = 1"
    using t by (simp add: same_word_load takes_def)
  moreover have "s' = s\<lparr>mem := mem s'\<rparr>"
  proof -
    obtain m where "s1 = s\<lparr>mem := m\<rparr>" using t(1) unfolding takes_def by blast
    then show ?thesis using conjunct1 [OF IH] by (metis machine.update_convs(1) machine.surjective machine.select_convs(1))
  qed
  moreover have "same_word (mem s) (mem s') a" if "aligned4 a" "a \<notin> set (p # ps)" "\<not> in_bitmap s a" for a
    using IH t(1) that bm by (auto simp: takes_def intro: same_word_trans)
  ultimately show ?case using IH by auto
qed

lemma free_frame_leaves:
  assumes "frames_ok s" and "page_entry s p" and "0 < entry_frame s p" and "entry_frame s p < capacity s"
  shows "entry_frame (free_frame p s) p = 0 \<and> used (free_frame p s) = used s - {entry_frame s p div 4096}"
proof -
  let ?f = "entry_frame s p" and ?s1 = "clear_frame (pg_frame (load32 (mem s) p)) s"
  let ?e = "put_field 12 20 0 (load32 (mem ?s1) p)"
  have p: "aligned4 p" "\<not> in_bitmap s p" using assms(2) by (simp_all add: page_entry_def)
  have run: "free_frame p s = ?s1\<lparr>mem := store32 (mem ?s1) p ?e\<rparr>"
    using assms(3) by (auto simp: free_frame_def entry_frame_def Let_def unat_gt_0)
  obtain v where v: "?s1 = s\<lparr>mem := v\<rparr>" using clear_frame_mem by blast
  have "entry_frame (free_frame p s) p = 0"
    by (simp add: run entry_frame_def pg_frame_def get_put_same)
  moreover have "frame_bit (mem (free_frame p s)) (frames s) g = (g \<noteq> ?f div 4096 \<and> frame_bit (mem s) (frames s) g)"
    if "g < capacity s" for g
  proof -
    have "frame_bit (mem (free_frame p s)) (frames s) g = frame_bit (mem ?s1) (frames s) g"
      unfolding run using frame_bit_outside [OF assms(1) p that] by simp
    also have "\<dots> = (g \<noteq> ?f div 4096 \<and> frame_bit (mem s) (frames s) g)"
      using clear_frame_bit [of s g] that capacity_bound [OF assms(1)] assms(1)
      by (simp add: frames_ok_def entry_frame_def)
    finally show ?thesis .
  qed
  moreover have "capacity (free_frame p s) = capacity s" "frames (free_frame p s) = frames s"
    by (simp_all add: run v capacity_def)
  ultimately show ?thesis by (auto simp: used_def)
qed

section \<open>Properties\<close>

definition mm0 :: mm where
  "mm0 = kbd.extend kbd0 \<lparr>placement_pointer = 0x10A123, frames = 0x200000, nframes = 64,
     kernel_directory = 0x300000, current_directory = 0x300000, heap_end = 0x800000\<rparr>"

lemma load32_zero [simp]: "load32 (\<lambda>_. 0) a = 0"
  by (simp add: load32_def)

lemma mm0_fields: "mem mm0 = (\<lambda>_. 0)" "frames mm0 = 0x200000" "nframes mm0 = 64"
  "placement_pointer mm0 = 0x10A123" "kernel_directory mm0 = 0x300000"
  by (simp_all add: mm0_def kbd.defs kbd0_def timer.defs timer0_def intr.defs intr0_def desc.defs
      desc0_def kio.defs kio0_def console.defs console0_def machine.defs machine0_def)

lemma mm0_kio_ok: "kio_ok mm0"
  using intr0_ok
  by (simp add: mm0_def kbd.defs kbd0_def timer.defs timer0_def intr.defs console_ok_def kio_ok_def)

lemma mm0_pool: "frames_ok mm0" "capacity mm0 = 64" "used mm0 = {}"
  by (simp_all add: frames_ok_def aligned4_def capacity_def used_def frame_bit_def mm0_fields)

lemma mm0_page: "unat p < 0x200000 \<Longrightarrow> aligned4 p \<Longrightarrow> fresh_page mm0 p"
proof -
  assume p: "unat p < 0x200000" "aligned4 p"
  have "\<not> in_bitmap mm0 p"
  proof
    assume "in_bitmap mm0 p"
    then obtain i where i: "i < 2" "p = 0x200000 + 4 * of_nat i" by (auto simp: in_bitmap_def mm0_fields)
    then have "p = of_nat (0x200000 + 4 * i)" by simp
    then have "unat p = 0x200000 + 4 * i" using i(1) unat_of_nat32 [of "0x200000 + 4 * i"] by simp
    with p(1) show False by simp
  qed
  then show "fresh_page mm0 p"
    using p(2) by (simp add: fresh_page_def mm0_fields pg_frame_def get_field_def)
qed

text \<open>While a frame is free, \<open>alloc_frame\<close> gives a page without one the least free frame: the entry
  becomes present, writeable and user-accessible as asked, the frame becomes used, and no word of
  memory other than the entry and the bitmap changes.\<close>

theorem alloc_frame_least:
  assumes "frames_ok s" and "fresh_page s p" and "used s \<noteq> {..<capacity s}"
  shows "\<exists>e s' f. alloc_frame p k w s = Inr ((), s') \<and> takes s p f e s' \<and>
    f < capacity s \<and> f \<notin> used s \<and> (\<forall>g < f. g \<in> used s) \<and> pg_present e = 1 \<and>
    pg_rw e = (if w then 1 else 0) \<and> pg_user e = (if k then 0 else 1) \<and> unat (pg_frame e) = f"
proof -
  obtain f where f: "first_frame s = of_nat f" "f < capacity s" "f \<notin> used s" "\<forall>g < f. g \<in> used s"
    using first_frame_least [OF assms(1)] assms(3) by blast
  show ?thesis using alloc_frame_takes [OF assms(1,2) f(1,2), of k w] f by blast
qed

theorem alloc_frame_least_witness:
  "\<exists>e s'. alloc_frame 0x1000 False False mm0 = Inr ((), s') \<and> takes mm0 0x1000 0 e s' \<and> pg_user e = 1"
proof -
  have "fresh_page mm0 0x1000" by (rule mm0_page) (simp_all add: aligned4_def)
  moreover have "0 \<in> {..<capacity mm0}" by (simp add: mm0_pool)
  then have "used mm0 \<noteq> {..<capacity mm0}" unfolding mm0_pool(3) by blast
  ultimately obtain e s' f where "alloc_frame 0x1000 False False mm0 = Inr ((), s')" "takes mm0 0x1000 f e s'"
    "\<forall>g < f. g \<in> used mm0" "pg_user e = 1"
    using alloc_frame_least [OF mm0_pool(1), of "0x1000" False False] by auto
  moreover from this(3) have "f = 0" by (auto simp: mm0_pool)
  ultimately show ?thesis by blast
qed

text \<open>C14. No frame is handed out twice, and none is wasted, when frames are given to pairwise different pages whose
  entries hold the frame number 0, which is how the code tells a page without a frame: this succeeds exactly when that
  many frames are free, and then the pages have pairwise different frames, none of which was used before. (A page that
  holds frame 0 looks like one without a frame and is given another.)\<close>

theorem alloc_frames_distinct:
  assumes "frames_ok s" and "distinct ps" and "\<forall>p \<in> set ps. fresh_page s p"
  shows "((\<exists>s'. alloc_all (frame_alloc k w) ps s = Some s') \<longleftrightarrow> card (used s) + length ps \<le> capacity s) \<and>
    (\<forall>s'. alloc_all (frame_alloc k w) ps s = Some s' \<longrightarrow>
       distinct (map (entry_frame s') ps) \<and> set (map (entry_frame s') ps) \<inter> used s = {} \<and>
       used s' = used s \<union> set (map (entry_frame s') ps))"
  using bitmap.allocs_succeed [OF assms] bitmap.allocs_frames [OF assms] by blast

theorem alloc_frames_distinct_witness:
  "\<exists>s'. alloc_all (frame_alloc True True) [0x1000, 0x1004, 0x1008] mm0 = Some s' \<and> card (used s') = 3"
proof -
  let ?ps = "[0x1000, 0x1004, 0x1008] :: u32 list"
  have "distinct ?ps" "\<forall>p \<in> set ?ps. fresh_page mm0 p"
    by (auto intro!: mm0_page simp: aligned4_def)
  from alloc_frames_distinct [OF mm0_pool(1) this, of True True]
  have 1: "\<exists>s'. alloc_all (frame_alloc True True) ?ps mm0 = Some s'"
    and 2: "\<And>s'. alloc_all (frame_alloc True True) ?ps mm0 = Some s' \<Longrightarrow>
      distinct (map (entry_frame s') ?ps) \<and> used s' = set (map (entry_frame s') ?ps)"
    by (auto simp: mm0_pool)
  have "card (used s') = 3" if "alloc_all (frame_alloc True True) ?ps mm0 = Some s'" for s'
    using 2 [OF that] distinct_card [of "map (entry_frame s') ?ps"] by simp
  with 1 show ?thesis by blast
qed

text \<open>With every frame used, an allocation for a page without a frame stops the machine with the
  out-of-frames report.\<close>

theorem alloc_frame_exhausted:
  assumes "frames_ok s" and "fresh_page s p" and "used s = {..<capacity s}" and "kio_ok s"
  shows "\<exists>s'. alloc_frame p k w s = Inl (Halted s') \<and>
    panicked s (report ''PANIC! '' (c_lit ''Failed to allocate a frame: out of frames'') (c_lit ''mem.c'') 143) s'"
proof -
  have m: "first_frame s = - 1" using first_frame_least [OF assms(1)] assms(3) by auto
  have "0 \<in> set (c_lit ''Failed to allocate a frame: out of frames'')" "0 \<in> set (c_lit ''mem.c'')"
    "length (chars_upto_nul (c_lit ''Failed to allocate a frame: out of frames'')) < 1000"
    "length (chars_upto_nul (c_lit ''mem.c'')) < 1000"
    by (simp add: c_lit_def, simp add: c_lit_def, code_simp, code_simp)
  from halt_and_catch_fire_report [OF assms(4) this]
  show ?thesis unfolding frame_alloc_exhausted(1) [OF assms(2) m] .
qed

lemma mm0_full: "nframes (mm0\<lparr>nframes := 5\<rparr>) = 5" "frames_ok (mm0\<lparr>nframes := 5\<rparr>)"
  "capacity (mm0\<lparr>nframes := 5\<rparr>) = 0" "used (mm0\<lparr>nframes := 5\<rparr>) = {}"
  by (simp_all add: frames_ok_def aligned4_def mm0_fields used_def capacity_def)

theorem alloc_frame_exhausted_witness:
  "\<exists>s'. alloc_frame 0x1000 True True (mm0\<lparr>nframes := 5\<rparr>) = Inl (Halted s') \<and> \<not> int_flag s'"
proof -
  have "fresh_page (mm0\<lparr>nframes := 5\<rparr>) 0x1000"
    by (simp add: fresh_page_def aligned4_def in_bitmap_def mm0_fields pg_frame_def get_field_def)
  moreover have "kio_ok (mm0\<lparr>nframes := 5\<rparr>)" using mm0_kio_ok by (simp add: kio_ok_def console_ok_def)
  ultimately show ?thesis
    using alloc_frame_exhausted [OF mm0_full(2), of "0x1000" True True] mm0_full(3,4)
    by (auto simp: panicked_def)
qed

text \<open>C35. Freeing a page's frame does not make the frame available again: \<open>free_frame\<close> passes the frame
  number where \<open>clear_frame\<close> expects an address, so the frame stays used, and the bit that is cleared is
  that of the frame numbered 4096 times less (frame 0 for all frames of the first 16 MB).\<close>

theorem free_frame_leaks:
  assumes "frames_ok s" and "page_entry s p" and "entry_frame s p = f" and "0 < f" and "f < capacity s"
    and "f \<in> used s"
  shows "entry_frame (free_frame p s) p = 0 \<and> f \<in> used (free_frame p s) \<and>
    used (free_frame p s) = used s - {f div 4096}"
  using free_frame_leaves [OF assms(1,2)] assms(3-6) by auto

theorem free_frame_leaks_witness:
  "let s = set_frame 0x5000 (mm0\<lparr>mem := store32 (\<lambda>_. 0) 0x1000 0x5003\<rparr>)
   in used s = {5} \<and> used (free_frame 0x1000 s) = {5} \<and> entry_frame (free_frame 0x1000 s) 0x1000 = 0"
proof -
  let ?init = "mm0\<lparr>mem := store32 (\<lambda>_. 0) 0x1000 0x5003\<rparr>" and ?s = "set_frame 0x5000 (mm0\<lparr>mem := store32 (\<lambda>_. 0) 0x1000 0x5003\<rparr>)"
  have b: "\<not> in_bitmap mm0 0x1000" "aligned4 0x1000"
    using mm0_page [of "0x1000"] by (simp_all add: fresh_page_def aligned4_def)
  have 0: "frames_ok ?init" "capacity ?init = 64" "used ?init = {}"
    using frame_bit_outside [OF mm0_pool(1) b(2,1)] mm0_pool
    by (auto simp: frames_ok_def capacity_def used_def mm0_fields frame_bit_def)
  have u: "used ?s = {5}" using set_frame_used [OF 0(1), of 5] 0 by simp
  obtain v where v: "?s = ?init\<lparr>mem := store32 (mem ?init) 0x200000 v\<rparr>"
    using set_frame_mem [of "0x5000" ?init] by (auto simp: mm0_fields)
  have e: "entry_frame ?s 0x1000 = 5"
    by (simp add: v entry_frame_def load32_store32_aligned aligned4_def pg_frame_def get_field_def
        mask_eq_exp_minus_1)
  have "frames_ok ?s" "capacity ?s = 64" "page_entry ?s 0x1000"
    using 0 b by (simp_all add: v frames_ok_def capacity_def page_entry_def in_bitmap_def mm0_fields)
  with free_frame_leaks [OF this(1,3) e] u show ?thesis by (simp add: Let_def)
qed

text \<open>The aligned placement allocations round the pointer down: after a block of \<open>n\<close> bytes at \<open>p\<close>, the
  next page-aligned block starts on a page boundary, but shares bytes with the block already handed
  out whenever that block does not end exactly on one.\<close>

theorem kvmalloc_overlaps:
  assumes "placement_pointer s = of_nat p" and "0 < n" and "4096 \<le> m" and "4096 \<le> p + n"
    and "p + n + m < 4294967296"
  shows "\<exists>s1 a s2. kmalloc (of_nat n) s = (of_nat p, s1) \<and> kvmalloc (of_nat m) s1 = (of_nat a, s2) \<and>
    a mod 4096 = 0 \<and> a \<le> p + n \<and> p + n < a + 4096 \<and> placement_pointer s2 = of_nat (a + m) \<and>
    ({p..<p + n} \<inter> {a..<a + m} \<noteq> {} \<longleftrightarrow> (p + n) mod 4096 \<noteq> 0)"
proof -
  define a where "a = 4096 * ((p + n) div 4096)"
  have split: "p + n = a + (p + n) mod 4096" unfolding a_def by (rule mult_div_mod_eq [symmetric])
  moreover have "(p + n) mod 4096 < 4096" by simp
  ultimately have a: "a \<le> p + n" "p + n < a + 4096" "(p + n) mod 4096 \<noteq> 0 \<longleftrightarrow> a < p + n" by linarith+
  have a4: "a mod 4096 = 0" unfolding a_def by simp
  have m: "(0xFFFFF000 :: u32) = NOT (mask 12)" by (simp add: mask_eq_exp_minus_1)
  have u: "unat (of_nat (p + n) :: u32) = p + n" using assms(5) by (intro unat_of_nat32) simp
  have "unat (of_nat (p + n) AND 0xFFFFF000 :: u32) = a"
    unfolding m a_def by (subst unat_and_not_mask) (simp_all only: u, simp_all)
  then have w: "(of_nat (p + n) AND 0xFFFFF000 :: u32) = of_nat a" by (metis of_nat_unat ucast_id)
  have "0 < a" using assms(4) unfolding a_def by (simp add: div_greater_zero_iff)
  then have nz: "(of_nat a :: u32) \<noteq> 0" using a(1) assms(5) unat_of_nat32 [of a] by force
  let ?s1 = "s\<lparr>placement_pointer := of_nat (p + n)\<rparr>"
  have 1: "kmalloc (of_nat n) s = (of_nat p, ?s1)"
    using assms(1) by (simp add: kmalloc_def kmalloc_real_def Let_def)
  have 2: "kvmalloc (of_nat m) ?s1 = (of_nat a, ?s1\<lparr>placement_pointer := of_nat (a + m)\<rparr>)"
    using nz w by (simp add: kvmalloc_def kmalloc_real_def Let_def del: of_nat_add) simp
  have "{p..<p + n} \<inter> {a..<a + m} \<noteq> {} \<longleftrightarrow> a < p + n"
  proof
    assume "a < p + n"
    then have "p + n - 1 \<in> {p..<p + n} \<inter> {a..<a + m}" using assms(2,3) a(2) by auto
    then show "{p..<p + n} \<inter> {a..<a + m} \<noteq> {}" by blast
  qed auto
  then show ?thesis
    using 1 2 a a4 by (intro exI [of _ ?s1] exI [of _ a] exI [of _ "?s1\<lparr>placement_pointer := of_nat (a + m)\<rparr>"]) simp
qed

theorem kvmalloc_overlaps_witness:
  "\<exists>s1 s2. kmalloc 96 mm0 = (0x10A123, s1) \<and> kvmalloc 8196 s1 = (0x10A000, s2)"
proof -
  have "placement_pointer mm0 = of_nat 0x10A123" by (simp add: mm0_fields)
  note o = kvmalloc_overlaps [OF this, of 96 8196]
  obtain s1 a s2 where
    "kmalloc (of_nat 96) mm0 = (of_nat 0x10A123, s1)" "kvmalloc (of_nat 8196) s1 = (of_nat a, s2)"
    "a mod 4096 = 0" "a \<le> 0x10A123 + 96" "0x10A123 + 96 < a + 4096"
  proof -
    assume r: "\<And>s1 a s2. kmalloc (of_nat 96) mm0 = (of_nat 0x10A123, s1) \<Longrightarrow>
      kvmalloc (of_nat 8196) s1 = (of_nat a, s2) \<Longrightarrow> a mod 4096 = 0 \<Longrightarrow> a \<le> 0x10A123 + 96 \<Longrightarrow>
      0x10A123 + 96 < a + 4096 \<Longrightarrow> thesis"
    have "0 < (96 :: nat)" "4096 \<le> (8196 :: nat)" "4096 \<le> 0x10A123 + (96 :: nat)"
      "0x10A123 + 96 + 8196 < (4294967296 :: nat)" by simp_all
    from o [OF this] show thesis by (elim exE conjE) (rule r)
  qed
  moreover have "a = 0x10A000"
  proof -
    obtain c where "a = 4096 * c" using \<open>a mod 4096 = 0\<close> by (metis mod_0_imp_dvd dvdE)
    moreover from this have "c = 266" using \<open>a \<le> 0x10A123 + 96\<close> \<open>0x10A123 + 96 < a + 4096\<close> by linarith
    ultimately show ?thesis by simp
  qed
  ultimately have "kmalloc 96 mm0 = (0x10A123, s1) \<and> kvmalloc 8196 s1 = (0x10A000, s2)" by simp
  then show ?thesis by blast
qed

end
