(* ===== verification/Paging.thy ===== *)
theory Paging
  imports Frames Messages
begin

text \<open>
  The second half of \<open>core/mem.c\<close>: page tables and the heap break. A \<open>page_directory_t\<close> is 1024
  pointers to tables, then the 1024 physical entries the processor walks; a table is 1024 page
  entries. Memory is the kernel's linear address space, in which the tables are identity mapped.
\<close>

section \<open>Operations\<close>

definition sizeof_page_directory :: u32 where
  "sizeof_page_directory = 8196"

definition sizeof_page_table :: u32 where
  "sizeof_page_table = 4096"

definition get_page :: "u32 \<Rightarrow> bool \<Rightarrow> u32 \<Rightarrow> 'a mm_scheme \<Rightarrow> u32 \<times> 'a mm_scheme" where
  "get_page address mk dir s =
     (let addr = address div 0x1000;
          table_index = addr div 1024;
          slot = dir + 4 * table_index
      in if load32 (mem s) slot \<noteq> 0 then (load32 (mem s) slot + 4 * (addr mod 1024), s)
         else if mk then
           (let ((table, phys), s1) = kvmalloc_p sizeof_page_table s;
                temp = (case phys of Some p \<Rightarrow> p | None \<Rightarrow> 0);
                s2 = s1\<lparr>mem := store32 (mem s1) slot table\<rparr>;
                s3 = s2\<lparr>mem := memset (mem s2) (load32 (mem s2) slot) 0 0x1000\<rparr>;
                s4 = s3\<lparr>mem := store32 (mem s3) (dir + 4096 + 4 * table_index) (temp OR 0x7)\<rparr>
            in (load32 (mem s4) slot + 4 * (addr mod 1024), s4))
         else (0, s))"

definition switch_page_directory :: "u32 \<Rightarrow> 'a mm_scheme \<Rightarrow> 'a mm_scheme" where
  "switch_page_directory dir s =
     (let s1 = s\<lparr>current_directory := dir\<rparr>;
          s2 = s1\<lparr>cr3 := dir + 4096\<rparr>
      in s2\<lparr>cr0 := cr0 s2 OR 0x80000000\<rparr>)"

text \<open>Lines 168 to 173: the bitmap and the directory are laid out and cleared.\<close>

definition paging_layout :: "u32 \<Rightarrow> 'a mm_scheme \<Rightarrow> 'a mm_scheme" where
  "paging_layout memsize s =
     (let s1 = s\<lparr>nframes := memsize div 4\<rparr>;
          (fr, s2) = kmalloc (INDEX_FROM_BIT (nframes s1)) s1;
          s3 = s2\<lparr>frames := fr\<rparr>;
          s4 = s3\<lparr>mem := memset (mem s3) (frames s3) 0 (INDEX_FROM_BIT (nframes s3))\<rparr>;
          (kd, s5) = kvmalloc sizeof_page_directory s4;
          s6 = s5\<lparr>kernel_directory := kd\<rparr>;
          s7 = s6\<lparr>mem := memset (mem s6) (kernel_directory s6) 0 sizeof_page_directory\<rparr>
      in s7\<lparr>current_directory := kernel_directory s7\<rparr>)"

text \<open>The loop that gives a frame to every page below the placement pointer, which the tables it makes
  move on.\<close>

partial_function (option) map_kernel_loop ::
  "u32 \<Rightarrow> 'a mm_scheme \<Rightarrow> ('a mm_scheme fault + unit \<times> 'a mm_scheme) option" where
  "map_kernel_loop i s =
     (if i < placement_pointer s then
        (let (page, s1) = get_page i True (kernel_directory s) s in
         case alloc_frame page False False s1 of
           Inl e \<Rightarrow> Some (Inl e)
         | Inr (_, s2) \<Rightarrow> map_kernel_loop (i + 0x1000) s2)
      else Some (Inr ((), s)))"

definition paging_install :: "u32 \<Rightarrow> 'a mm_scheme \<Rightarrow> (unit, 'a mm_scheme) result" where
  "paging_install memsize s =
     res_bind (loop_result (map_kernel_loop 0 (paging_layout memsize s))) (\<lambda>(_, s1).
     res_bind (isrs_install_handler 14 Page_fault s1) (\<lambda>(_, s2).
     Inr ((), switch_page_directory (kernel_directory s2) s2)))"

definition page_fault :: "regs \<Rightarrow> 'a mm_scheme \<Rightarrow> (unit, 'a mm_scheme) result" where
  "page_fault r s =
     (let faulting_address = cr2 s;
          present = (if err_code r AND 0x1 = 0 then 1 else 0);
          rw = err_code r AND 0x2;
          user = err_code r AND 0x4;
          reserved = err_code r AND 0x8
      in res_bind (kprintf (c_lit (''Page fault! (p:%d,rw:%d,user:%d,res:%d) at 0x%x'' @ nl))
           [Karg_word present, Karg_word rw, Karg_word user, Karg_word reserved, Karg_word faulting_address] s)
         (\<lambda>(_, s1). halt_and_catch_fire (c_lit ''Page fault'') (c_lit ''mem.c'') 230 s1))"

definition heap_install :: "'a mm_scheme \<Rightarrow> 'a mm_scheme" where
  "heap_install s =
     (let s1 = s\<lparr>heap_end := placement_pointer s\<rparr> in s1\<lparr>placement_pointer := 0\<rparr>)"

partial_function (option) sbrk_loop ::
  "u32 \<Rightarrow> 'a mm_scheme \<Rightarrow> ('a mm_scheme fault + unit \<times> 'a mm_scheme) option" where
  "sbrk_loop i s =
     (if i < heap_end s then
        (let (_, s1) = get_page i True (kernel_directory s) s;
             (page, s2) = get_page i True (kernel_directory s1) s1 in
         case alloc_frame page False False s2 of
           Inl e \<Rightarrow> Some (Inl e)
         | Inr (_, s3) \<Rightarrow> sbrk_loop (i + 0x1000) s3)
      else Some (Inr ((), s)))"

definition sbrk :: "u32 \<Rightarrow> 'a mm_scheme \<Rightarrow> (u32, 'a mm_scheme) result" where
  "sbrk increment s =
     res_bind (ASSERT (increment mod 0x1000 = 0) ''mem.c'' 253 ''increment % 0x1000 == 0'' s) (\<lambda>(_, s1).
     let address = heap_end s1;
         s2 = s1\<lparr>heap_end := heap_end s1 + increment\<rparr>
     in res_bind (loop_result (sbrk_loop address s2)) (\<lambda>(_, s3). Inr (address, s3)))"

section \<open>Clearing memory word by word\<close>

lemma unat_sub_aligned:
  assumes "aligned4 a" and "aligned4 b" and "j < 4"
  shows "unat (a + of_nat j - b) = unat (a - b) + j"
proof -
  have al: "unat (a - b) mod 4 = 0" using aligned4_diff [OF assms(1,2)] by (simp add: aligned4_def)
  moreover have "(4294967296 :: nat) mod 4 = 0" by simp
  ultimately have "unat (a - b) + j < 4294967296"
    using unat_u32_bound [of "a - b"] assms(3) by presburger
  moreover have "unat (of_nat j :: u32) = j" using assms(3) by (intro unat_of_nat32) simp
  ultimately have "unat ((a - b) + of_nat j) = unat (a - b) + j" by (simp add: unat_add_small)
  moreover have "(a - b) + of_nat j = a + of_nat j - b" by (simp add: algebra_simps)
  ultimately show ?thesis by simp
qed

lemma memset_word:
  assumes "aligned4 a" and "aligned4 b" and "n < 2147483648" and "n mod 4 = 0"
  shows "load32 (memset m b 0 (of_nat n)) a = (if unat (a - b) < n then 0 else load32 m a)"
    and "\<not> unat (a - b) < n \<Longrightarrow> same_word m (memset m b 0 (of_nat n)) a"
proof -
  have n: "nat (sint (of_nat n :: u32)) = n" using assms(3) by (simp add: sint_small unat_of_nat32)
  have al: "unat (a - b) mod 4 = 0" using aligned4_diff [OF assms(1,2)] by (simp add: aligned4_def)
  have byte: "memset m b 0 (of_nat n) (a + of_nat j) = (if unat (a - b) < n then 0 else m (a + of_nat j))"
    if "j < 4" for j
  proof -
    have "unat (a - b) + j < n \<longleftrightarrow> unat (a - b) < n" using al assms(4) that by presburger
    then show ?thesis by (simp add: memset_byte n unat_sub_aligned [OF assms(1,2) that])
  qed
  then show "\<not> unat (a - b) < n \<Longrightarrow> same_word m (memset m b 0 (of_nat n)) a" by (simp add: same_word_def)
  show "load32 (memset m b 0 (of_nat n)) a = (if unat (a - b) < n then 0 else load32 m a)"
  proof (cases "unat (a - b) < n")
    case True
    then have "load32 (memset m b 0 (of_nat n)) a = load32 (\<lambda>_. 0) a"
      using byte by (intro load32_cong) simp
    with True show ?thesis by simp
  next
    case False
    with byte show ?thesis by (simp add: load32_cong [of "memset m b 0 (of_nat n)" a m])
  qed
qed

section \<open>What \<open>paging_install\<close> lays out\<close>

lemma kmalloc_run:
  "kmalloc n s = (placement_pointer s, s\<lparr>placement_pointer := placement_pointer s + n\<rparr>)"
  by (simp add: kmalloc_def kmalloc_real_def Let_def)

text \<open>\<open>page_down x\<close>: the page boundary at or below \<open>x\<close>.\<close>

definition page_down :: "nat \<Rightarrow> nat" where
  "page_down x = 4096 * (x div 4096)"

lemma page_down_bounds: "page_down x \<le> x" "x < page_down x + 4096" "page_down x mod 4096 = 0"
proof -
  have "x = page_down x + x mod 4096" unfolding page_down_def by (rule mult_div_mod_eq [symmetric])
  moreover have "x mod 4096 < 4096" by simp
  ultimately show "page_down x \<le> x" "x < page_down x + 4096" by linarith+
  show "page_down x mod 4096 = 0" by (simp add: page_down_def)
qed

lemma page_mask:
  assumes "x < 4294967296"
  shows "(of_nat x AND 0xFFFFF000 :: u32) = of_nat (page_down x)"
proof -
  have m: "(0xFFFFF000 :: u32) = NOT (mask 12)" by (simp add: mask_eq_exp_minus_1)
  have u: "unat (of_nat x :: u32) = x" using assms by (rule unat_of_nat32)
  have "unat (of_nat x AND 0xFFFFF000 :: u32) = page_down x"
    unfolding m page_down_def by (subst unat_and_not_mask) (simp_all only: u, simp_all)
  then show ?thesis by (metis of_nat_unat ucast_id)
qed

lemma kvmalloc_real_run:
  assumes "placement_pointer s = of_nat x" and "4096 \<le> x" and "x < 4294967296"
  shows "kmalloc_real n True b s = ((of_nat (page_down x), if b then Some (of_nat (page_down x)) else None),
    s\<lparr>placement_pointer := of_nat (page_down x) + n\<rparr>)"
proof -
  have "4096 \<le> page_down x" using assms(2) unfolding page_down_def by (simp add: Suc_le_eq div_greater_zero_iff)
  moreover have "unat (of_nat (page_down x) :: u32) = page_down x"
    using page_down_bounds(1) [of x] assms(3) by (intro unat_of_nat32) simp
  ultimately have "(of_nat (page_down x) :: u32) \<noteq> 0" by force
  then show ?thesis
    by (simp only: kmalloc_real_def assms(1) page_mask [OF assms(3)] Let_def) simp
qed

lemma paging_layout_mem:
  assumes "placement_pointer s = of_nat p" and "n = m div 128" and "m < 4294967296"
    and "4096 \<le> p + n" and "p + n + 8196 < 4294967296"
  shows "paging_layout (of_nat m) s = s\<lparr>nframes := of_nat (m div 4), placement_pointer := of_nat (page_down (p + n) + 8196),
      frames := of_nat p, mem := memset (memset (mem s) (of_nat p) 0 (of_nat n)) (of_nat (page_down (p + n))) 0 8196,
      kernel_directory := of_nat (page_down (p + n)), current_directory := of_nat (page_down (p + n))\<rparr>"
proof -
  have m: "(of_nat m div 4 :: u32) = of_nat (m div 4)"
    using assms(3) by (simp add: word_unat_eq_iff unat_div_distrib unat_of_nat32)
  then have i: "INDEX_FROM_BIT (of_nat m div 4) = of_nat n"
    using assms(2,3) by (simp add: INDEX_FROM_BIT_def word_unat_eq_iff unat_div_distrib unat_of_nat32 div_mult2_eq [symmetric])
  have x: "p + n < 4294967296" using assms(5) by simp
  let ?s4 = "s\<lparr>nframes := of_nat m div 4, placement_pointer := of_nat (p + n), frames := of_nat p,
      mem := memset (mem s) (of_nat p) 0 (of_nat n)\<rparr>"
  have k: "kvmalloc sizeof_page_directory ?s4 = (of_nat (page_down (p + n)),
      ?s4\<lparr>placement_pointer := of_nat (page_down (p + n)) + 8196\<rparr>)"
    using kvmalloc_real_run [of ?s4 "p + n" 8196 False] assms(4) x
    by (simp add: kvmalloc_def sizeof_page_directory_def Let_def)
  have "paging_layout (of_nat m) s = (let (kd, s5) = kvmalloc sizeof_page_directory ?s4;
      s6 = s5\<lparr>kernel_directory := kd\<rparr>;
      s7 = s6\<lparr>mem := memset (mem s6) (kernel_directory s6) 0 sizeof_page_directory\<rparr>
      in s7\<lparr>current_directory := kernel_directory s7\<rparr>)"
    by (simp add: paging_layout_def kmalloc_run i assms(1) Let_def)
  also have "\<dots> = s\<lparr>nframes := of_nat m div 4, placement_pointer := of_nat (page_down (p + n)) + 8196,
      frames := of_nat p, mem := memset (mem ?s4) (of_nat (page_down (p + n))) 0 8196,
      kernel_directory := of_nat (page_down (p + n)), current_directory := of_nat (page_down (p + n))\<rparr>"
    unfolding k by (simp add: sizeof_page_directory_def)
  finally show ?thesis unfolding m of_nat_add of_nat_numeral by simp
qed

lemma paging_layout_run:
  assumes "placement_pointer s = of_nat p" and "n = m div 128" and "m < 4294967296"
    and "4096 \<le> p + n" and "p + n + 8196 < 4294967296"
  shows "\<exists>mm. paging_layout (of_nat m) s = s\<lparr>nframes := of_nat (m div 4), placement_pointer := of_nat (page_down (p + n) + 8196),
      frames := of_nat p, mem := memset mm (of_nat (page_down (p + n))) 0 8196,
      kernel_directory := of_nat (page_down (p + n)), current_directory := of_nat (page_down (p + n))\<rparr>"
  using paging_layout_mem [OF assms] by blast

section \<open>Address translation\<close>

text \<open>The walk of the processor: \<open>pd\<close> is the content of \<open>cr3\<close>, \<open>v\<close> a linear address.\<close>

definition mmu_walk :: "mem \<Rightarrow> u32 \<Rightarrow> u32 \<Rightarrow> u32 option" where
  "mmu_walk m pd v =
     (let pde = load32 m (pd + 4 * drop_bit 22 v) in
      if pde AND 1 = 0 then None
      else let pte = load32 m ((pde AND NOT (mask 12)) + 4 * (drop_bit 12 v AND mask 10)) in
        if pte AND 1 = 0 then None
        else Some ((pte AND NOT (mask 12)) OR (v AND mask 12)))"

definition dir_slot :: "u32 \<Rightarrow> u32 \<Rightarrow> u32" where
  "dir_slot dir v = dir + 4 * drop_bit 22 v"

definition phys_slot :: "u32 \<Rightarrow> u32 \<Rightarrow> u32" where
  "phys_slot dir v = dir + 4096 + 4 * drop_bit 22 v"

definition table_index :: "u32 \<Rightarrow> u32" where
  "table_index v = drop_bit 12 v AND mask 10"

text \<open>\<open>table_ok m dir v\<close>: the directory has a page-aligned table for \<open>v\<close> that the processor finds too.\<close>

definition table_ok :: "mem \<Rightarrow> u32 \<Rightarrow> u32 \<Rightarrow> bool" where
  "table_ok m dir v \<longleftrightarrow> load32 m (dir_slot dir v) \<noteq> 0 \<and> load32 m (dir_slot dir v) AND mask 12 = 0 \<and>
     load32 m (phys_slot dir v) = load32 m (dir_slot dir v) OR 7"

definition entry_addr :: "mem \<Rightarrow> u32 \<Rightarrow> u32 \<Rightarrow> u32" where
  "entry_addr m dir v = load32 m (dir_slot dir v) + 4 * table_index v"

lemma address_split:
  fixes v :: u32
  shows "v div 0x1000 div 1024 = drop_bit 22 v" "v div 0x1000 mod 1024 = table_index v"
proof -
  have "unat (v div 0x1000 div 1024) = unat (drop_bit 22 v)"
    by (simp add: unat_div_distrib unat_drop_bit_word div_mult2_eq [symmetric])
  then show "v div 0x1000 div 1024 = drop_bit 22 v" by (simp only: word_unat_eq_iff)
  have "unat (table_index v) = unat v div 4096 mod 1024"
    unfolding table_index_def take_bit_eq_mask [symmetric] unsigned_take_bit_eq unat_drop_bit_word
    by (simp add: take_bit_eq_mod)
  then have "unat (v div 0x1000 mod 1024) = unat (table_index v)"
    by (simp add: unat_div_distrib unat_mod_distrib)
  then show "v div 0x1000 mod 1024 = table_index v" by (simp only: word_unat_eq_iff)
qed

lemma get_page_present:
  assumes "load32 (mem s) (dir_slot dir v) \<noteq> 0"
  shows "get_page v b dir s = (entry_addr (mem s) dir v, s)"
  using assms by (simp add: get_page_def address_split dir_slot_def entry_addr_def Let_def)

lemma get_page_absent:
  assumes "load32 (mem s) (dir_slot dir v) = 0"
  shows "get_page v False dir s = (0, s)"
  using assms by (simp add: get_page_def address_split dir_slot_def Let_def)

lemma aligned4_mask:
  assumes "w AND mask 12 = (0 :: u32)"
  shows "aligned4 w"
proof -
  have "unat (take_bit 12 w) = 0" using assms by (simp add: take_bit_eq_mask)
  then have "unat w mod 4096 = 0" unfolding unsigned_take_bit_eq by (simp add: take_bit_eq_mod)
  moreover have "unat w mod 4096 mod 4 = unat w mod 4" by (rule mod_mod_cancel) simp
  ultimately show ?thesis unfolding aligned4_def by simp
qed

lemma pde_bits:
  assumes "w AND mask 12 = (0 :: u32)"
  shows "(w OR 7) AND NOT (mask 12) = w" "(w OR 7) AND 1 \<noteq> 0"
proof -
  have 7: "(7 :: u32) = mask 3" by (simp add: mask_eq_exp_minus_1)
  have low: "\<not> bit w n" if "n < 12" for n
  proof -
    have "\<not> bit (w AND mask 12) n" unfolding assms by simp
    then show ?thesis using that by (simp add: bit_and_iff bit_mask_iff) 
  qed
  show "(w OR 7) AND NOT (mask 12) = w"
    unfolding 7 by (rule bit_word_eqI) (auto simp: bit_simps, meson low not_less)
  show "(w OR 7) AND 1 \<noteq> 0"
  proof
    assume eq: "(w OR 7) AND 1 = 0"
    have "bit ((w OR 7) AND 1) 0" unfolding 7 by (simp only: bit_and_iff bit_or_iff bit_mask_iff bit_1_iff) simp
    then show False unfolding eq by simp
  qed
qed

lemma pte_bits:
  assumes "pg_present e = 1"
  shows "e AND 1 \<noteq> 0" "unat ((e AND NOT (mask 12)) OR (v AND mask 12)) = 4096 * unat (pg_frame e) + unat v mod 4096"
proof -
  show "e AND 1 \<noteq> 0" using assms by (auto simp: pg_present_def get_field_def mask_eq_exp_minus_1)
  have "(e AND NOT (mask 12)) OR (v AND mask 12) = (e AND NOT (mask 12)) + (v AND mask 12)"
    by (intro disjunctive_add [symmetric]) (auto simp: bit_simps)
  moreover have "unat (e AND NOT (mask 12)) = 4096 * (unat e div 4096)"
    by (subst unat_and_not_mask) simp_all
  moreover have "unat (v AND mask 12) = unat v mod 4096"
    by (simp add: take_bit_eq_mask [symmetric] unsigned_take_bit_eq) (simp add: take_bit_eq_mod)
  moreover have "unat (pg_frame e) = unat e div 4096"
  proof -
    have "pg_frame e = drop_bit 12 e"
      unfolding pg_frame_def get_field_def by (rule bit_word_eqI) (auto simp: bit_simps dest: bit_imp_le_length)
    then show ?thesis by (simp add: unat_drop_bit_word)
  qed
  moreover have "4096 * (unat e div 4096) + unat v mod 4096 < 4294967296"
  proof -
    have "unat e div 4096 < 1048576" using unat_u32_bound [of e] by (simp add: less_mult_imp_div_less)
    moreover have "unat v mod 4096 < 4096" by simp
    ultimately show ?thesis by linarith
  qed
  ultimately show "unat ((e AND NOT (mask 12)) OR (v AND mask 12)) = 4096 * unat (pg_frame e) + unat v mod 4096"
    by (simp add: unat_add_small)
qed

lemma mmu_walk_mapped:
  assumes "table_ok m dir v" and "pg_present (load32 m (entry_addr m dir v)) = 1"
  shows "\<exists>p. mmu_walk m (dir + 4096) v = Some p \<and>
    unat p = 4096 * unat (pg_frame (load32 m (entry_addr m dir v))) + unat v mod 4096"
  using assms pde_bits [of "load32 m (dir_slot dir v)"] pte_bits(1) [OF assms(2)] pte_bits(2) [OF assms(2), of v]
  by (simp add: mmu_walk_def table_ok_def phys_slot_def entry_addr_def table_index_def Let_def)

section \<open>Making a table\<close>

lemma aligned4_slots: "aligned4 dir \<Longrightarrow> aligned4 (dir_slot dir v)" "aligned4 dir \<Longrightarrow> aligned4 (phys_slot dir v)"
proof -
  have "aligned4 4096" by (simp add: aligned4_def)
  then show "aligned4 dir \<Longrightarrow> aligned4 (dir_slot dir v)" "aligned4 dir \<Longrightarrow> aligned4 (phys_slot dir v)"
    by (simp_all add: dir_slot_def phys_slot_def aligned4_add)
qed

lemma slots_differ: "dir_slot dir v \<noteq> phys_slot dir v"
  by (simp add: dir_slot_def phys_slot_def)

lemma get_page_makes:
  assumes "load32 (mem s) (dir_slot dir v) = 0" and "aligned4 dir"
    and "placement_pointer s = of_nat x" and "4096 \<le> x" and "x < 4294967296"
    and "\<And>a. a \<in> {dir_slot dir v, phys_slot dir v} \<Longrightarrow> 4096 \<le> unat (a - of_nat (page_down x))"
  shows "\<exists>m'. get_page v True dir s = (entry_addr m' dir v,
      s\<lparr>placement_pointer := of_nat (page_down x) + 4096, mem := m'\<rparr>) \<and>
    table_ok m' dir v \<and> load32 m' (dir_slot dir v) = of_nat (page_down x) \<and>
    (\<forall>a. aligned4 a \<and> unat (a - of_nat (page_down x)) < 4096 \<longrightarrow> load32 m' a = 0) \<and>
    (\<forall>a. aligned4 a \<and> 4096 \<le> unat (a - of_nat (page_down x)) \<and> a \<noteq> dir_slot dir v \<and> a \<noteq> phys_slot dir v \<longrightarrow>
       same_word (mem s) m' a)"
proof -
  let ?T = "of_nat (page_down x) :: u32" and ?d = "dir_slot dir v" and ?p = "phys_slot dir v"
  let ?m1 = "store32 (mem s) ?d ?T"
  let ?m2 = "memset ?m1 ?T 0 (of_nat 4096)"
  let ?m3 = "store32 ?m2 ?p (?T OR 7)"
  have al: "aligned4 ?d" "aligned4 ?p" using aligned4_slots [OF assms(2)] by blast+
  have T: "unat ?T = page_down x" using page_down_bounds(1) [of x] assms(5) by (intro unat_of_nat32) simp
  have "page_down x mod 4096 mod 4 = page_down x mod 4" by (rule mod_mod_cancel) simp
  then have aT: "aligned4 ?T" using page_down_bounds(3) [of x] by (simp add: aligned4_def T)
  have clear: "load32 ?m2 a = (if unat (a - ?T) < 4096 then 0 else load32 ?m1 a)" if "aligned4 a" for a
    using memset_word(1) [OF that aT, of 4096] by simp
  have "\<not> unat (?d - ?T) < 4096" using assms(6) [of ?d] by simp
  then have "load32 ?m2 ?d = ?T" using clear [OF al(1)] by simp
  then have d: "load32 ?m3 ?d = ?T" using al slots_differ [of dir v] by (simp add: load32_store32_aligned)
  have p: "load32 ?m3 ?p = ?T OR 7" by simp
  have "unat (?T AND mask 12) = 0"
    using page_down_bounds(3) [of x] by (simp add: take_bit_eq_mask [symmetric] unsigned_take_bit_eq T) (simp add: take_bit_eq_mod)
  then have T0: "?T AND mask 12 = 0" by (simp only: unat_eq_0)
  have "4096 \<le> page_down x" using assms(4) unfolding page_down_def by (simp add: Suc_le_eq div_greater_zero_iff)
  then have nz: "?T \<noteq> 0" using T by force
  have run: "get_page v True dir s = (load32 ?m3 ?d + 4 * table_index v,
      s\<lparr>placement_pointer := ?T + 4096, mem := ?m3\<rparr>)"
    using assms(1) kvmalloc_real_run [OF assms(3-5), of 4096 True]
    unfolding get_page_def address_split Let_def phys_slot_def [symmetric] kvmalloc_p_def sizeof_page_table_def
    unfolding dir_slot_def [symmetric] by simp
  have "table_ok ?m3 dir v" using d p nz T0 by (simp add: table_ok_def)
  moreover have "load32 ?m3 a = 0" if a: "aligned4 a" "unat (a - ?T) < 4096" for a
  proof -
    have "a \<noteq> ?p" using assms(6) [of ?p] a(2) by auto
    then show ?thesis using clear [OF a(1)] a al(2) by (simp add: load32_store32_aligned)
  qed
  moreover have "same_word (mem s) ?m3 a" if a: "aligned4 a" "4096 \<le> unat (a - ?T)" "a \<noteq> ?d" "a \<noteq> ?p" for a
    using same_word_trans [OF same_word_trans [OF same_word_store [OF a(1) al(1) a(3)]
        memset_word(2) [OF a(1) aT]] same_word_store [OF a(1) al(2) a(4)], of 4096] a(2) by simp
  ultimately show ?thesis using run d by (intro exI [of _ ?m3]) (simp add: entry_addr_def)
qed

section \<open>Moving the break\<close>

definition range_entries :: "'a mm_scheme \<Rightarrow> nat \<Rightarrow> nat \<Rightarrow> u32 list" where
  "range_entries s a n =
     map (\<lambda>i. entry_addr (mem s) (kernel_directory s) (of_nat (a + 4096 * i))) [0..<n]"

definition range_slots :: "'a mm_scheme \<Rightarrow> nat \<Rightarrow> nat \<Rightarrow> u32 set" where
  "range_slots s a n = (\<Union>i \<in> {..<n}. {dir_slot (kernel_directory s) (of_nat (a + 4096 * i)),
     phys_slot (kernel_directory s) (of_nat (a + 4096 * i))})"

text \<open>\<open>unmapped_range s a n\<close>: the \<open>n\<close> pages from \<open>a\<close> have tables but no frame yet, and neither the bitmap
  nor the entries lie over the directory slots of these pages.\<close>

definition unmapped_range :: "'a mm_scheme \<Rightarrow> nat \<Rightarrow> nat \<Rightarrow> bool" where
  "unmapped_range s a n \<longleftrightarrow> frames_ok s \<and> aligned4 (kernel_directory s) \<and> a + 4096 * n < 4294967296 \<and>
     distinct (range_entries s a n) \<and> (\<forall>p \<in> set (range_entries s a n). fresh_page s p) \<and>
     (\<forall>i < n. table_ok (mem s) (kernel_directory s) (of_nat (a + 4096 * i))) \<and>
     (\<forall>x \<in> range_slots s a n. \<not> in_bitmap s x \<and> x \<notin> set (range_entries s a n))"

lemma range_shift: "a + 4096 * Suc i = a + 4096 + 4096 * i"
  by simp

lemma range_entries_Suc:
  "range_entries s a (Suc n) = entry_addr (mem s) (kernel_directory s) (of_nat a) # range_entries s (a + 4096) n"
  unfolding range_entries_def upt_conv_Cons [OF zero_less_Suc] map_Suc_upt [symmetric] list.map map_map o_def
    range_shift by simp

lemma range_slots_Suc:
  "range_slots s a (Suc n) = {dir_slot (kernel_directory s) (of_nat a), phys_slot (kernel_directory s) (of_nat a)} \<union>
     range_slots s (a + 4096) n"
  unfolding range_slots_def lessThan_Suc_eq_insert_0 UN_insert image_image UN_extend_simps range_shift by simp


lemma entry_addr_cong:
  "load32 m' (dir_slot dir v) = load32 m (dir_slot dir v) \<Longrightarrow> entry_addr m' dir v = entry_addr m dir v"
  by (simp add: entry_addr_def)

text \<open>Giving the first page of a range its frame leaves the rest of the range unmapped.\<close>

lemma unmapped_range_step:
  assumes "unmapped_range s a (Suc n)" and "takes s (entry_addr (mem s) (kernel_directory s) (of_nat a)) f e s1"
  shows "unmapped_range s1 (a + 4096) n \<and> range_entries s1 (a + 4096) n = range_entries s (a + 4096) n \<and>
    kernel_directory s1 = kernel_directory s \<and> heap_end s1 = heap_end s"
proof -
  let ?p = "entry_addr (mem s) (kernel_directory s) (of_nat a)"
  obtain m where m: "s1 = s\<lparr>mem := m\<rparr>" using assms(2) unfolding takes_def by blast
  have same: "load32 (mem s1) x = load32 (mem s) x" if "aligned4 x" "x \<noteq> ?p" "\<not> in_bitmap s x" for x
    using assms(2) that by (auto simp: takes_def intro: same_word_load)
  have kd: "kernel_directory s1 = kernel_directory s" "heap_end s1 = heap_end s" by (simp_all add: m)
  note r = assms(1) [unfolded unmapped_range_def range_entries_Suc range_slots_Suc]
  have slot: "load32 (mem s1) x = load32 (mem s) x" if "x \<in> range_slots s (a + 4096) n" for x
  proof (rule same)
    show "aligned4 x" using that r aligned4_slots by (auto simp: range_slots_def)
    show "x \<noteq> ?p" "\<not> in_bitmap s x" using that r by auto
  qed
  have ents: "range_entries s1 (a + 4096) n = range_entries s (a + 4096) n"
    unfolding range_entries_def kd by (auto intro!: entry_addr_cong slot simp: range_slots_def)
  have slots: "range_slots s1 (a + 4096) n = range_slots s (a + 4096) n"
    unfolding range_slots_def kd ..
  have "fresh_page s1 q" if "q \<in> set (range_entries s (a + 4096) n)" for q
  proof -
    have "fresh_page s q" "q \<noteq> ?p" using that r by auto
    then show ?thesis
      using same [of q] takes_frame(3) [OF assms(2)] by (simp add: fresh_page_def)
  qed
  moreover have "table_ok (mem s1) (kernel_directory s) (of_nat (a + 4096 + 4096 * i))" if "i < n" for i
  proof -
    have "table_ok (mem s) (kernel_directory s) (of_nat (a + 4096 * Suc i))" using r that by blast
    moreover have "{dir_slot (kernel_directory s) (of_nat (a + 4096 + 4096 * i)),
        phys_slot (kernel_directory s) (of_nat (a + 4096 + 4096 * i))} \<subseteq> range_slots s (a + 4096) n"
      using that unfolding range_slots_def by blast
    ultimately show ?thesis unfolding range_shift using slot by (simp only: table_ok_def insert_subset simp_thms)
  qed
  moreover have "frames_ok s1" using takes_frame(1) [OF assms(2)] r by blast
  moreover have "a + 4096 + 4096 * n < 4294967296" using r by simp
  ultimately have "unmapped_range s1 (a + 4096) n"
    using r takes_frame(3) [OF assms(2)] unfolding unmapped_range_def ents slots kd by auto
  then show ?thesis using ents kd by blast
qed

text \<open>
  Two loops of the file give frames to all pages up to a limit: that of \<open>sbrk\<close>, up to the break, and that of
  \<open>paging_install\<close>, up to the placement pointer. Over pages that have their table each is one allocation of
  frames for the list of their entries.
\<close>

locale page_loop =
  fixes loop :: "u32 \<Rightarrow> 'a mm_scheme \<Rightarrow> ('a mm_scheme fault + unit \<times> 'a mm_scheme) option"
    and limit :: "'a mm_scheme \<Rightarrow> u32"
  assumes loop_page: "table_ok (mem s) (kernel_directory s) a \<Longrightarrow> a < limit s \<Longrightarrow>
      loop a s = (case alloc_frame (entry_addr (mem s) (kernel_directory s) a) False False s of
        Inl e \<Rightarrow> Some (Inl e) | Inr (_, s1) \<Rightarrow> loop (a + 0x1000) s1)"
    and loop_end: "\<not> a < limit s \<Longrightarrow> loop a s = Some (Inr ((), s))"
    and limit_mem: "limit (s\<lparr>mem := m\<rparr>) = limit s"
begin

lemma allocates:
  assumes "unmapped_range s a n" and "limit s = of_nat (a + 4096 * n)"
  shows "case alloc_all (frame_alloc False False) (range_entries s a n) s of
      Some s' \<Rightarrow> loop (of_nat a) s = Some (Inr ((), s'))
    | None \<Rightarrow> \<exists>e. loop (of_nat a) s = Some (Inl e)"
  using assms
proof (induction n arbitrary: a s)
  case 0
  then show ?case by (simp add: range_entries_def loop_end)
next
  case (Suc n)
  let ?p = "entry_addr (mem s) (kernel_directory s) (of_nat a)"
  have bound: "a + 4096 * Suc n < 4294967296" using Suc.prems(1) by (simp add: unmapped_range_def)
  then have "unat (of_nat a :: u32) = a" "unat (of_nat (a + 4096 * Suc n) :: u32) = a + 4096 * Suc n"
    by (auto intro!: unat_of_nat32 simp del: of_nat_add of_nat_mult)
  then have lt: "of_nat a < limit s" unfolding Suc.prems(2) by (simp only: word_less_nat_alt) simp
  have "table_ok (mem s) (kernel_directory s) (of_nat (a + 4096 * 0))"
    using Suc.prems(1) unfolding unmapped_range_def by blast
  then have tab: "table_ok (mem s) (kernel_directory s) (of_nat a)" by simp
  have fresh: "frames_ok s" "fresh_page s ?p"
    using Suc.prems(1) by (auto simp: unmapped_range_def range_entries_Suc)
  have step: "loop (of_nat a) s = (case alloc_frame ?p False False s of
      Inl e \<Rightarrow> Some (Inl e) | Inr (_, s3) \<Rightarrow> loop (of_nat (a + 4096)) s3)"
    unfolding of_nat_add of_nat_numeral by (rule loop_page [OF tab lt])
  show ?case
  proof (cases "alloc_frame ?p False False s")
    case (Inl e)
    then have "frame_alloc False False ?p s = None" by (simp add: frame_alloc_def)
    then show ?thesis using Inl by (simp add: step range_entries_Suc)
  next
    case (Inr r)
    obtain s1 where r: "r = ((), s1)" by (cases r) auto
    have fa: "frame_alloc False False ?p s = Some s1" using Inr r by (simp add: frame_alloc_def)
    obtain f e where t: "takes s ?p f e s1" using frame_alloc_Some [OF fresh fa] by blast
    note u = unmapped_range_step [OF Suc.prems(1) t]
    obtain m where "s1 = s\<lparr>mem := m\<rparr>" using t unfolding takes_def by blast
    then have "limit s1 = of_nat (a + 4096 + 4096 * n)" using Suc.prems(2) by (simp only: limit_mem range_shift)
    with Suc.IH [of s1 "a + 4096"] u show ?thesis
      by (simp only: step range_entries_Suc alloc_all.simps fa Inr r sum.case prod.case option.case)
  qed
qed

end

lemma get_page_table:
  "table_ok (mem s) (kernel_directory s) a \<Longrightarrow> get_page a b (kernel_directory s) s = (entry_addr (mem s) (kernel_directory s) a, s)"
  by (intro get_page_present) (simp add: table_ok_def)

interpretation heap_pages: page_loop sbrk_loop heap_end
proof
  fix s :: "'b mm_scheme" and a :: u32 and m
  show "\<not> a < heap_end s \<Longrightarrow> sbrk_loop a s = Some (Inr ((), s))" by (subst sbrk_loop.simps) simp
  show "heap_end (s\<lparr>mem := m\<rparr>) = heap_end s" by simp
  assume "table_ok (mem s) (kernel_directory s) a" "a < heap_end s"
  then show "sbrk_loop a s = (case alloc_frame (entry_addr (mem s) (kernel_directory s) a) False False s of
      Inl e \<Rightarrow> Some (Inl e) | Inr (_, s1) \<Rightarrow> sbrk_loop (a + 0x1000) s1)"
    by (subst sbrk_loop.simps) (simp add: get_page_table)
qed

interpretation kernel_pages: page_loop map_kernel_loop placement_pointer
proof
  fix s :: "'b mm_scheme" and a :: u32 and m
  show "\<not> a < placement_pointer s \<Longrightarrow> map_kernel_loop a s = Some (Inr ((), s))" by (subst map_kernel_loop.simps) simp
  show "placement_pointer (s\<lparr>mem := m\<rparr>) = placement_pointer s" by simp
  assume "table_ok (mem s) (kernel_directory s) a" "a < placement_pointer s"
  then show "map_kernel_loop a s = (case alloc_frame (entry_addr (mem s) (kernel_directory s) a) False False s of
      Inl e \<Rightarrow> Some (Inl e) | Inr (_, s1) \<Rightarrow> map_kernel_loop (a + 0x1000) s1)"
    by (subst map_kernel_loop.simps) (simp add: get_page_table)
qed

lemma page_offset:
  fixes v :: u32
  assumes "unat v mod 4096 = 0" and "x < 4096"
  shows "drop_bit 22 (v + of_nat x) = drop_bit 22 v" "drop_bit 12 (v + of_nat x) = drop_bit 12 v"
    "unat (v + of_nat x) mod 4096 = x"
proof -
  obtain q where q: "unat v = 4096 * q" using assms(1) by (metis mod_0_imp_dvd dvdE)
  have "4096 * q < 4294967296" using unat_u32_bound [of v] q by simp
  then have "q < 1048576" by simp
  then have u: "unat (v + of_nat x) = 4096 * q + x"
    using assms(2) q by (simp add: unat_add_small unat_of_nat32)
  have d: "(4096 * q + x) div 4096 = q" using assms(2) by simp
  then show "drop_bit 12 (v + of_nat x) = drop_bit 12 v"
    by (simp add: word_unat_eq_iff unat_drop_bit_word u q)
  have "(4096 * q + x) div 4194304 = (4096 * q + x) div 4096 div 1024" by (simp only: div_mult2_eq [symmetric]) simp
  also have "\<dots> = 4096 * q div 4096 div 1024" using d by simp
  also have "\<dots> = 4096 * q div 4194304" by (simp only: div_mult2_eq [symmetric]) simp
  finally show "drop_bit 22 (v + of_nat x) = drop_bit 22 v"
    by (simp add: word_unat_eq_iff unat_drop_bit_word u q)
  show "unat (v + of_nat x) mod 4096 = x" using assms(2) by (simp add: u)
qed

lemma mmu_walk_page:
  assumes "table_ok m dir v" and "pg_present (load32 m (entry_addr m dir v)) = 1"
    and "unat v mod 4096 = 0" and "x < 4096"
  shows "\<exists>p. mmu_walk m (dir + 4096) (v + of_nat x) = Some p \<and>
    unat p = 4096 * unat (pg_frame (load32 m (entry_addr m dir v))) + x"
proof -
  have same: "dir_slot dir (v + of_nat x) = dir_slot dir v" "phys_slot dir (v + of_nat x) = phys_slot dir v"
    "entry_addr m dir (v + of_nat x) = entry_addr m dir v"
    using page_offset [OF assms(3,4)] by (simp_all add: dir_slot_def phys_slot_def entry_addr_def table_index_def)
  have "table_ok m dir (v + of_nat x)" using assms(1) by (simp add: table_ok_def same)
  from mmu_walk_mapped [OF this] assms(2) show ?thesis
    by (simp add: same page_offset [OF assms(3,4)])
qed

lemma heap_end_view:
  "range_entries (s\<lparr>heap_end := h\<rparr>) = range_entries s" "in_bitmap (s\<lparr>heap_end := h\<rparr>) = in_bitmap s"
  "used (s\<lparr>heap_end := h\<rparr>) = used s" "capacity (s\<lparr>heap_end := h\<rparr>) = capacity s"
  "fresh_page (s\<lparr>heap_end := h\<rparr>) = fresh_page s" "range_slots (s\<lparr>heap_end := h\<rparr>) = range_slots s"
  "frames_ok (s\<lparr>heap_end := h\<rparr>) = frames_ok s"
  by (auto simp: range_entries_def in_bitmap_def used_def capacity_def fresh_page_def range_slots_def
      frames_ok_def fun_eq_iff)

text \<open>The break moves and every new page gets its frame: \<open>sbrk\<close> runs as one allocation over the page entries.\<close>

lemma sbrk_run:
  assumes "unmapped_range s a n" and "heap_end s = of_nat a" and "card (used s) + n \<le> capacity s"
  shows "\<exists>s'. alloc_all (frame_alloc False False) (range_entries s a n) (s\<lparr>heap_end := of_nat (a + 4096 * n)\<rparr>) = Some s' \<and>
    sbrk (of_nat (4096 * n)) s = Inr (of_nat a, s')"
proof -
  define h :: u32 where "h = of_nat (a + 4096 * n)"
  let ?s = "s\<lparr>heap_end := h\<rparr>" and ?ps = "range_entries s a n"
  have bound: "a + 4096 * n < 4294967296" using assms(1) by (simp add: unmapped_range_def)
  note view = heap_end_view [where s = s and h = h]
  have u: "unmapped_range ?s a n" using assms(1) unfolding unmapped_range_def view by simp
  have ok: "frames_ok ?s" "distinct ?ps" "\<forall>p \<in> set ?ps. fresh_page ?s p"
    using u by (simp_all add: unmapped_range_def view)
  have len: "length ?ps = n" by (simp add: range_entries_def)
  obtain s' where s': "alloc_all (frame_alloc False False) ?ps ?s = Some s'"
    using bitmap.allocs_succeed [OF ok] assms(3) by (auto simp: len view)
  have "sbrk_loop (of_nat a) ?s = Some (Inr ((), s'))"
    using heap_pages.allocates [OF u] s' by (simp add: view h_def [symmetric] del: of_nat_add)
  moreover have "(of_nat (4096 * n) :: u32) mod 0x1000 = 0"
  proof -
    have "unat (of_nat (4096 * n) :: u32) = 4096 * n" using bound by (intro unat_of_nat32) simp
    then have "unat ((of_nat (4096 * n) :: u32) mod 0x1000) = 0" by (simp add: unat_mod_distrib)
    then show ?thesis by (simp only: unat_eq_0)
  qed
  ultimately have "sbrk (of_nat (4096 * n)) s = Inr (of_nat a, s')"
    unfolding sbrk_def
    by (simp only: ASSERT_True res_bind_simps prod.case Let_def assms(2) of_nat_add [symmetric] h_def [symmetric]
        loop_result_simps simp_thms)
  then show ?thesis using s' unfolding h_def by blast
qed

text \<open>Once the entries of a range are filled, the processor translates its addresses to the frames in them.\<close>

lemma range_walk:
  assumes "unmapped_range s a n" and "a mod 4096 = 0" and "i < n" and "x < 4096"
    and "\<And>y. y \<in> range_slots s a n \<Longrightarrow> load32 m' y = load32 (mem s) y"
    and "pg_present (load32 m' (range_entries s a n ! i)) = 1"
  shows "\<exists>P. mmu_walk m' (kernel_directory s + 4096) (of_nat (a + 4096 * i) + of_nat x) = Some P \<and>
    unat P = 4096 * unat (pg_frame (load32 m' (range_entries s a n ! i))) + x"
proof -
  let ?v = "of_nat (a + 4096 * i) :: u32" and ?kd = "kernel_directory s"
  have slots: "dir_slot ?kd ?v \<in> range_slots s a n" "phys_slot ?kd ?v \<in> range_slots s a n"
    using assms(3) unfolding range_slots_def by blast+
  have p: "range_entries s a n ! i = entry_addr (mem s) ?kd ?v" using assms(3) by (simp add: range_entries_def)
  have t: "table_ok m' ?kd ?v" and e: "entry_addr m' ?kd ?v = range_entries s a n ! i"
    using assms(1,3) slots assms(5) unfolding p by (simp_all add: unmapped_range_def table_ok_def entry_addr_def)
  have "a + 4096 * n < 4294967296" using assms(1) by (simp add: unmapped_range_def)
  then have "unat ?v = a + 4096 * i" using assms(3) by (intro unat_of_nat32) simp
  then have "unat ?v mod 4096 = 0" using assms(2) by (simp add: mod_add_left_eq [symmetric])
  then show ?thesis using mmu_walk_page [OF t _ _ assms(4)] assms(6) by (simp add: e del: of_nat_add of_nat_mult)
qed

text \<open>What the rest of the kernel sees of it: the break, and changes to page entries and the bitmap only.\<close>

lemma sbrk_frame:
  assumes "unmapped_range s a n" and "heap_end s = of_nat a" and "card (used s) + n \<le> capacity s"
  shows "\<exists>m. sbrk (of_nat (4096 * n)) s = Inr (of_nat a, s\<lparr>heap_end := of_nat (a + 4096 * n), mem := m\<rparr>) \<and>
    (\<forall>w. aligned4 w \<and> w \<notin> set (range_entries s a n) \<and> \<not> in_bitmap s w \<longrightarrow> same_word (mem s) m w)"
proof -
  define h :: u32 where "h = of_nat (a + 4096 * n)"
  let ?s = "s\<lparr>heap_end := h\<rparr>" and ?ps = "range_entries s a n"
  note view = heap_end_view [where s = s and h = h]
  obtain s' where s': "alloc_all (frame_alloc False False) ?ps ?s = Some s'" "sbrk (of_nat (4096 * n)) s = Inr (of_nat a, s')"
    using sbrk_run [OF assms] unfolding h_def by blast
  have ok: "frames_ok ?s" "distinct ?ps" "\<forall>p \<in> set ?ps. fresh_page ?s p"
    using assms(1) by (simp_all add: unmapped_range_def view)
  note en = alloc_all_entries [OF ok s'(1)]
  then have "s' = s\<lparr>heap_end := h, mem := mem s'\<rparr>" by blast
  moreover have "\<forall>w. aligned4 w \<and> w \<notin> set ?ps \<and> \<not> in_bitmap s w \<longrightarrow> same_word (mem s) (mem s') w"
    using en by (simp add: view)
  ultimately show ?thesis using s'(2) unfolding h_def by metis
qed

section \<open>The page fault message\<close>

lemma page_fault_line:
  assumes "kio_ok s"
  shows "\<exists>s1. kprintf (c_lit (''Page fault! (p:%d,rw:%d,user:%d,res:%d) at 0x%x'' @ nl))
      [Karg_word (if err_code r AND 1 = 0 then 1 else 0), Karg_word (err_code r AND 2), Karg_word (err_code r AND 4),
       Karg_word (err_code r AND 8), Karg_word a] s = Inr ((), s1) \<and>
    says s (c_chars ''Page fault! (p:'' @ dec_chars (if bit (err_code r) 0 then 0 else 1) @ c_chars '',rw:'' @
      dec_chars (unat (err_code r AND 2)) @ c_chars '',user:'' @ dec_chars (unat (err_code r AND 4)) @
      c_chars '',res:'' @ dec_chars (unat (err_code r AND 8)) @ c_chars '') at 0x'' @ hex_chars (unat a) @ c_chars nl) s1"
proof -
  let ?p = "if err_code r AND 1 = 0 then 1 else 0 :: u32"
  let ?ps = "[Lit ''Page fault! (p:'', Dec ?p, Lit '',rw:'', Dec (err_code r AND 2), Lit '',user:'',
      Dec (err_code r AND 4), Lit '',res:'', Dec (err_code r AND 8), Lit '') at 0x'', Hex a, Lit nl]"
  have fmt: "c_lit (''Page fault! (p:%d,rw:%d,user:%d,res:%d) at 0x%x'' @ nl) = msg_fmt ?ps @ [0]"
    by (simp add: c_lit_def c_chars_def nl_def)
  have args: "[Karg_word ?p, Karg_word (err_code r AND 2), Karg_word (err_code r AND 4),
      Karg_word (err_code r AND 8), Karg_word a] = msg_args ?ps" by simp
  have "list_all piece_ok [Lit ''Page fault! (p:'', Lit '',rw:'', Lit '',user:'', Lit '',res:'', Lit '') at 0x'', Lit nl]"
    by code_simp
  then have ok: "list_all piece_ok ?ps" by simp
  have "sum_list (map piece_size ?ps) < 1024" by (simp add: nl_def)
  from message_says [OF assms ok this] obtain s1 where
    1: "kprintf (msg_fmt ?ps @ [0]) (msg_args ?ps) s = Inr ((), s1)" "says s (msg_out ?ps) s1" by blast
  have "(err_code r AND 1 = 0) = (\<not> bit (err_code r) 0)"
    by (simp add: and_one_eq bit_0 even_iff_mod_2_eq_zero)
  then have p: "unat ?p = (if bit (err_code r) 0 then 0 else 1)" by simp
  have out: "msg_out ?ps = c_chars ''Page fault! (p:'' @ dec_chars (if bit (err_code r) 0 then 0 else 1) @ c_chars '',rw:'' @
      dec_chars (unat (err_code r AND 2)) @ c_chars '',user:'' @ dec_chars (unat (err_code r AND 4)) @
      c_chars '',res:'' @ dec_chars (unat (err_code r AND 8)) @ c_chars '') at 0x'' @
      hex_chars (unat (a)) @ c_chars nl"
    by (simp only: msg_simps piece_out.simps p append_Nil2)
  show ?thesis using 1 unfolding fmt args out by blast
qed

section \<open>Properties\<close>

text \<open>A state with one table, at 0x400000, and the break at 0x5000.\<close>

definition pg0 :: mm where
  "pg0 = mm0\<lparr>mem := store32 (store32 (\<lambda>_. 0) 0x300000 0x400000) 0x301000 0x400007, heap_end := 0x5000\<rparr>"

lemma pg0_load:
  "aligned4 a \<Longrightarrow> load32 (mem pg0) a
    = (if a = 0x301000 then 0x400007 else if a = 0x300000 then 0x400000 else 0)"
  by (simp add: pg0_def load32_store32_aligned aligned4_def)

lemma pg0_fields: "frames pg0 = 0x200000" "nframes pg0 = 64" "kernel_directory pg0 = 0x300000"
  "heap_end pg0 = 0x5000" "capacity pg0 = 64"
  by (simp_all add: pg0_def mm0_fields capacity_def)

lemma pg0_bitmap: "in_bitmap pg0 a \<longleftrightarrow> a = 0x200000 \<or> a = 0x200004"
proof -
  have "(\<exists>i < 2. P i) = (P 0 \<or> P (1 :: nat))" for P by (auto simp: less_2_cases_iff)
  moreover have "unat (nframes pg0) div 32 = 2" by (simp add: pg0_fields)
  ultimately show ?thesis by (simp add: in_bitmap_def pg0_fields)
qed

lemma pg0_pool: "frames_ok pg0" "used pg0 = {}"
proof -
  show "frames_ok pg0" by (simp add: frames_ok_def pg0_fields aligned4_def)
  have "aligned4 (0x200000 :: u32)" by (simp add: aligned4_def)
  then have "\<not> frame_bit (mem pg0) 0x200000 f" if "f < 64" for f
  proof -
    have "f div 32 < 2" using that by (simp add: less_mult_imp_div_less)
    then have "f div 32 = 0 \<or> f div 32 = 1" by linarith
    then show ?thesis by (auto simp: frame_bit_def pg0_load aligned4_def)
  qed
  then show "used pg0 = {}" by (auto simp: used_def pg0_fields)
qed

lemma pg0_fresh:
  "aligned4 a \<Longrightarrow> a \<noteq> 0x301000 \<Longrightarrow> a \<noteq> 0x300000 \<Longrightarrow> a \<noteq> 0x200000 \<Longrightarrow> a \<noteq> 0x200004 \<Longrightarrow> fresh_page pg0 a"
  by (simp add: fresh_page_def pg0_bitmap pg0_load pg_frame_def get_field_def)

lemma pg0_table:
  assumes "unat v < 0x400000"
  shows "drop_bit 22 v = 0" "table_ok (mem pg0) 0x300000 v" "entry_addr (mem pg0) 0x300000 v = 0x400000 + 4 * drop_bit 12 v"
proof -
  show z: "drop_bit 22 v = 0" using assms by (simp add: word_unat_eq_iff unat_drop_bit_word)
  show "table_ok (mem pg0) 0x300000 v"
    using z by (simp add: table_ok_def dir_slot_def phys_slot_def pg0_load aligned4_def mask_eq_exp_minus_1)
  have "unat v div 4096 < 1024" using assms by (simp add: less_mult_imp_div_less)
  then have "table_index v = drop_bit 12 v"
    unfolding table_index_def take_bit_eq_mask [symmetric]
    by (simp add: word_unat_eq_iff unsigned_take_bit_eq unat_drop_bit_word take_bit_nat_eq_self)
  then show "entry_addr (mem pg0) 0x300000 v = 0x400000 + 4 * drop_bit 12 v"
    using z by (simp add: entry_addr_def dir_slot_def pg0_load aligned4_def)
qed

text \<open>C15. Mapping works: where a directory has a table for an address, \<open>get_page\<close> and \<open>alloc_frame\<close> together
  make the processor translate the address to the same offset in the least frame that was free.\<close>

theorem page_mapped:
  assumes "frames_ok s" and "aligned4 dir" and "table_ok (mem s) dir v"
    and "fresh_page s (entry_addr (mem s) dir v)" and "used s \<noteq> {..<capacity s}"
    and "\<forall>a \<in> {dir_slot dir v, phys_slot dir v}. \<not> in_bitmap s a \<and> a \<noteq> entry_addr (mem s) dir v"
  shows "\<exists>p s' f P. get_page v b dir s = (p, s) \<and> alloc_frame p k w s = Inr ((), s') \<and>
    f < capacity s \<and> f \<notin> used s \<and> (\<forall>g < f. g \<in> used s) \<and>
    mmu_walk (mem s') (dir + 4096) v = Some P \<and> unat P = 4096 * f + unat v mod 4096"
proof -
  let ?p = "entry_addr (mem s) dir v"
  obtain f where f: "first_frame s = of_nat f" "f < capacity s" "f \<notin> used s" "\<forall>g < f. g \<in> used s"
    using first_frame_least [OF assms(1)] assms(5) by blast
  obtain e s' where r: "alloc_frame ?p k w s = Inr ((), s')" "takes s ?p f e s'" "pg_present e = 1" "unat (pg_frame e) = f"
    using alloc_frame_takes [OF assms(1,4) f(1,2), of k w] by blast
  have slot: "load32 (mem s') a = load32 (mem s) a" if "a \<in> {dir_slot dir v, phys_slot dir v}" for a
    using that r(2) assms(6) aligned4_slots [OF assms(2)] by (auto simp: takes_def intro: same_word_load)
  have t: "table_ok (mem s') dir v" and e: "entry_addr (mem s') dir v = ?p"
    using assms(3) slot by (simp_all add: table_ok_def entry_addr_def)
  have "load32 (mem s') ?p = e" using r(2) by (simp add: takes_def)
  then obtain P where "mmu_walk (mem s') (dir + 4096) v = Some P" "unat P = 4096 * f + unat v mod 4096"
    using mmu_walk_mapped [OF t] r(3,4) by (auto simp: e)
  moreover have "get_page v b dir s = (?p, s)" using assms(3) by (intro get_page_present) (simp add: table_ok_def)
  ultimately show ?thesis using r(1) f by blast
qed

theorem page_mapped_witness:
  "\<exists>p s' P. get_page 0x5123 True 0x300000 pg0 = (p, pg0) \<and> alloc_frame p False True pg0 = Inr ((), s') \<and>
    mmu_walk (mem s') 0x301000 0x5123 = Some P \<and> unat P = 0x123"
proof -
  have v: "unat (0x5123 :: u32) < 0x400000" by simp
  have e: "entry_addr (mem pg0) 0x300000 0x5123 = 0x400014"
    using pg0_table(3) [OF v] by simp
  have "fresh_page pg0 (entry_addr (mem pg0) 0x300000 0x5123)"
    unfolding e by (rule pg0_fresh) (simp_all add: aligned4_def)
  moreover have "used pg0 \<noteq> {..<capacity pg0}"
  proof -
    have "0 \<in> {..<capacity pg0}" by (simp add: pg0_fields)
    then show ?thesis unfolding pg0_pool(2) by blast
  qed
  moreover have "\<forall>a \<in> {dir_slot 0x300000 0x5123, phys_slot 0x300000 0x5123}.
      \<not> in_bitmap pg0 a \<and> a \<noteq> entry_addr (mem pg0) 0x300000 0x5123"
    unfolding e by (simp add: dir_slot_def phys_slot_def pg0_bitmap)
  moreover have "aligned4 (0x300000 :: u32)" by (simp add: aligned4_def)
  ultimately obtain p s' f P where "get_page 0x5123 True 0x300000 pg0 = (p, pg0)"
    "alloc_frame p False True pg0 = Inr ((), s')" "\<forall>g < f. g \<in> used pg0"
    "mmu_walk (mem s') (0x300000 + 4096) 0x5123 = Some P" "unat P = 4096 * f + unat (0x5123 :: u32) mod 4096"
    using page_mapped [OF pg0_pool(1) _ pg0_table(2) [OF v], of True False True] by blast
  moreover from this(3) have "f = 0" by (auto simp: pg0_pool)
  ultimately show ?thesis by auto
qed

text \<open>Where the directory has no table, \<open>get_page\<close> makes one without its \<open>make\<close> flag never and with it
  always (placement pointer above the first page): the table is a cleared page that both the kernel's
  slot and the processor's slot now point to, and no other word of memory changes.\<close>

theorem get_page_new_table:
  assumes "load32 (mem s) (dir_slot dir v) = 0" and "aligned4 dir"
    and "placement_pointer s = of_nat x" and "4096 \<le> x" and "x < 4294967296"
    and "\<forall>a \<in> {dir_slot dir v, phys_slot dir v}. 4096 \<le> unat (a - of_nat (page_down x))"
  shows "get_page v False dir s = (0, s) \<and>
    (\<exists>s'. get_page v True dir s = (entry_addr (mem s') dir v, s') \<and> table_ok (mem s') dir v \<and>
      load32 (mem s') (dir_slot dir v) = of_nat (page_down x) \<and>
      placement_pointer s' = of_nat (page_down x) + 4096 \<and>
      (\<forall>a. aligned4 a \<and> unat (a - of_nat (page_down x)) < 4096 \<longrightarrow> load32 (mem s') a = 0) \<and>
      (\<forall>a. aligned4 a \<and> 4096 \<le> unat (a - of_nat (page_down x)) \<and> a \<noteq> dir_slot dir v \<and> a \<noteq> phys_slot dir v \<longrightarrow>
        same_word (mem s) (mem s') a))"
proof -
  obtain m' where m': "get_page v True dir s = (entry_addr m' dir v,
      s\<lparr>placement_pointer := of_nat (page_down x) + 4096, mem := m'\<rparr>)" "table_ok m' dir v"
    "load32 m' (dir_slot dir v) = of_nat (page_down x)"
    "\<forall>a. aligned4 a \<and> unat (a - of_nat (page_down x)) < 4096 \<longrightarrow> load32 m' a = 0"
    "\<forall>a. aligned4 a \<and> 4096 \<le> unat (a - of_nat (page_down x)) \<and> a \<noteq> dir_slot dir v \<and> a \<noteq> phys_slot dir v \<longrightarrow>
       same_word (mem s) m' a"
    using get_page_makes [OF assms(1-5)] assms(6) by blast
  show ?thesis
    using get_page_absent [OF assms(1)] m'
    by (intro conjI exI [of _ "s\<lparr>placement_pointer := of_nat (page_down x) + 4096, mem := m'\<rparr>"]) simp_all
qed

theorem get_page_new_table_witness:
  "\<exists>s'. get_page 0x400000 True 0x300000 mm0 = (0x10A000, s') \<and> table_ok (mem s') 0x300000 0x400000"
proof -
  have i: "drop_bit 22 (0x400000 :: u32) = 1" "table_index 0x400000 = 0"
    by (simp_all add: word_unat_eq_iff unat_drop_bit_word table_index_def mask_eq_exp_minus_1)
  have pd: "page_down 0x10A123 = 0x10A000" by (simp add: page_down_def)
  have al: "aligned4 (0x300000 :: u32)" by (simp add: aligned4_def)
  have slots: "\<forall>a \<in> {dir_slot 0x300000 0x400000, phys_slot 0x300000 0x400000}.
      4096 \<le> unat (a - of_nat (page_down 0x10A123))"
    by (simp add: pd dir_slot_def phys_slot_def i)
  have z: "load32 (mem mm0) (dir_slot 0x300000 0x400000) = 0" by (simp add: mm0_fields)
  have pp: "placement_pointer mm0 = of_nat 0x10A123" by (simp add: mm0_fields)
  have le: "4096 \<le> (0x10A123 :: nat)" "0x10A123 < (4294967296 :: nat)" by simp_all
  obtain s' where "get_page 0x400000 True 0x300000 mm0 = (entry_addr (mem s') 0x300000 0x400000, s')"
    "table_ok (mem s') 0x300000 0x400000" "load32 (mem s') (dir_slot 0x300000 0x400000) = of_nat (page_down 0x10A123)"
    using get_page_new_table [OF z al pp le slots] by blast
  then show ?thesis by (simp add: entry_addr_def i pd)
qed

text \<open>C10. Moving the break by \<open>n\<close> pages that have tables, with \<open>n\<close> frames free, returns the old break and backs
  the new pages with memory: the processor translates every byte of page \<open>i\<close> to the same offset of a
  frame \<open>fs ! i\<close>, the frames are pairwise different, none was in use, and apart from the page entries
  and the bitmap no word of memory changes.\<close>

theorem sbrk_backs_pages:
  assumes "unmapped_range s a n" and "heap_end s = of_nat a" and "a mod 4096 = 0"
    and "card (used s) + n \<le> capacity s"
  shows "\<exists>s' fs. sbrk (of_nat (4096 * n)) s = Inr (of_nat a, s') \<and> heap_end s' = of_nat (a + 4096 * n) \<and>
    length fs = n \<and> distinct fs \<and> set fs \<inter> used s = {} \<and> used s' = used s \<union> set fs \<and>
    (\<forall>i < n. \<forall>x < 4096. \<exists>P. mmu_walk (mem s') (kernel_directory s + 4096) (of_nat (a + 4096 * i) + of_nat x) = Some P \<and>
       unat P = 4096 * fs ! i + x) \<and>
    (\<forall>w. aligned4 w \<and> w \<notin> set (range_entries s a n) \<and> \<not> in_bitmap s w \<longrightarrow> same_word (mem s) (mem s') w)"
proof -
  define h :: u32 where "h = of_nat (a + 4096 * n)"
  let ?s = "s\<lparr>heap_end := h\<rparr>" and ?ps = "range_entries s a n" and ?kd = "kernel_directory s"
  note view = heap_end_view [where s = s and h = h]
  have ok: "frames_ok ?s" "distinct ?ps" "\<forall>p \<in> set ?ps. fresh_page ?s p"
    using assms(1) by (simp_all add: unmapped_range_def view)
  have len: "length ?ps = n" by (simp add: range_entries_def)
  obtain s' where s': "alloc_all (frame_alloc False False) ?ps ?s = Some s'" and run: "sbrk (of_nat (4096 * n)) s = Inr (of_nat a, s')"
    using sbrk_run [OF assms(1,2,4)] unfolding h_def by blast
  note fr = bitmap.allocs_frames [OF ok s'] and en = alloc_all_entries [OF ok s']
  have keep: "load32 (mem s') x = load32 (mem s) x" if "x \<in> range_slots s a n" for x
  proof -
    have "aligned4 x" "x \<notin> set ?ps" "\<not> in_bitmap ?s x"
      using that assms(1) aligned4_slots unfolding unmapped_range_def view by (auto simp: range_slots_def)
    then show ?thesis using en same_word_load [of "mem ?s" "mem s'" x] by simp
  qed
  let ?fs = "map (entry_frame s') ?ps"
  have walk: "\<exists>P. mmu_walk (mem s') (?kd + 4096) (of_nat (a + 4096 * i) + of_nat x) = Some P \<and>
      unat P = 4096 * ?fs ! i + x" if "i < n" "x < 4096" for i x
  proof -
    have "?ps ! i \<in> set ?ps" using that(1) len by simp
    then have "pg_present (load32 (mem s') (?ps ! i)) = 1" using en by blast
    then show ?thesis using range_walk [OF assms(1,3) that keep] that(1) len by (simp add: entry_frame_def)
  qed
  have "heap_end s' = of_nat (a + 4096 * n)"
  proof -
    have "heap_end s' = heap_end (?s\<lparr>mem := mem s'\<rparr>)" using conjunct1 [OF en] by (rule arg_cong)
    then show ?thesis by (simp add: h_def)
  qed
  moreover have "distinct ?fs \<and> set ?fs \<inter> used s = {} \<and> used s' = used s \<union> set ?fs"
    using fr by (simp only: view)
  moreover have "\<forall>w. aligned4 w \<and> w \<notin> set ?ps \<and> \<not> in_bitmap s w \<longrightarrow> same_word (mem s) (mem s') w"
    using en by (simp add: view)
  ultimately show ?thesis using run walk len by (intro exI [of _ s'] exI [of _ ?fs]) simp
qed

lemma pg0_range: "unmapped_range pg0 0x5000 2"
proof -
  have i: "[0..<2] = [0, 1 :: nat]" by (simp add: numeral_2_eq_2)
  have db: "drop_bit 12 (0x5000 :: u32) = 5" "drop_bit 12 (0x6000 :: u32) = 6"
    by (simp_all add: word_unat_eq_iff unat_drop_bit_word)
  have e: "range_entries pg0 0x5000 2 = [0x400014, 0x400018]"
    using pg0_table(3) [of "0x5000"] pg0_table(3) [of "0x6000"] db
    by (simp add: range_entries_def i pg0_fields)
  have r: "range_slots pg0 0x5000 2 = {0x300000, 0x301000}"
    using pg0_table(1) [of "0x5000"] pg0_table(1) [of "0x6000"]
    by (auto simp: range_slots_def pg0_fields dir_slot_def phys_slot_def less_2_cases_iff)
  have t: "table_ok (mem pg0) 0x300000 (of_nat (0x5000 + 4096 * i))" if "i < 2" for i
    using that pg0_table(2) [of "0x5000"] pg0_table(2) [of "0x6000"] by (auto simp: less_2_cases_iff)
  have f: "\<forall>p \<in> set [0x400014, 0x400018]. fresh_page pg0 p"
    by (auto intro!: pg0_fresh simp: aligned4_def)
  show ?thesis
    unfolding unmapped_range_def e r using t f pg0_pool(1)
    by (simp add: pg0_fields pg0_bitmap aligned4_def del: of_nat_add of_nat_mult)
qed

theorem sbrk_backs_pages_witness:
  "\<exists>s' fs. sbrk 0x2000 pg0 = Inr (0x5000, s') \<and> heap_end s' = 0x7000 \<and> length fs = 2 \<and> distinct fs \<and>
    used s' = set fs"
proof -
  have "heap_end pg0 = of_nat 0x5000" "0x5000 mod 4096 = (0 :: nat)" "card (used pg0) + 2 \<le> capacity pg0"
    by (simp_all add: pg0_fields pg0_pool)
  from sbrk_backs_pages [OF pg0_range this] obtain s' fs where
    "sbrk (of_nat (4096 * 2)) pg0 = Inr (of_nat 0x5000, s')" "heap_end s' = of_nat (0x5000 + 4096 * 2)"
    "length fs = 2" "distinct fs" "used s' = used pg0 \<union> set fs"
    by (elim exE conjE) blast
  then show ?thesis by (intro exI [of _ s'] exI [of _ fs]) (simp add: pg0_pool)
qed

text \<open>An increment that is not a whole number of pages stops the machine with the report of the failed
  assertion, and the break is not moved.\<close>

theorem sbrk_misaligned:
  assumes "unat n mod 4096 \<noteq> 0" and "kio_ok s"
  shows "\<exists>s'. sbrk n s = Inl (Halted s') \<and>
    panicked s (report ''ASSERTION FAILED! '' (c_lit ''increment % 0x1000 == 0'') (c_lit ''mem.c'') 253) s'"
proof -
  have "unat (n mod 0x1000) \<noteq> 0" using assms(1) by (simp add: unat_mod_distrib)
  then have nz: "n mod 0x1000 \<noteq> 0" by (metis unsigned_0)
  have "0 \<in> set (c_lit ''increment % 0x1000 == 0'')" "0 \<in> set (c_lit ''mem.c'')"
    "length (chars_upto_nul (c_lit ''increment % 0x1000 == 0'')) < 1000"
    "length (chars_upto_nul (c_lit ''mem.c'')) < 1000"
    by (simp add: c_lit_def, simp add: c_lit_def, code_simp, code_simp)
  from assert_failed_report [OF assms(2) this] obtain s' where
    "(assert_failed (c_lit ''mem.c'') 253 (c_lit ''increment % 0x1000 == 0'') s :: (unit, 'a mm_scheme) result)
      = Inl (Halted s')"
    "panicked s (report ''ASSERTION FAILED! '' (c_lit ''increment % 0x1000 == 0'') (c_lit ''mem.c'') 253) s'"
    by blast
  then show ?thesis using nz by (simp add: sbrk_def ASSERT_def)
qed

theorem sbrk_misaligned_witness: "\<exists>s'. sbrk 100 mm0 = Inl (Halted s') \<and> \<not> int_flag s'"
  using sbrk_misaligned [OF _ mm0_kio_ok, of 100] by (auto simp: panicked_def)

text \<open>\<open>paging_install\<close> always lays the page directory over the frame bitmap: it reserves one byte per
  word of the bitmap, and the directory starts on the page boundary at or below the end of that
  reservation, so the bitmap's words and the directory's 8196 bytes share addresses for every memory
  of at least 128 kB.\<close>

theorem paging_layout_overlaps:
  assumes "placement_pointer s = of_nat p" and "128 \<le> m" and "m < 4294967296"
    and "4096 \<le> p" and "p + m div 128 + 8196 < 4294967296"
  shows "\<exists>s' d. paging_layout (of_nat m) s = s' \<and> frames s' = of_nat p \<and> kernel_directory s' = of_nat d \<and>
    unat (nframes s') = m div 4 \<and> d mod 4096 = 0 \<and>
    {p..<p + 4 * (m div 4 div 32)} \<inter> {d..<d + 8196} \<noteq> {}"
proof -
  define n where "n = m div 128"
  define d where "d = page_down (p + n)"
  have n: "0 < n" unfolding n_def using assms(2) by (simp add: div_greater_zero_iff)
  note b = page_down_bounds [of "p + n", folded d_def]
  have "p + n \<in> {p..<p + 4 * n} \<inter> {d..<d + 8196}" using n b by auto
  then have ov: "{p..<p + 4 * n} \<inter> {d..<d + 8196} \<noteq> {}" by blast
  obtain mm where run: "paging_layout (of_nat m) s = s\<lparr>nframes := of_nat (m div 4),
      placement_pointer := of_nat (page_down (p + n) + 8196), frames := of_nat p,
      mem := memset mm (of_nat (page_down (p + n))) 0 8196,
      kernel_directory := of_nat (page_down (p + n)), current_directory := of_nat (page_down (p + n))\<rparr>"
    using paging_layout_run [OF assms(1) n_def assms(3)] assms(4,5) n_def by auto
  have "unat (of_nat (m div 4) :: u32) = m div 4" using assms(3) by (intro unat_of_nat32) simp
  moreover have "m div 4 div 32 = n" by (simp add: n_def div_mult2_eq [symmetric])
  ultimately show ?thesis
    using b(3) ov by (intro exI [of _ "paging_layout (of_nat m) s"] exI [of _ d]) (simp add: run d_def [symmetric])
qed

theorem paging_layout_overlaps_witness:
  "\<exists>d. kernel_directory (paging_layout 130048 (mm0\<lparr>placement_pointer := 0x10B060\<rparr>)) = of_nat d \<and>
    {0x10B060..<0x10B060 + 4064} \<inter> {d..<d + 8196} \<noteq> {}"
proof -
  have "placement_pointer (mm0\<lparr>placement_pointer := 0x10B060\<rparr>) = of_nat 0x10B060" by simp
  from paging_layout_overlaps [OF this, of 130048] show ?thesis by auto
qed

text \<open>C33. The overlap makes the directory point into nowhere: with the kernel's end page aligned, the
  96-byte copy of the multiboot header before the bitmap and less than 512 MB of memory, marking the
  very first frame used plants the value 1 as the table pointer of the addresses from 96 MB on, and
  \<open>get_page\<close> returns an address inside the first page of memory for them instead of null.\<close>

theorem bitmap_becomes_table:
  assumes "placement_pointer s = of_nat (e + 96)" and "e mod 4096 = 0" and "4096 \<le> e"
    and "128 \<le> m" and "m div 128 < 4000" and "e < 1073741824"
  shows "\<exists>s1. paging_layout (of_nat m) s = s1 \<and> kernel_directory s1 = of_nat e \<and>
    get_page 0x6000000 False (kernel_directory s1) s1 = (0, s1) \<and>
    get_page 0x6000000 False (kernel_directory s1) (set_frame 0 s1) = (1, set_frame 0 s1)"
proof -
  define n where "n = m div 128"
  have "m = 128 * n + m mod 128" unfolding n_def by (rule mult_div_mod_eq [symmetric])
  moreover have "m mod 128 < 128" by simp
  ultimately have m: "m < 4294967296" using assms(5) n_def by linarith
  obtain q where q: "e = 4096 * q" using assms(2) by (metis mod_0_imp_dvd dvdE)
  have "(4096 * q + (96 + n)) div 4096 = q" using assms(5) n_def by simp
  then have d: "page_down (e + 96 + n) = e" by (simp add: page_down_def q add.assoc)
  have x: "4096 \<le> e + 96 + n" "e + 96 + n + 8196 < 4294967296" using assms(3,5,6) n_def by simp_all
  obtain mm where run: "paging_layout (of_nat m) s = s\<lparr>nframes := of_nat (m div 4),
      placement_pointer := of_nat (e + 8196), frames := of_nat (e + 96),
      mem := memset mm (of_nat e) 0 8196, kernel_directory := of_nat e, current_directory := of_nat e\<rparr>"
    using paging_layout_run [OF assms(1) n_def m x] unfolding d by blast
  let ?s1 = "paging_layout (of_nat m) s"
  have "e mod 4096 mod 4 = e mod 4" by (rule mod_mod_cancel) simp
  then have e4: "e mod 4 = 0" using assms(2) by simp
  have ue: "unat (of_nat e :: u32) = e" using assms(6) by (intro unat_of_nat32) simp
  have al: "aligned4 (of_nat e)" using e4 by (simp add: aligned4_def ue)
  have "aligned4 (0x60 :: u32)" by (simp add: aligned4_def)
  then have al2: "aligned4 (of_nat e + 0x60)" using al by (rule aligned4_add [rotated])
  have slot: "dir_slot (of_nat e) 0x6000000 = of_nat e + 0x60"
    by (simp add: dir_slot_def word_unat_eq_iff unat_drop_bit_word)
  have idx: "table_index 0x6000000 = 0"
    by (simp add: table_index_def word_unat_eq_iff unat_drop_bit_word mask_eq_exp_minus_1)
  have z: "load32 (mem ?s1) (of_nat e + 0x60) = 0"
    using memset_word(1) [OF al2 al, of 8196] by (simp add: run)
  have f: "frames ?s1 = of_nat e + 0x60" "kernel_directory ?s1 = of_nat e" by (simp_all add: run)
  have sf: "set_frame 0 ?s1 = ?s1\<lparr>mem := store32 (mem ?s1) (of_nat e + 0x60) 1\<rparr>"
    by (simp add: set_frame_def Let_def INDEX_FROM_BIT_def OFFSET_FROM_BIT_def f z)
  have "get_page 0x6000000 False (of_nat e) ?s1 = (0, ?s1)"
    by (rule get_page_absent) (simp add: slot z)
  moreover have "get_page 0x6000000 False (of_nat e) (set_frame 0 ?s1) = (1, set_frame 0 ?s1)"
    using get_page_present [of "set_frame 0 ?s1" "of_nat e" "0x6000000" False]
    by (simp add: slot sf entry_addr_def idx)
  ultimately show ?thesis using f by auto
qed

theorem bitmap_becomes_table_witness:
  "fst (get_page 0x6000000 False 0x10B000
     (set_frame 0 (paging_layout 130048 (mm0\<lparr>placement_pointer := 0x10B060\<rparr>)))) = 1"
proof -
  have "placement_pointer (mm0\<lparr>placement_pointer := 0x10B060\<rparr>) = of_nat (0x10B000 + 96)" by simp
  from bitmap_becomes_table [OF this, of 130048] show ?thesis by auto
qed

text \<open>With the placement pointer at 0 the table is made at address 0, where the kernel takes it for missing.\<close>

lemma table_at_zero:
  assumes "placement_pointer s = 0" and "load32 (mem s) (dir_slot dir v) = 0" and "aligned4 dir"
    and "8192 \<le> unat (phys_slot dir v)"
  shows "\<exists>m3. get_page v True dir s = (4 * table_index v, s\<lparr>placement_pointer := 4096, mem := m3\<rparr>) \<and>
    load32 m3 (dir_slot dir v) = 0 \<and> (\<forall>a. aligned4 a \<and> unat a < 4096 \<longrightarrow> load32 m3 a = 0)"
proof -
  let ?d = "dir_slot dir v" and ?p = "phys_slot dir v"
  let ?m1 = "store32 (mem s) ?d 0"
  let ?m2 = "memset ?m1 0 0 (of_nat 4096)"
  have al: "aligned4 ?d" "aligned4 ?p" "aligned4 0" using aligned4_slots [OF assms(3)] by (simp_all add: aligned4_def)
  have clear: "load32 ?m2 a = (if unat a < 4096 then 0 else load32 ?m1 a)" if "aligned4 a" for a
    using memset_word(1) [OF that al(3), of 4096 ?m1] by simp
  have d0: "load32 ?m2 ?d = 0" using clear [OF al(1)] by simp
  then have d: "load32 (store32 ?m2 ?p 7) ?d = 0" using al slots_differ [of dir v] by (simp add: load32_store32_aligned)
  have k: "kvmalloc_p sizeof_page_table s = ((0, Some 0), s\<lparr>placement_pointer := 4096\<rparr>)"
    using assms(1) by (simp add: kvmalloc_p_def kmalloc_real_def sizeof_page_table_def Let_def)
  have "get_page v True dir s = (4 * table_index v, s\<lparr>placement_pointer := 4096, mem := store32 ?m2 ?p 7\<rparr>)"
    using assms(2) k d d0
    unfolding get_page_def address_split Let_def phys_slot_def [symmetric]
    unfolding dir_slot_def [symmetric] by simp
  moreover have "load32 (store32 ?m2 ?p 7) a = 0" if "aligned4 a" "unat a < 4096" for a
  proof -
    have "a \<noteq> ?p" using that(2) assms(4) by auto
    then show ?thesis using clear [OF that(1)] that al(2) by (simp add: load32_store32_aligned)
  qed
  ultimately show ?thesis using d by blast
qed

text \<open>After \<open>heap_install\<close> has zeroed the placement pointer, the first table \<open>sbrk\<close> needs is made twice:
  the first \<open>get_page\<close> puts it at address 0, which the directory cannot tell from no table, so the
  second puts another at 4096; that one is used, and the first 8192 bytes of memory are cleared.\<close>

theorem heap_first_table:
  assumes "placement_pointer s = 0" and "load32 (mem s) (dir_slot dir v) = 0" and "aligned4 dir"
    and "8192 \<le> unat (dir_slot dir v)" and "8192 \<le> unat (phys_slot dir v)"
  shows "\<exists>s1 s2. get_page v True dir s = (4 * table_index v, s1) \<and>
    load32 (mem s1) (dir_slot dir v) = 0 \<and>
    get_page v True dir s1 = (4096 + 4 * table_index v, s2) \<and> table_ok (mem s2) dir v \<and>
    placement_pointer s2 = 8192 \<and> (\<forall>a. aligned4 a \<and> unat a < 8192 \<longrightarrow> load32 (mem s2) a = 0)"
proof -
  let ?d = "dir_slot dir v" and ?p = "phys_slot dir v"
  obtain m3 where 1: "get_page v True dir s = (4 * table_index v, s\<lparr>placement_pointer := 4096, mem := m3\<rparr>)"
    "load32 m3 ?d = 0" "\<And>a. aligned4 a \<Longrightarrow> unat a < 4096 \<Longrightarrow> load32 m3 a = 0"
    using table_at_zero [OF assms(1-3,5)] by blast
  let ?s1 = "s\<lparr>placement_pointer := 4096, mem := m3\<rparr>"
  have far: "4096 \<le> unat (a - of_nat (page_down 4096))" if "a \<in> {?d, ?p}" for a
  proof -
    have "8192 \<le> unat a" using that assms(4,5) by auto
    then have "unat (a - 4096) = unat a - 4096" by (simp add: unat_sub word_le_nat_alt)
    then show ?thesis using \<open>8192 \<le> unat a\<close> by (simp add: page_down_def)
  qed
  obtain m' where 2: "get_page v True dir ?s1 = (entry_addr m' dir v,
      ?s1\<lparr>placement_pointer := of_nat (page_down 4096) + 4096, mem := m'\<rparr>)" "table_ok m' dir v"
    "load32 m' ?d = of_nat (page_down 4096)"
    "\<forall>a. aligned4 a \<and> unat (a - of_nat (page_down 4096)) < 4096 \<longrightarrow> load32 m' a = 0"
    "\<forall>a. aligned4 a \<and> 4096 \<le> unat (a - of_nat (page_down 4096)) \<and> a \<noteq> ?d \<and> a \<noteq> ?p \<longrightarrow>
       same_word (mem ?s1) m' a"
    using get_page_makes [of ?s1 dir v 4096] 1(2) assms(3) far by auto
  have pd: "of_nat (page_down 4096) = (4096 :: u32)" by (simp add: page_down_def)
  have low: "load32 m' a = 0" if a: "aligned4 a" "unat a < 8192" for a
  proof (cases "unat a < 4096")
    case True
    then have "4096 \<le> unat (a - 4096)" using unat_sub_mod [of a 4096] by simp
    moreover have "a \<noteq> ?d" "a \<noteq> ?p" using a(2) assms(4,5) by auto
    ultimately have "load32 m' a = load32 m3 a" using 2(5) a(1) by (auto simp: pd intro: same_word_load)
    then show ?thesis using 1(3) [OF a(1) True] by simp
  next
    case False
    then have "unat (a - 4096) < 4096" using a(2) by (simp add: unat_sub word_le_nat_alt)
    then show ?thesis using 2(4) a(1) by (simp add: pd)
  qed
  have e: "entry_addr m' dir v = 4096 + 4 * table_index v" using 2(3) by (simp add: entry_addr_def pd)
  have "load32 (mem ?s1) ?d = 0" using 1(2) by simp
  with 1(1) 2(1,2) low e show ?thesis
    by (intro exI [of _ ?s1] exI [of _ "?s1\<lparr>placement_pointer := of_nat (page_down 4096) + 4096, mem := m'\<rparr>"])
      (simp add: pd)
qed

theorem heap_first_table_witness:
  "\<exists>s1 s2. get_page 0x400000 True 0x300000 (heap_install mm0) = (0, s1) \<and>
    get_page 0x400000 True 0x300000 s1 = (4096, s2) \<and> load32 (mem s2) 0x24 = 0"
proof -
  have i: "drop_bit 22 (0x400000 :: u32) = 1" "table_index 0x400000 = 0"
    by (simp_all add: word_unat_eq_iff unat_drop_bit_word table_index_def mask_eq_exp_minus_1)
  have "placement_pointer (heap_install mm0) = 0" "load32 (mem (heap_install mm0)) (dir_slot 0x300000 0x400000) = 0"
    by (simp_all add: heap_install_def Let_def mm0_fields)
  moreover have "aligned4 (0x300000 :: u32)" "aligned4 (0x24 :: u32)" by (simp_all add: aligned4_def)
  moreover have "8192 \<le> unat (dir_slot 0x300000 0x400000)" "8192 \<le> unat (phys_slot 0x300000 0x400000)"
    by (simp_all add: dir_slot_def phys_slot_def i)
  ultimately show ?thesis
    using heap_first_table [of "heap_install mm0" "0x300000" "0x400000"] by (fastforce simp: i)
qed

text \<open>A page fault prints the bits of the error code (with \<open>p\<close> inverted: 1 when the page was absent)
  and the faulting address, then stops the machine with the report of the panic.\<close>

theorem page_fault_reports:
  assumes "kio_ok s"
  shows "\<exists>s1 s'. page_fault r s = Inl (Halted s') \<and>
    says s (c_chars ''Page fault! (p:'' @ dec_chars (if bit (err_code r) 0 then 0 else 1) @ c_chars '',rw:'' @
      dec_chars (unat (err_code r AND 2)) @ c_chars '',user:'' @ dec_chars (unat (err_code r AND 4)) @
      c_chars '',res:'' @ dec_chars (unat (err_code r AND 8)) @ c_chars '') at 0x'' @
      hex_chars (unat (cr2 s)) @ c_chars nl) s1 \<and>
    panicked s1 (report ''PANIC! '' (c_lit ''Page fault'') (c_lit ''mem.c'') 230) s'"
proof -
  obtain s1 where 1: "kprintf (c_lit (''Page fault! (p:%d,rw:%d,user:%d,res:%d) at 0x%x'' @ nl))
      [Karg_word (if err_code r AND 1 = 0 then 1 else 0), Karg_word (err_code r AND 2), Karg_word (err_code r AND 4),
       Karg_word (err_code r AND 8), Karg_word (cr2 s)] s = Inr ((), s1)"
    "says s (c_chars ''Page fault! (p:'' @ dec_chars (if bit (err_code r) 0 then 0 else 1) @ c_chars '',rw:'' @
      dec_chars (unat (err_code r AND 2)) @ c_chars '',user:'' @ dec_chars (unat (err_code r AND 4)) @
      c_chars '',res:'' @ dec_chars (unat (err_code r AND 8)) @ c_chars '') at 0x'' @ hex_chars (unat (cr2 s)) @ c_chars nl) s1"
    using page_fault_line [OF assms, of r "cr2 s"] by blast
  have m: "0 \<in> set (c_lit ''Page fault'')" "0 \<in> set (c_lit ''mem.c'')"
    "length (chars_upto_nul (c_lit ''Page fault'')) < 1000" "length (chars_upto_nul (c_lit ''mem.c'')) < 1000"
    by (simp add: c_lit_def, simp add: c_lit_def, code_simp, code_simp)
  have "kio_ok s1" using 1(2) by (simp add: says_def)
  from halt_and_catch_fire_report [OF this m] obtain s' where
    2: "(halt_and_catch_fire (c_lit ''Page fault'') (c_lit ''mem.c'') 230 s1 :: (unit, 'a mm_scheme) result) = Inl (Halted s')"
    "panicked s1 (report ''PANIC! '' (c_lit ''Page fault'') (c_lit ''mem.c'') 230) s'" by blast
  have run: "page_fault r s = Inl (Halted s')"
    unfolding page_fault_def Let_def 1(1) res_bind_simps prod.case by (rule 2(1))
  show ?thesis using run 1(2) 2(2) by blast
qed

theorem page_fault_reports_witness:
  "\<exists>s'. page_fault (regs0\<lparr>int_no := 14, err_code := 2\<rparr>) (mm0\<lparr>cr2 := 0xDEAD0000\<rparr>) = Inl (Halted s') \<and> attrib s' = 0x4E"
proof -
  have "kio_ok (mm0\<lparr>cr2 := 0xDEAD0000\<rparr>)" using mm0_kio_ok by (simp add: kio_ok_def console_ok_def)
  from page_fault_reports [OF this] obtain s1 s' where
    "page_fault (regs0\<lparr>int_no := 14, err_code := 2\<rparr>) (mm0\<lparr>cr2 := 0xDEAD0000\<rparr>) = Inl (Halted s')"
    "panicked s1 (report ''PANIC! '' (c_lit ''Page fault'') (c_lit ''mem.c'') 230) s'" by blast
  then show ?thesis by (auto simp only: panicked_def)
qed

end
