(* ===== verification/Paging_Install.thy ===== *)
theory Paging_Install
  imports Paging
begin

text \<open>
  \<open>paging_install\<close> of \<open>core/mem.c\<close> on the machines it works on: the directory lies on the page of the
  placement pointer, and the frame bitmap inside it ends before the entries of the processor. The low 4 MB then have
  one page table, right behind the directory; its first pages are mapped to the frames of the same numbers.
\<close>

section \<open>The low 4 MB\<close>

text \<open>\<open>low_map s e k\<close>: the directory at \<open>e\<close> has its first table at \<open>e + 8192\<close>, of whose 1024 entries the first \<open>k\<close> are
  mapped one to one and the others are empty, and the frames used are the first \<open>k\<close>.\<close>

definition low_entry :: "nat \<Rightarrow> nat \<Rightarrow> u32" where
  "low_entry e i = of_nat (e + 8192 + 4 * i)"

definition low_place :: "'a mm_scheme \<Rightarrow> nat \<Rightarrow> bool" where
  "low_place s e \<longleftrightarrow> kernel_directory s = of_nat e \<and> e mod 4096 = 0 \<and> 4096 \<le> e \<and> e + 12288 \<le> 4194304 \<and> frames_ok s \<and>
     unat (frames s) mod 4 = 0 \<and> e + 4 \<le> unat (frames s) \<and> unat (frames s) + 4 * (unat (nframes s) div 32) \<le> e + 4096"

definition low_map :: "'a mm_scheme \<Rightarrow> nat \<Rightarrow> nat \<Rightarrow> bool" where
  "low_map s e k \<longleftrightarrow> low_place s e \<and> k \<le> 1024 \<and> table_ok (mem s) (of_nat e) 0 \<and>
     load32 (mem s) (of_nat e) = of_nat (e + 8192) \<and> used s = {..<k} \<and>
     (\<forall>i < k. pg_present (load32 (mem s) (low_entry e i)) = 1 \<and> entry_frame s (low_entry e i) = i) \<and>
     (\<forall>i. k \<le> i \<and> i < 1024 \<longrightarrow> load32 (mem s) (low_entry e i) = 0)"

lemma low_slots:
  assumes "unat v < 4194304"
  shows "dir_slot d v = d" "phys_slot d v = d + 4096" "table_index v = of_nat (unat v div 4096)"
proof -
  have z: "drop_bit 22 v = 0" using assms by (simp add: word_unat_eq_iff unat_drop_bit_word)
  then show "dir_slot d v = d" "phys_slot d v = d + 4096" by (simp_all add: dir_slot_def phys_slot_def)
  have "unat v div 4096 < 1024" using assms by (simp add: less_mult_imp_div_less)
  then show "table_index v = of_nat (unat v div 4096)"
    unfolding table_index_def take_bit_eq_mask [symmetric]
    by (simp add: word_unat_eq_iff unsigned_take_bit_eq unat_drop_bit_word take_bit_nat_eq_self unat_of_nat32)
qed

lemma low_table: "unat v < 4194304 \<Longrightarrow> table_ok m d v = table_ok m d 0"
  by (simp add: table_ok_def low_slots)

lemma low_table_cong:
  "load32 m' d = load32 m d \<Longrightarrow> load32 m' (d + 4096) = load32 m (d + 4096) \<Longrightarrow> table_ok m' d 0 = table_ok m d 0"
  using low_slots(1,2) [of 0] by (simp add: table_ok_def)

lemma low_entry_addr:
  assumes "load32 m (of_nat e) = of_nat (e + 8192)" and "unat v < 4194304"
  shows "entry_addr m (of_nat e) v = low_entry e (unat v div 4096)"
  using assms by (simp add: entry_addr_def low_slots low_entry_def)

lemma low_page: "i < 1024 \<Longrightarrow> unat (of_nat (4096 * i) :: u32) = 4096 * i" "i < 1024 \<Longrightarrow> unat (of_nat (4096 * i) :: u32) < 4194304"
proof -
  assume i: "i < 1024"
  then show "unat (of_nat (4096 * i) :: u32) = 4096 * i" by (intro unat_of_nat32) simp
  then show "unat (of_nat (4096 * i) :: u32) < 4194304" using i by simp
qed

lemma unat_low_entry: "e + 12288 \<le> 4194304 \<Longrightarrow> i < 1024 \<Longrightarrow> unat (low_entry e i) = e + 8192 + 4 * i"
  unfolding low_entry_def by (intro unat_of_nat32) simp

text \<open>Neither the entries of the table nor the two slots of the directory lie in the bitmap.\<close>

lemma low_apart:
  assumes "low_place s e"
  shows "in_bitmap s a \<Longrightarrow> unat (frames s) \<le> unat a \<and> e + 4 \<le> unat a \<and> unat a < e + 4096" "aligned4 (of_nat e)"
    "unat (of_nat e :: u32) = e" "unat (of_nat e + 4096 :: u32) = e + 4096"
    "i < 1024 \<Longrightarrow> aligned4 (low_entry e i) \<and> \<not> in_bitmap s (low_entry e i)"
    "\<not> in_bitmap s (of_nat e)" "\<not> in_bitmap s (of_nat e + 4096)"
    "i < 1024 \<Longrightarrow> low_entry e i \<noteq> of_nat e \<and> low_entry e i \<noteq> of_nat e + 4096"
proof -
  have p: "e mod 4096 = 0" "e + 12288 \<le> 4194304" "e + 4 \<le> unat (frames s)"
    "unat (frames s) + 4 * (unat (nframes s) div 32) \<le> e + 4096"
    using assms by (simp_all add: low_place_def)
  show ue: "unat (of_nat e :: u32) = e" by (rule unat_of_nat32) (use p(2) in simp)
  show ue2: "unat (of_nat e + 4096 :: u32) = e + 4096" using p(2) ue by (subst unat_add_small) simp_all
  show bm: "unat (frames s) \<le> unat a \<and> e + 4 \<le> unat a \<and> unat a < e + 4096" if a: "in_bitmap s a" for a
  proof -
    obtain i where i: "i < unat (nframes s) div 32" "a = frames s + 4 * of_nat i" using a by (auto simp: in_bitmap_def)
    have b: "unat (frames s) + 4 * i < e + 4096" using i(1) p(4) by linarith
    have "unat (4 * of_nat i :: u32) = 4 * i" by (rule unat_4_of_nat) (use b p(2) in simp)
    then have "unat a = unat (frames s) + 4 * i" using b p(2) by (simp add: i(2) unat_add_small)
    then show ?thesis using b p(3) by simp
  qed
  show "\<not> in_bitmap s (of_nat e)" using bm [of "of_nat e"] ue by auto
  show "\<not> in_bitmap s (of_nat e + 4096)" using bm [of "of_nat e + 4096"] ue2 by auto
  have "e mod 4096 mod 4 = e mod 4" by (rule mod_mod_cancel) simp
  then have e4: "e mod 4 = 0" using p(1) by simp
  then show "aligned4 (of_nat e)" by (simp add: aligned4_def ue)
  assume i: "i < 1024"
  note ui = unat_low_entry [OF p(2) i]
  have "(e + 8192 + 4 * i) mod 4 = 0" using e4 by (simp add: mod_add_eq [symmetric, of "e + 8192"] mod_add_eq [symmetric, of e])
  moreover have "\<not> in_bitmap s (low_entry e i)" using bm [of "low_entry e i"] ui by auto
  ultimately show "aligned4 (low_entry e i) \<and> \<not> in_bitmap s (low_entry e i)" by (simp add: aligned4_def ui)
  show "low_entry e i \<noteq> of_nat e \<and> low_entry e i \<noteq> of_nat e + 4096" using ui ue ue2 by auto
qed

text \<open>The pages behind the mapped ones are a range that \<open>sbrk\<close>, or the loop of \<open>paging_install\<close>, can give frames to.\<close>

lemma low_entries:
  assumes "low_map s e k" and "k + n \<le> 1024"
  shows "range_entries s (4096 * k) n = map (low_entry e) [k..<k + n]"
proof -
  have p: "kernel_directory s = of_nat e" "load32 (mem s) (of_nat e) = of_nat (e + 8192)"
    using assms(1) by (simp_all add: low_map_def low_place_def)
  have "entry_addr (mem s) (of_nat e) (of_nat (4096 * k + 4096 * i)) = low_entry e (k + i)" if "i < n" for i
    using low_entry_addr [OF p(2), of "of_nat (4096 * (k + i))"] low_page [of "k + i"] that assms(2) by (simp add: distrib_left)
  then have "range_entries s (4096 * k) n = map (\<lambda>i. low_entry e (k + i)) [0..<n]" by (simp add: range_entries_def p(1))
  also have "\<dots> = map (low_entry e) (map (\<lambda>i. i + k) [0..<n])" by (simp add: add.commute)
  also have "map (\<lambda>i. i + k) [0..<n] = [k..<k + n]" by (simp add: map_add_upt add.commute)
  finally show ?thesis .
qed

lemma low_entries_distinct:
  assumes "e + 12288 \<le> 4194304" and "k + n \<le> 1024"
  shows "distinct (map (low_entry e) [k..<k + n])"
proof -
  have "inj_on (low_entry e) {k..<k + n}"
  proof (rule inj_onI)
    fix i j assume ij: "i \<in> {k..<k + n}" "j \<in> {k..<k + n}" "low_entry e i = low_entry e j"
    have "i < 1024" "j < 1024" using ij(1,2) assms(2) by simp_all
    with unat_low_entry [OF assms(1)] have "e + 8192 + 4 * i = e + 8192 + 4 * j" using ij(3) by metis
    then show "i = j" by simp
  qed
  then show ?thesis by (simp add: distinct_map)
qed

lemma low_slot_off:
  assumes "\<And>i. i < 1024 \<Longrightarrow> low_entry e i \<noteq> a" and "j \<le> 1024"
  shows "a \<notin> set (map (low_entry e) [k..<j])"
proof
  assume "a \<in> set (map (low_entry e) [k..<j])"
  then obtain i where "a = low_entry e i" "i < j" by auto
  then show False using assms(1) [of i] assms(2) by simp
qed

lemma low_unmapped:
  assumes "low_map s e k" and "k + n \<le> 1024"
  shows "unmapped_range s (4096 * k) n"
proof -
  have pl: "low_place s e" and m: "table_ok (mem s) (of_nat e) 0" "load32 (mem s) (of_nat e) = of_nat (e + 8192)"
    and z: "\<forall>i. k \<le> i \<and> i < 1024 \<longrightarrow> load32 (mem s) (low_entry e i) = 0"
    using assms(1) by (simp_all add: low_map_def)
  have pf: "frames_ok s" "kernel_directory s = of_nat e" "e + 12288 \<le> 4194304" using pl by (simp_all add: low_place_def)
  note ap = low_apart [OF pl]
  have slots: "dir_slot (of_nat e) (of_nat (4096 * k + 4096 * i)) = of_nat e"
    "phys_slot (of_nat e) (of_nat (4096 * k + 4096 * i)) = of_nat e + 4096" if "i < n" for i
    using low_slots(1,2) [of "of_nat (4096 * (k + i))"] low_page(2) [of "k + i"] that assms(2) by (simp_all add: distrib_left)
  have tabs: "table_ok (mem s) (of_nat e) (of_nat (4096 * k + 4096 * i))" if "i < n" for i
    using m(1) slots [OF that] low_slots(1,2) [of 0] by (simp add: table_ok_def)
  have "range_slots s (4096 * k) n \<subseteq> {of_nat e, of_nat e + 4096}"
    using slots unfolding range_slots_def pf(2) by blast
  moreover have "of_nat e \<notin> set (map (low_entry e) [k..<k + n])" "of_nat e + 4096 \<notin> set (map (low_entry e) [k..<k + n])"
    by (rule low_slot_off [OF _ assms(2)], use ap(8) in blast)+
  ultimately have "\<forall>x \<in> range_slots s (4096 * k) n. \<not> in_bitmap s x \<and> x \<notin> set (map (low_entry e) [k..<k + n])"
    using ap(6,7) by blast
  moreover have "fresh_page s (low_entry e i)" if "i \<in> {k..<k + n}" for i
    using z ap(5) [of i] that assms(2) by (simp add: fresh_page_def pg_frame_def get_field_def)
  ultimately show ?thesis
    using pf ap(2) tabs low_entries_distinct [OF pf(3) assms(2)] assms(2)
    unfolding unmapped_range_def low_entries [OF assms] by auto
qed

lemma low_alloc:
  assumes "low_map s e k" and "k + n \<le> 1024" and "k + n \<le> capacity s"
  shows "\<exists>s'. alloc_all (frame_alloc False False) (range_entries s (4096 * k) n) s = Some s' \<and> low_map s' e (k + n) \<and>
    s' = s\<lparr>mem := mem s'\<rparr> \<and>
    (\<forall>a. aligned4 a \<and> a \<notin> low_entry e ` {k..<k + n} \<and> \<not> in_bitmap s a \<longrightarrow> same_word (mem s) (mem s') a)"
proof -
  let ?ps = "map (low_entry e) [k..<k + n]"
  note ents = low_entries [OF assms(1,2)] and un = low_unmapped [OF assms(1,2), unfolded unmapped_range_def low_entries [OF assms(1,2)]]
  have pl: "low_place s e" "used s = {..<k}" using assms(1) by (simp_all add: low_map_def)
  note ap = low_apart [OF pl(1)]
  have ok: "frames_ok s" "distinct ?ps" "\<forall>p \<in> set ?ps. fresh_page s p" using un by simp_all
  have "card (used s) + length ?ps \<le> capacity s" using pl(2) assms(3) by simp
  then obtain s' where s': "alloc_all (frame_alloc False False) ?ps s = Some s'"
    using bitmap.allocs_succeed [OF ok] by blast
  note fr = bitmap.allocs_frames [OF ok s'] and en = alloc_all_entries [OF ok s']
  have least: "map (entry_frame s') ?ps = [k..<k + n]" using bitmap.allocs_least [OF ok s' pl(2)] by simp
  obtain m where m: "s' = s\<lparr>mem := m\<rparr>" using en by metis
  have same: "load32 m a = load32 (mem s) a" if "aligned4 a" "a \<notin> set ?ps" "\<not> in_bitmap s a" for a
    using en that unfolding m by (auto intro: same_word_load)
  have inj: "low_entry e i \<notin> set ?ps" if "i < 1024" "i \<notin> {k..<k + n}" for i
  proof
    assume "low_entry e i \<in> set ?ps"
    then obtain j where j: "low_entry e i = low_entry e j" "k \<le> j" "j < k + n" by auto
    have ee: "e + 12288 \<le> 4194304" using pl(1) by (simp add: low_place_def)
    have "e + 8192 + 4 * i = e + 8192 + 4 * j"
      using unat_low_entry [OF ee that(1)] unat_low_entry [OF ee, of j] j assms(2) by (metis order_less_le_trans)
    then show False using j(2,3) that(2) by simp
  qed
  have off: "of_nat e \<notin> set ?ps" "of_nat e + 4096 \<notin> set ?ps" by (rule low_slot_off [OF _ assms(2)], use ap(8) in blast)+
  have "aligned4 (of_nat e + 4096)" using ap(2) by (rule aligned4_add) (simp add: aligned4_def)
  then have dw: "load32 m (of_nat e) = load32 (mem s) (of_nat e)" "load32 m (of_nat e + 4096) = load32 (mem s) (of_nat e + 4096)"
    using same [OF ap(2) off(1) ap(6)] same [OF _ off(2) ap(7)] by blast+
  have keep: "load32 m (low_entry e i) = load32 (mem s) (low_entry e i)" if "i < 1024" "i \<notin> {k..<k + n}" for i
    by (rule same) (use ap(5) [OF that(1)] inj [OF that] in auto)
  have new: "pg_present (load32 m (low_entry e i)) = 1 \<and> entry_frame s' (low_entry e i) = i" if "i \<in> {k..<k + n}" for i
  proof -
    have "[k..<k + n] ! (i - k) = i" using that by simp
    moreover have "i - k < length [k..<k + n]" using that by auto
    ultimately have "map (entry_frame s') ?ps ! (i - k) = entry_frame s' (low_entry e i)" by (simp del: upt_Suc)
    then show ?thesis using least en that by (simp add: m)
  qed
  have old: "pg_present (load32 m (low_entry e i)) = 1 \<and> entry_frame s' (low_entry e i) = i" if "i < k" for i
    using assms(1) keep [of i] that by (simp add: low_map_def entry_frame_def m)
  have "low_place s' e" using pl(1) by (simp add: low_place_def frames_ok_def m)
  moreover have "table_ok m (of_nat e) 0" "load32 m (of_nat e) = of_nat (e + 8192)"
    using assms(1) low_table_cong [OF dw] by (simp_all only: low_map_def simp_thms dw(1))
  moreover have "used s' = {..<k + n}"
  proof -
    have "used s' = {..<k} \<union> set [k..<k + n]" using fr by (metis least pl(2))
    then show ?thesis by (simp add: ivl_disj_un lessThan_atLeast0)
  qed
  moreover have "pg_present (load32 m (low_entry e i)) = 1 \<and> entry_frame s' (low_entry e i) = i" if "i < k + n" for i
    using old new that by (cases "i < k") auto
  moreover have "load32 m (low_entry e i) = 0" if "k + n \<le> i" "i < 1024" for i
    using keep [of i] assms(1) that by (simp add: low_map_def)
  ultimately have "low_map s' e (k + n)" using assms(2) unfolding low_map_def by (simp add: m)
  then show ?thesis using s' en unfolding ents by auto
qed

text \<open>What the processor makes of it.\<close>

lemma low_walk:
  assumes "low_map s e k" and "unat v < 4194304"
  shows "mmu_walk (mem s) (of_nat e + 4096) v = (if unat v < 4096 * k then Some v else None)"
proof -
  let ?i = "unat v div 4096"
  have i: "?i < 1024" "(unat v < 4096 * k) = (?i < k)" using assms(2) by (simp_all add: less_mult_imp_div_less div_less_iff_less_mult mult.commute)
  have t: "table_ok (mem s) (of_nat e) v" "load32 (mem s) (of_nat e) = of_nat (e + 8192)"
    using assms(1) low_table [OF assms(2)] by (simp_all only: low_map_def simp_thms)
  note ea = low_entry_addr [OF t(2) assms(2)]
  show ?thesis
  proof (cases "?i < k")
    case True
    then have "pg_present (load32 (mem s) (low_entry e ?i)) = 1" "unat (pg_frame (load32 (mem s) (low_entry e ?i))) = ?i"
      using assms(1) by (simp_all add: low_map_def entry_frame_def)
    then obtain p where "mmu_walk (mem s) (of_nat e + 4096) v = Some p" "unat p = 4096 * ?i + unat v mod 4096"
      using mmu_walk_mapped [OF t(1)] by (auto simp: ea)
    moreover from this(2) have "p = v" by (simp add: word_unat_eq_iff)
    ultimately show ?thesis using True i(2) by simp
  next
    case False
    then have "load32 (mem s) (entry_addr (mem s) (of_nat e) v) = 0" using assms(1) i(1) by (simp add: low_map_def ea)
    moreover have "(load32 (mem s) (phys_slot (of_nat e) v) AND NOT (mask 12)) + 4 * table_index v = entry_addr (mem s) (of_nat e) v"
      using t(1) pde_bits(1) [of "load32 (mem s) (dir_slot (of_nat e) v)"] by (simp add: table_ok_def entry_addr_def)
    ultimately show ?thesis
      using False i(2) by (simp add: mmu_walk_def Let_def phys_slot_def [symmetric] table_index_def [symmetric])
  qed
qed

section \<open>Laying out and making the first table\<close>

lemma same_bytes:
  assumes "\<And>a. aligned4 a \<Longrightarrow> unat a < lo \<or> hi \<le> unat a \<Longrightarrow> same_word m m' a"
    and "lo mod 4 = 0" and "hi mod 4 = 0" and "unat x < lo \<or> hi \<le> unat x"
  shows "m' x = m x"
proof -
  define q where "q = 4 * (unat x div 4)"
  have q: "unat x = q + unat x mod 4" "q mod 4 = 0" unfolding q_def by simp_all
  have "unat x mod 4 < 4" by simp
  with q have "q \<le> unat x" "unat x < q + 4" by linarith+
  then have "q < lo \<or> hi \<le> q" using assms(2-4) q(2) by presburger
  moreover have u: "unat (of_nat q :: u32) = q" using q(1) unat_u32_bound [of x] by (intro unat_of_nat32) linarith
  ultimately have "same_word m m' (of_nat q)" using assms(1) [of "of_nat q"] q(2) by (simp add: aligned4_def)
  moreover have "x = of_nat q + of_nat (unat x mod 4)" using q(1) by (metis of_nat_add of_nat_unat ucast_id)
  ultimately show ?thesis unfolding same_word_def by (metis \<open>unat x mod 4 < 4\<close>)
qed

text \<open>The conditions on the machine: \<open>p\<close> is where the bitmap for \<open>m\<close> kB of memory goes, on the page \<open>e\<close>.\<close>

definition install_place :: "nat \<Rightarrow> nat \<Rightarrow> nat \<Rightarrow> bool" where
  "install_place e p m \<longleftrightarrow> e mod 4096 = 0 \<and> 4096 \<le> e \<and> e + 12288 \<le> 4194304 \<and> p mod 4 = 0 \<and> e + 4 \<le> p \<and>
     p + 4 * (m div 128) \<le> e + 4096 \<and> e div 4096 + 3 \<le> 32 * (m div 128)"

lemma install_layout:
  assumes "install_place e p m" and "placement_pointer s = of_nat p"
  shows "paging_layout (of_nat m) s = s\<lparr>nframes := of_nat (m div 4), placement_pointer := of_nat (e + 8196),
      frames := of_nat p, mem := memset (memset (mem s) (of_nat p) 0 (of_nat (m div 128))) (of_nat e) 0 8196,
      kernel_directory := of_nat e, current_directory := of_nat e\<rparr>"
proof -
  have i: "e mod 4096 = 0" "4096 \<le> e" "e + 12288 \<le> 4194304" "e + 4 \<le> p" "p + 4 * (m div 128) \<le> e + 4096"
    "e div 4096 + 3 \<le> 32 * (m div 128)"
    using assms(1) by (simp_all add: install_place_def)
  have "0 < m div 128" using i(6) by linarith
  then have n: "e \<le> p + m div 128" "p + m div 128 < e + 4096" using i(4,5) by linarith+
  have m: "m < 4294967296"
  proof -
    have "m div 128 < 4096" using i(4,5) by linarith
    then show ?thesis by (simp add: div_less_iff_less_mult)
  qed
  obtain q where q: "e = 4096 * q" using i(1) by (metis mod_0_imp_dvd dvdE)
  have "(p + m div 128) div 4096 = q" using n unfolding q by (intro div_nat_eqI) simp_all
  then have "page_down (p + m div 128) = e" by (simp add: page_down_def q)
  then show ?thesis
    using paging_layout_mem [OF assms(2) refl m] n i(2,3) by simp
qed

lemma unat_above:
  fixes x :: u32
  assumes "b < 4294967296"
  shows "b \<le> unat x \<Longrightarrow> unat (x - of_nat b) = unat x - b" "unat x < b \<Longrightarrow> unat (x - of_nat b) = unat x + 4294967296 - b"
proof -
  have u: "unat (of_nat b :: u32) = b" by (rule unat_of_nat32 [OF assms])
  note s = unat_sub_mod [of x "of_nat b", unfolded u]
  show "unat (x - of_nat b) = unat x - b" if "b \<le> unat x"
  proof -
    have "unat x + (4294967296 - b) = 4294967296 + (unat x - b)" using that assms by simp
    then have "unat (x - of_nat b) = (4294967296 + (unat x - b)) mod 4294967296" using s by (simp only:)
    also have "\<dots> = unat x - b" using unat_u32_bound [of x] by (subst mod_add_self1) (intro mod_less, linarith)
    finally show ?thesis .
  qed
  show "unat (x - of_nat b) = unat x + 4294967296 - b" if "unat x < b" using s that assms by simp
qed

lemma memset_outside:
  assumes "unat x < b \<or> b + n \<le> unat x" and "b + n < 2147483648"
  shows "memset m (of_nat b) 0 (of_nat n) x = m x"
proof -
  have b: "b < 4294967296" using assms(2) by simp
  have "nat (sint (of_nat n :: u32)) = n" using assms(2) by (simp add: sint_small unat_of_nat32)
  moreover have "\<not> unat (x - of_nat b) < n"
    using assms unat_above [OF b, of x] by (cases "unat x < b") simp_all
  ultimately show ?thesis by (simp add: memset_byte)
qed

text \<open>The memory after the layout, read by words.\<close>

lemma install_cleared:
  assumes "install_place e p m" and "aligned4 a"
  shows "e \<le> unat a \<Longrightarrow> unat a < e + 8196 \<Longrightarrow> load32 (memset m0 (of_nat e) 0 8196) a = 0"
    "unat a < e \<or> e + 12288 \<le> unat a \<Longrightarrow>
      same_word w (memset (memset w (of_nat p) 0 (of_nat (m div 128))) (of_nat e) 0 8196) a"
proof -
  have i: "e mod 4096 = 0" "e + 12288 \<le> 4194304" "e + 4 \<le> p" "p + 4 * (m div 128) \<le> e + 4096"
    using assms(1) by (simp_all add: install_place_def)
  have b: "e < 4294967296" using i(2) by simp
  have "e mod 4096 mod 4 = e mod 4" by (rule mod_mod_cancel) simp
  then have al: "aligned4 (of_nat e)" using i(1) unat_of_nat32 [OF b] by (simp add: aligned4_def)
  show "load32 (memset m0 (of_nat e) 0 8196) a = 0" if "e \<le> unat a" "unat a < e + 8196"
  proof -
    have "unat (a - of_nat e) < 8196" using unat_above(1) [OF b that(1)] that by linarith
    then show ?thesis using memset_word(1) [OF assms(2) al, of 8196 m0] by simp
  qed
  show "same_word w (memset (memset w (of_nat p) 0 (of_nat (m div 128))) (of_nat e) 0 8196) a"
    if a: "unat a < e \<or> e + 12288 \<le> unat a"
  proof -
    have "\<not> unat (a - of_nat e) < 8196" using a i(2) unat_above [OF b, of a] by (cases "unat a < e") simp_all
    then have "same_word (memset w (of_nat p) 0 (of_nat (m div 128)))
        (memset (memset w (of_nat p) 0 (of_nat (m div 128))) (of_nat e) 0 (of_nat 8196)) a"
      using memset_word(2) [OF assms(2) al, of 8196] by simp
    moreover have "same_word w (memset w (of_nat p) 0 (of_nat (m div 128))) a"
    proof -
      have "a + of_nat j = a + of_nat j \<and> (unat (a + of_nat j) < p \<or> p + m div 128 \<le> unat (a + of_nat j))" if "j < 4" for j
      proof -
        have "unat a mod 4 = 0" using assms(2) by (simp add: aligned4_def)
        moreover have "(4294967296 :: nat) mod 4 = 0" by simp
        ultimately have "unat a + 4 \<le> 4294967296" using unat_u32_bound [of a] by presburger
        then have "unat (a + of_nat j) = unat a + j" using that unat_of_nat32 [of j] by (subst unat_add_small) simp_all
        then show ?thesis using a i(3,4) that by auto
      qed
      then show ?thesis using i by (auto simp: same_word_def intro!: memset_outside)
    qed
    ultimately show ?thesis using same_word_trans by fastforce
  qed
qed

text \<open>The first \<open>get_page\<close> makes the table of the low 4 MB behind the directory.\<close>

lemma install_table:
  assumes "install_place e p m" and "placement_pointer s = of_nat p"
  shows "\<exists>m2. get_page 0 True (of_nat e) (paging_layout (of_nat m) s) =
      (entry_addr m2 (of_nat e) 0, (paging_layout (of_nat m) s)\<lparr>placement_pointer := of_nat (e + 12288), mem := m2\<rparr>) \<and>
    table_ok m2 (of_nat e) 0 \<and> load32 m2 (of_nat e) = of_nat (e + 8192) \<and>
    (\<forall>i < 1024. load32 m2 (low_entry e i) = 0) \<and>
    (\<forall>a. aligned4 a \<and> e < unat a \<and> unat a < e + 4096 \<longrightarrow> load32 m2 a = 0) \<and>
    (\<forall>a. aligned4 a \<and> (unat a < e \<or> e + 12288 \<le> unat a) \<longrightarrow> same_word (mem s) m2 a)"
proof -
  let ?s1 = "paging_layout (of_nat m) s"
  let ?M = "memset (memset (mem s) (of_nat p) 0 (of_nat (m div 128))) (of_nat e) 0 8196"
  note lay = install_layout [OF assms] and clr = install_cleared [OF assms(1)]
  have i: "e mod 4096 = 0" "4096 \<le> e" "e + 12288 \<le> 4194304" using assms(1) by (simp_all add: install_place_def)
  have ue: "unat (of_nat e :: u32) = e" by (rule unat_of_nat32) (use i(3) in simp)
  have "e mod 4096 mod 4 = e mod 4" by (rule mod_mod_cancel) simp
  then have al: "aligned4 (of_nat e)" using i(1) by (simp add: aligned4_def ue)
  have sl: "dir_slot (of_nat e) 0 = of_nat e" "phys_slot (of_nat e) 0 = of_nat e + 4096" using low_slots(1,2) [of 0] by simp_all
  have mem1: "mem ?s1 = ?M" "placement_pointer ?s1 = of_nat (e + 8196)" by (simp_all add: lay)
  have z: "load32 (mem ?s1) (dir_slot (of_nat e) 0) = 0"
    unfolding mem1 sl by (rule clr(1) [OF al]) (simp_all add: ue)
  obtain q where q: "e = 4096 * q" using i(1) by (metis mod_0_imp_dvd dvdE)
  have "(e + 8196) div 4096 = q + 2" unfolding q by (intro div_nat_eqI) simp_all
  then have pd: "page_down (e + 8196) = e + 8192" by (simp add: page_down_def q)
  have bt: "e + 8192 < 4294967296" using i(3) by simp
  have ue2: "unat (of_nat e + 4096 :: u32) = e + 4096" using i(3) ue by (subst unat_add_small) simp_all
  have far: "4096 \<le> unat (a - of_nat (page_down (e + 8196)))" if "unat a < e + 8192 \<or> e + 12288 \<le> unat a" for a :: u32
    using that unat_above [OF bt, of a] i(3) unfolding pd by (cases "unat a < e + 8192") (simp_all only:, linarith+)
  have sf: "4096 \<le> unat (a - of_nat (page_down (e + 8196)))" if "a \<in> {dir_slot (of_nat e) 0, phys_slot (of_nat e) 0}" for a
    by (rule far) (use that ue ue2 in \<open>auto simp: sl\<close>)
  have x: "4096 \<le> e + 8196" "e + 8196 < 4294967296" using i(3) by simp_all
  obtain m2 where m2: "get_page 0 True (of_nat e) ?s1 = (entry_addr m2 (of_nat e) 0,
      ?s1\<lparr>placement_pointer := of_nat (page_down (e + 8196)) + 4096, mem := m2\<rparr>)"
    "table_ok m2 (of_nat e) 0" "load32 m2 (dir_slot (of_nat e) 0) = of_nat (page_down (e + 8196))"
    "\<forall>a. aligned4 a \<and> unat (a - of_nat (page_down (e + 8196))) < 4096 \<longrightarrow> load32 m2 a = 0"
    "\<forall>a. aligned4 a \<and> 4096 \<le> unat (a - of_nat (page_down (e + 8196))) \<and> a \<noteq> dir_slot (of_nat e) 0 \<and>
       a \<noteq> phys_slot (of_nat e) 0 \<longrightarrow> same_word (mem ?s1) m2 a"
    using get_page_makes [OF z al mem1(2) x sf] by blast
  have keep: "same_word ?M m2 a" if "aligned4 a" "unat a < e + 8192 \<or> e + 12288 \<le> unat a" "unat a \<noteq> e" "unat a \<noteq> e + 4096" for a
    using m2(5) far [OF that(2)] that ue ue2 unfolding sl mem1 by metis
  have "load32 m2 (low_entry e i) = 0" if "i < 1024" for i
  proof -
    have u: "unat (low_entry e i) = e + 8192 + 4 * i" using unat_low_entry i(3) that by blast
    have "(e + 8192 + 4 * i) mod 4 = 0" using al ue by (simp add: aligned4_def mod_add_eq [symmetric, of "e + 8192"] mod_add_eq [symmetric, of e])
    then have "aligned4 (low_entry e i)" by (simp add: aligned4_def u)
    moreover have "unat (low_entry e i - of_nat (e + 8192)) < 4096" using unat_above(1) [OF bt, of "low_entry e i"] u that by simp
    ultimately show ?thesis using m2(4) unfolding pd by blast
  qed
  moreover have "load32 m2 a = 0" if "aligned4 a" "e < unat a" "unat a < e + 4096" for a
  proof -
    have "load32 m2 a = load32 ?M a" by (rule same_word_load [OF keep [OF that(1)]]) (use that in linarith)+
    also have "\<dots> = 0" by (rule clr(1) [OF that(1)]) (use that in linarith)+
    finally show ?thesis .
  qed
  moreover have "same_word (mem s) m2 a" if "aligned4 a" "unat a < e \<or> e + 12288 \<le> unat a" for a
    by (rule same_word_trans [OF clr(2) [OF that] keep [OF that(1)]]) (use that(2) in linarith)+
  moreover have "(of_nat (e + 8192) + 4096 :: u32) = of_nat (e + 12288)" by simp
  ultimately show ?thesis using m2(1-3) unfolding sl pd by (intro exI [of _ m2] conjI; simp only: simp_thms) blast+
qed

lemma install_first_map:
  assumes "install_place e p m" and "placement_pointer s = of_nat p"
  shows "\<exists>m2. let s2 = (paging_layout (of_nat m) s)\<lparr>placement_pointer := of_nat (e + 12288), mem := m2\<rparr> in
    map_kernel_loop 0 (paging_layout (of_nat m) s) = map_kernel_loop 0 s2 \<and> low_map s2 e 0 \<and> capacity s2 = 32 * (m div 128) \<and>
    (\<forall>a. aligned4 a \<and> e < unat a \<and> unat a < e + 4096 \<longrightarrow> load32 m2 a = 0) \<and>
    (\<forall>a. aligned4 a \<and> (unat a < e \<or> e + 12288 \<le> unat a) \<longrightarrow> same_word (mem s) m2 a)"
proof -
  let ?s1 = "paging_layout (of_nat m) s"
  have i: "e mod 4096 = 0" "4096 \<le> e" "e + 12288 \<le> 4194304" "p mod 4 = 0" "e + 4 \<le> p" "p + 4 * (m div 128) \<le> e + 4096"
    using assms(1) by (simp_all add: install_place_def)
  obtain m2 where m2: "get_page 0 True (of_nat e) ?s1 =
      (entry_addr m2 (of_nat e) 0, ?s1\<lparr>placement_pointer := of_nat (e + 12288), mem := m2\<rparr>)"
    "table_ok m2 (of_nat e) 0" "load32 m2 (of_nat e) = of_nat (e + 8192)" "\<forall>i < 1024. load32 m2 (low_entry e i) = 0"
    "\<forall>a. aligned4 a \<and> e < unat a \<and> unat a < e + 4096 \<longrightarrow> load32 m2 a = 0"
    "\<forall>a. aligned4 a \<and> (unat a < e \<or> e + 12288 \<le> unat a) \<longrightarrow> same_word (mem s) m2 a"
    using install_table [OF assms] by metis
  let ?s2 = "?s1\<lparr>placement_pointer := of_nat (e + 12288), mem := m2\<rparr>"
  note lay = install_layout [OF assms]
  have f: "kernel_directory ?s1 = of_nat e" "frames ?s2 = of_nat p" "nframes ?s2 = of_nat (m div 4)"
    "placement_pointer ?s1 = of_nat (e + 8196)" by (simp_all add: lay)
  have "m div 128 < 4096" using i(5,6) by linarith
  then have m4: "m div 4 < 1048576" by (simp add: div_less_iff_less_mult)
  then have nf: "unat (nframes ?s2) = m div 4" unfolding f by (intro unat_of_nat32) simp
  have nb: "unat (nframes ?s2) div 32 = m div 128" unfolding nf by (simp add: div_mult2_eq [symmetric])
  have up: "unat (of_nat p :: u32) = p" by (rule unat_of_nat32) (use i(3,6) in linarith)
  have pl: "low_place ?s2 e"
    using i m4 unfolding low_place_def frames_ok_def aligned4_def f(2) nf nb up by (simp add: lay div_mult2_eq [symmetric])
  note ap = low_apart [OF pl]
  have bit: "\<not> frame_bit m2 (of_nat p) f" if "f < capacity ?s2" for f
  proof -
    have "in_bitmap ?s2 (frames ?s2 + 4 * of_nat (f div 32))" by (rule in_bitmap_word [OF that])
    then have "e + 4 \<le> unat (frames ?s2 + 4 * of_nat (f div 32))" "unat (frames ?s2 + 4 * of_nat (f div 32)) < e + 4096"
      using ap(1) by blast+
    moreover have "aligned4 (of_nat p)" using i(4) up by (simp add: aligned4_def)
    then have "aligned4 (frames ?s2 + 4 * of_nat (f div 32))" unfolding f(2) by (rule aligned4_index)
    ultimately have "load32 m2 (frames ?s2 + 4 * of_nat (f div 32)) = 0" using m2(5) by force
    then show ?thesis unfolding frame_bit_def f(2) by simp
  qed
  have "used ?s2 = {}" using bit f(2) by (auto simp: used_def)
  then have low: "low_map ?s2 e 0" using pl m2(2-4) by (simp add: low_map_def)
  have "(0 :: u32) < placement_pointer ?s1" "(0 :: u32) < placement_pointer ?s2"
    using i(3) unat_of_nat32 [of "e + 8196"] unat_of_nat32 [of "e + 12288"] by (simp_all only: f word_less_nat_alt) simp_all
  moreover have "get_page 0 True (kernel_directory ?s2) ?s2 = (entry_addr m2 (of_nat e) 0, ?s2)"
    using get_page_table [of ?s2 0] m2(2) by (simp add: f(1) [simplified] lay)
  ultimately have "map_kernel_loop 0 ?s1 = map_kernel_loop 0 ?s2"
    using m2(1) by (subst (1 2) map_kernel_loop.simps) (simp only: f(1) if_True)
  moreover have "capacity ?s2 = 32 * (m div 128)" unfolding capacity_def nb ..
  ultimately show ?thesis using low m2(5,6) unfolding Let_def by blast
qed

text \<open>The whole loop: after the first iteration made the table, the others fill it.\<close>

lemma install_loop:
  assumes "install_place e p m" and "placement_pointer s = of_nat p"
  shows "\<exists>m'. let s' = s\<lparr>nframes := of_nat (m div 4), placement_pointer := of_nat (e + 12288), frames := of_nat p, mem := m',
      kernel_directory := of_nat e, current_directory := of_nat e\<rparr> in
    map_kernel_loop 0 (paging_layout (of_nat m) s) = Some (Inr ((), s')) \<and>
    low_map s' e (e div 4096 + 3) \<and> capacity s' = 32 * (m div 128) \<and>
    (\<forall>a. aligned4 a \<and> e < unat a \<and> unat a < p \<longrightarrow> load32 m' a = 0) \<and>
    (\<forall>a. aligned4 a \<and> (unat a < e \<or> e + 12288 \<le> unat a) \<longrightarrow> same_word (mem s) m' a)"
proof -
  let ?k = "e div 4096 + 3" and ?s1 = "paging_layout (of_nat m) s"
  obtain m2 where m2: "map_kernel_loop 0 ?s1 = map_kernel_loop 0 (?s1\<lparr>placement_pointer := of_nat (e + 12288), mem := m2\<rparr>)"
    "low_map (?s1\<lparr>placement_pointer := of_nat (e + 12288), mem := m2\<rparr>) e 0"
    "capacity (?s1\<lparr>placement_pointer := of_nat (e + 12288), mem := m2\<rparr>) = 32 * (m div 128)"
    "\<forall>a. aligned4 a \<and> e < unat a \<and> unat a < e + 4096 \<longrightarrow> load32 m2 a = 0"
    "\<forall>a. aligned4 a \<and> (unat a < e \<or> e + 12288 \<le> unat a) \<longrightarrow> same_word (mem s) m2 a"
    using install_first_map [OF assms] unfolding Let_def by blast
  define s2 where "s2 = ?s1\<lparr>placement_pointer := of_nat (e + 12288), mem := m2\<rparr>"
  note r = m2(1-3) [folded s2_def]
  have i: "e mod 4096 = 0" "e + 12288 \<le> 4194304" "?k \<le> 32 * (m div 128)" "p + 4 * (m div 128) \<le> e + 4096" "e \<le> p"
    using assms(1) by (simp_all add: install_place_def)
  obtain q where q: "e = 4096 * q" using i(1) by (metis mod_0_imp_dvd dvdE)
  have k: "4096 * ?k = e + 12288" and k2: "0 + ?k \<le> 1024" using i(2) by (simp_all add: q)
  have "0 + ?k \<le> capacity s2" using i(3) unfolding r(3) by simp
  from low_alloc [OF r(2) k2 this] obtain s3 where s3: "alloc_all (frame_alloc False False) (range_entries s2 0 ?k) s2 = Some s3"
    "low_map s3 e ?k" "s3 = s2\<lparr>mem := mem s3\<rparr>"
    "\<forall>a. aligned4 a \<and> a \<notin> low_entry e ` {0..<?k} \<and> \<not> in_bitmap s2 a \<longrightarrow> same_word m2 (mem s3) a"
    by (auto simp: s2_def)
  have pp: "placement_pointer s2 = of_nat (0 + 4096 * ?k)" unfolding k by (simp add: s2_def)
  have "map_kernel_loop (of_nat 0) s2 = Some (Inr ((), s3))"
    using kernel_pages.allocates [OF low_unmapped [OF r(2) k2] , simplified, OF pp [simplified]] s3(1) by simp
  then have loop: "map_kernel_loop 0 ?s1 = Some (Inr ((), s3))" using r(1) by simp
  note lay = install_layout [OF assms]
  have keep: "same_word m2 (mem s3) a" if "aligned4 a" "unat a < p \<or> e + 12288 \<le> unat a" for a
  proof -
    have "low_place s2 e" using r(2) by (simp add: low_map_def)
    moreover have "unat (of_nat p :: u32) = p" by (rule unat_of_nat32) (use i(2,4) in linarith)
    moreover have "frames s2 = of_nat p" using lay by (simp add: s2_def)
    ultimately have "\<not> in_bitmap s2 a" using low_apart(1) [of s2 e a] that(2) by auto
    moreover have "a \<notin> low_entry e ` {0..<?k}" using that(2) unat_low_entry [OF i(2)] k2 i(4) by fastforce
    ultimately show ?thesis using s3(4) that(1) by blast
  qed
  have "load32 (mem s3) a = 0" if "aligned4 a" "e < unat a" "unat a < p" for a
    using same_word_load [OF keep [OF that(1)]] m2(4) that i(4) by (metis add_leD1 less_le_trans)
  moreover have "same_word (mem s) (mem s3) a" if "aligned4 a" "unat a < e \<or> e + 12288 \<le> unat a" for a
  proof (rule same_word_trans [OF _ keep [OF that(1)]])
    show "same_word (mem s) m2 a" using m2(5) that by blast
    show "unat a < p \<or> e + 12288 \<le> unat a" using that(2) i(5) by auto
  qed
  moreover have "s3 = s\<lparr>nframes := of_nat (m div 4), placement_pointer := of_nat (e + 12288), frames := of_nat p, mem := mem s3,
      kernel_directory := of_nat e, current_directory := of_nat e\<rparr>"
  proof -
    have "s2\<lparr>mem := M\<rparr> = s\<lparr>nframes := of_nat (m div 4), placement_pointer := of_nat (e + 12288), frames := of_nat p, mem := M,
        kernel_directory := of_nat e, current_directory := of_nat e\<rparr>" for M
      by (rule mm.equality) (simp_all add: s2_def lay)
    then show ?thesis using s3(3) by metis
  qed
  note s3' = this
  moreover have "capacity s3 = 32 * (m div 128)" using r(3) by (subst s3(3)) (simp add: capacity_def)
  ultimately show ?thesis using loop s3(2) unfolding Let_def by (intro exI [of _ "mem s3"]) (simp only: s3' [symmetric], blast)
qed

lemma paging_install_run:
  assumes "install_place e p m" and "placement_pointer s = of_nat p" and "14 < length (isrs_routines s)"
  shows "\<exists>m'. let s' = s\<lparr>nframes := of_nat (m div 4), placement_pointer := of_nat (e + 12288), frames := of_nat p, mem := m',
      kernel_directory := of_nat e, current_directory := of_nat e, isrs_routines := (isrs_routines s)[14 := Some Page_fault],
      cr3 := of_nat e + 4096, cr0 := cr0 s OR 0x80000000\<rparr> in
    paging_install (of_nat m) s = Inr ((), s') \<and> low_map s' e (e div 4096 + 3) \<and> capacity s' = 32 * (m div 128) \<and>
    (\<forall>a. aligned4 a \<and> e < unat a \<and> unat a < p \<longrightarrow> load32 m' a = 0) \<and>
    (\<forall>a. aligned4 a \<and> (unat a < e \<or> e + 12288 \<le> unat a) \<longrightarrow> same_word (mem s) m' a)"
proof -
  let ?s3 = "\<lambda>m'. s\<lparr>nframes := of_nat (m div 4), placement_pointer := of_nat (e + 12288), frames := of_nat p, mem := m',
      kernel_directory := of_nat e, current_directory := of_nat e\<rparr>"
  let ?s' = "\<lambda>m'. s\<lparr>nframes := of_nat (m div 4), placement_pointer := of_nat (e + 12288), frames := of_nat p, mem := m',
      kernel_directory := of_nat e, current_directory := of_nat e, isrs_routines := (isrs_routines s)[14 := Some Page_fault],
      cr3 := of_nat e + 4096, cr0 := cr0 s OR 0x80000000\<rparr>"
  obtain m' where m': "map_kernel_loop 0 (paging_layout (of_nat m) s) = Some (Inr ((), ?s3 m'))" "low_map (?s3 m') e (e div 4096 + 3)"
    "capacity (?s3 m') = 32 * (m div 128)" "\<forall>a. aligned4 a \<and> e < unat a \<and> unat a < p \<longrightarrow> load32 m' a = 0"
    "\<forall>a. aligned4 a \<and> (unat a < e \<or> e + 12288 \<le> unat a) \<longrightarrow> same_word (mem s) m' a"
    using install_loop [OF assms(1,2)] unfolding Let_def by blast
  have "paging_install (of_nat m) s = Inr ((), ?s' m')"
    unfolding paging_install_def m'(1) loop_result_simps res_bind_simps prod.case
    by (subst (1) isrs_install_handler_def) (simp add: assms(3) switch_page_directory_def Let_def)
  moreover have "low_map (?s' m') e (e div 4096 + 3)"
    using m'(2) by (simp add: low_map_def low_place_def frames_ok_def used_def capacity_def entry_frame_def)
  moreover have "capacity (?s' m') = 32 * (m div 128)" using m'(3) by (simp add: capacity_def)
  ultimately show ?thesis using m'(4,5) unfolding Let_def by (intro exI [of _ m'] conjI)
qed

section \<open>Properties\<close>

text \<open>C9. Paging comes up. On a machine with the end of the kernel on a page boundary below 4 MB and at most 125 MB of
  memory, on which the bitmap fits before the processor's entries of the directory, \<open>paging_install\<close> returns
  with paging on and the page fault handler installed. Of the low 4 MB the processor then translates every address
  up to the end of the first page table to itself, and has no translation for the others; exactly the
  frames of the mapped pages are used, and no memory but that of the directory and the table has changed.\<close>

theorem paging_install_maps:
  assumes "install_place e p m" and "placement_pointer s = of_nat p" and "14 < length (isrs_routines s)"
  shows "\<exists>s'. paging_install (of_nat m) s = Inr ((), s') \<and> cr3 s' = of_nat e + 4096 \<and> bit (cr0 s') 31 \<and>
    isrs_routines s' ! 14 = Some Page_fault \<and>
    (\<forall>v. unat v < 4194304 \<longrightarrow> mmu_walk (mem s') (cr3 s') v = (if unat v < e + 12288 then Some v else None)) \<and>
    used s' = {..<(e + 12288) div 4096} \<and> (\<forall>x. unat x < e \<or> e + 12288 \<le> unat x \<longrightarrow> mem s' x = mem s x)"
proof -
  have "e mod 4096 = 0" using assms(1) by (simp add: install_place_def)
  then obtain q where q: "e = 4096 * q" by (metis mod_0_imp_dvd dvdE)
  have k: "4096 * (e div 4096 + 3) = e + 12288" "(e + 12288) div 4096 = e div 4096 + 3" by (simp_all add: q)
  define s' where "s' m' = s\<lparr>nframes := of_nat (m div 4), placement_pointer := of_nat (e + 12288), frames := of_nat p, mem := m',
      kernel_directory := of_nat e, current_directory := of_nat e, isrs_routines := (isrs_routines s)[14 := Some Page_fault],
      cr3 := of_nat e + 4096, cr0 := cr0 s OR 0x80000000\<rparr>" for m'
  obtain m' where m': "paging_install (of_nat m) s = Inr ((), s' m')" "low_map (s' m') e (e div 4096 + 3)"
    "\<And>a. aligned4 a \<Longrightarrow> unat a < e \<or> e + 12288 \<le> unat a \<Longrightarrow> same_word (mem s) m' a"
    using paging_install_run [OF assms] unfolding Let_def s'_def by blast
  have "(0x80000000 :: u32) = push_bit 31 1" by simp
  then have "bit (cr0 (s' m')) 31" by (simp add: s'_def bit_or_iff bit_push_bit_iff del: push_bit_numeral)
  moreover have "mem (s' m') x = mem s x" if "unat x < e \<or> e + 12288 \<le> unat x" for x
  proof -
    have "e mod 4 = 0" "(e + 12288) mod 4 = 0" by (simp_all add: q mod_mult_left_eq [of 4096, symmetric] mod_add_eq [symmetric, of "4096 * q"])
    then show ?thesis using same_bytes [OF m'(3) _ _ that] by (simp add: s'_def)
  qed
  moreover have "mmu_walk (mem (s' m')) (of_nat e + 4096) v = (if unat v < e + 12288 then Some v else None)" if "unat v < 4194304" for v
    using low_walk [OF m'(2) that] unfolding k .
  moreover have "used (s' m') = {..<e div 4096 + 3}" using m'(2) by (simp add: low_map_def)
  ultimately show ?thesis using m'(1) assms(3) by (intro exI [of _ "s' m'"]) (simp add: s'_def k(2))
qed

theorem paging_install_maps_witness:
  "\<exists>s'. paging_install 32768 (mm0\<lparr>placement_pointer := 0x10B060\<rparr>) = Inr ((), s') \<and>
    mmu_walk (mem s') (cr3 s') 0x10C123 = Some 0x10C123 \<and> mmu_walk (mem s') (cr3 s') 0x200000 = None"
proof -
  let ?s = "mm0\<lparr>placement_pointer := 0x10B060\<rparr>"
  have i: "install_place 0x10B000 0x10B060 32768" by (simp add: install_place_def)
  have p: "placement_pointer ?s = of_nat 0x10B060" by simp
  have l: "14 < length (isrs_routines ?s)" by (simp add: mm0_def kbd.defs kbd0_def timer.defs timer0_def
      intr.defs intr0_def desc.defs desc0_def kio.defs kio0_def console.defs console0_def machine.defs machine0_def)
  from paging_install_maps [OF i p l] obtain s' where s': "paging_install (of_nat 32768) ?s = Inr ((), s')" "cr3 s' = of_nat 0x10B000 + 4096"
    "\<And>v. unat v < 4194304 \<Longrightarrow> mmu_walk (mem s') (cr3 s') v = (if unat v < 0x10B000 + 12288 then Some v else None)"
    by blast
  show ?thesis using s'(1) s'(3) [of "0x10C123"] s'(3) [of "0x200000"] by (intro exI [of _ s']) simp
qed

end
