(* ===== verification/Bins.thy ===== *)
theory Bins
  imports Paging
begin

text \<open>
  The building blocks of the heap allocator (\<open>core/alloc.c\<close>): the size classes, the list of pages of
  a class, the stack of free cells inside a page, and the random levels of the skip list. A header is
  a structure in memory: \<open>next\<close> at 0, \<open>head\<close> at 4, \<open>size\<close> at 8; a big one goes on with \<open>prev\<close> at 12 and
  \<open>forward[i]\<close> at \<open>16 + 4 i\<close>, 44 bytes in all.
\<close>

section \<open>State\<close>

text \<open>
  \<open>bin_head\<close> is \<open>klmalloc_bin_head\<close>, the first page of each of the ten small classes; \<open>big_head\<close> is the
  address the linker gave \<open>klmalloc_big_bins.head\<close>, \<open>big_level\<close> its level; \<open>skip_rng\<close> the four static
  words of \<open>klmalloc_skip_rand\<close>.
\<close>

record heap = mm +
  bin_head :: "u32 list"
  big_head :: u32
  big_level :: nat
  newest_big :: u32
  skip_rng :: "u32 \<times> u32 \<times> u32 \<times> u32"

section \<open>Constants\<close>

text \<open>Neither \<open>SIZE_MAX\<close> nor \<open>UINT32_MAX\<close> is defined, so the preprocessor takes the 32-bit branch.\<close>

definition NUM_BINS :: u32 where
  "NUM_BINS = 11"

definition SMALLEST_BIN_LOG :: u32 where
  "SMALLEST_BIN_LOG = 2"

definition BIG_BIN :: u32 where
  "BIG_BIN = NUM_BINS - 1"

definition PAGE_SIZE :: u32 where
  "PAGE_SIZE = 0x1000"

definition PAGE_MASK :: u32 where
  "PAGE_MASK = PAGE_SIZE - 1"

definition SKIP_P :: u32 where
  "SKIP_P = 0x7FFFFFFF"

definition SKIP_MAX_LEVEL :: nat where
  "SKIP_MAX_LEVEL = 6"

definition sizeof_bin_header :: u32 where
  "sizeof_bin_header = 12"

definition sizeof_big_bin_header :: u32 where
  "sizeof_big_bin_header = 44"

section \<open>Size classes\<close>

text \<open>\<open>__builtin_clzl\<close>: the number of leading zero bits.\<close>

definition clz :: "u32 \<Rightarrow> u32" where
  "clz w = of_nat (length (takeWhile (\<lambda>i. \<not> bit w i) (rev [0..<32])))"

definition klmalloc_adjust_bin :: "u32 \<Rightarrow> u32" where
  "klmalloc_adjust_bin bin =
     (if bin \<le> SMALLEST_BIN_LOG then 0
      else let bin1 = bin - (SMALLEST_BIN_LOG + 1) in
        if BIG_BIN < bin1 then BIG_BIN else bin1)"

definition klmalloc_bin_size :: "u32 \<Rightarrow> u32" where
  "klmalloc_bin_size sz =
     (let bin = 32 - clz sz;
          bin1 = bin + (if sz AND (sz - 1) \<noteq> 0 then 1 else 0)
      in klmalloc_adjust_bin bin1)"

section \<open>Fields\<close>

definition next_of :: "mem \<Rightarrow> u32 \<Rightarrow> u32" where
  "next_of m n = load32 m n"

definition head_of :: "mem \<Rightarrow> u32 \<Rightarrow> u32" where
  "head_of m n = load32 m (n + 4)"

definition size_of :: "mem \<Rightarrow> u32 \<Rightarrow> u32" where
  "size_of m n = load32 m (n + 8)"

definition prev_of :: "mem \<Rightarrow> u32 \<Rightarrow> u32" where
  "prev_of m n = load32 m (n + 12)"

definition forward_at :: "u32 \<Rightarrow> nat \<Rightarrow> u32" where
  "forward_at n i = n + 16 + 4 * of_nat i"

definition forward_of :: "mem \<Rightarrow> u32 \<Rightarrow> nat \<Rightarrow> u32" where
  "forward_of m n i = load32 m (forward_at n i)"

definition put_word :: "u32 \<Rightarrow> u32 \<Rightarrow> 'a heap_scheme \<Rightarrow> 'a heap_scheme" where
  "put_word a v s = s\<lparr>mem := store32 (mem s) a v\<rparr>"

section \<open>The list of pages of a class\<close>

definition klmalloc_list_decouple :: "nat \<Rightarrow> u32 \<Rightarrow> 'a heap_scheme \<Rightarrow> 'a heap_scheme" where
  "klmalloc_list_decouple head node s =
     (let nxt = next_of (mem s) node;
          s1 = s\<lparr>bin_head := (bin_head s)[head := nxt]\<rparr>
      in put_word node 0 s1)"

definition klmalloc_list_insert :: "nat \<Rightarrow> u32 \<Rightarrow> 'a heap_scheme \<Rightarrow> (unit, 'a heap_scheme) result" where
  "klmalloc_list_insert head node s =
     (if head < length (bin_head s) then
        let s1 = put_word node (bin_head s ! head) s
        in Inr ((), s1\<lparr>bin_head := (bin_head s1)[head := node]\<rparr>)
      else Inl Buffer_overflow)"

definition klmalloc_list_head :: "nat \<Rightarrow> 'a heap_scheme \<Rightarrow> u32" where
  "klmalloc_list_head head s = bin_head s ! head"

section \<open>The stack of free cells\<close>

definition klmalloc_stack_pop :: "u32 \<Rightarrow> 'a heap_scheme \<Rightarrow> (u32, 'a heap_scheme) result" where
  "klmalloc_stack_pop header s =
     res_bind (ASSERT (header \<noteq> 0) ''alloc.c'' 462 ''header'' s) (\<lambda>(_, s1).
     res_bind (ASSERT (head_of (mem s1) header \<noteq> 0) ''alloc.c'' 463 ''header->head != NULL'' s1) (\<lambda>(_, s2).
     let item = head_of (mem s2) header;
         nxt = load32 (mem s2) item
     in Inr (item, put_word (header + 4) nxt s2)))"

definition klmalloc_stack_push :: "u32 \<Rightarrow> u32 \<Rightarrow> 'a heap_scheme \<Rightarrow> (unit, 'a heap_scheme) result" where
  "klmalloc_stack_push header ptr s =
     res_bind (ASSERT (ptr \<noteq> 0) ''alloc.c'' 484 ''ptr != NULL'' s) (\<lambda>(_, s1).
     let s2 = put_word ptr (head_of (mem s1) header) s1
     in Inr ((), put_word (header + 4) ptr s2))"

definition klmalloc_stack_empty :: "u32 \<Rightarrow> 'a heap_scheme \<Rightarrow> bool" where
  "klmalloc_stack_empty header s \<longleftrightarrow> head_of (mem s) header = 0"

section \<open>Random levels\<close>

fun skip_rng_step :: "u32 \<times> u32 \<times> u32 \<times> u32 \<Rightarrow> u32 \<times> (u32 \<times> u32 \<times> u32 \<times> u32)" where
  "skip_rng_step (x, y, z, w) =
     (let t = x XOR push_bit 11 x;
          w1 = w XOR drop_bit 19 w XOR t XOR drop_bit 8 t
      in (w1, (y, z, w, w1)))"

definition klmalloc_skip_rand :: "'a heap_scheme \<Rightarrow> u32 \<times> 'a heap_scheme" where
  "klmalloc_skip_rand s = (let (r, rng) = skip_rng_step (skip_rng s) in (r, s\<lparr>skip_rng := rng\<rparr>))"

function random_level_loop :: "nat \<Rightarrow> 'a heap_scheme \<Rightarrow> nat \<times> 'a heap_scheme" where
  "random_level_loop level s =
     (let (r, s1) = klmalloc_skip_rand s in
      if r < SKIP_P \<and> level < SKIP_MAX_LEVEL then random_level_loop (level + 1) s1 else (level, s1))"
  by pat_completeness auto
termination
  by (relation "measure (\<lambda>(level, s). SKIP_MAX_LEVEL - level)") auto

declare random_level_loop.simps [simp del]

definition klmalloc_random_level :: "'a heap_scheme \<Rightarrow> nat \<times> 'a heap_scheme" where
  "klmalloc_random_level s = random_level_loop 0 s"

section \<open>Bit lengths\<close>

lemma top_bit:
  fixes w :: u32
  assumes "w \<noteq> 0"
  obtains h where "h < 32" and "bit w h" and "\<And>i. h < i \<Longrightarrow> \<not> bit w i"
proof -
  have fin: "finite {i. bit w i}"
    by (rule finite_subset [of _ "{..<32}"]) (auto dest: bit_imp_le_length)
  have ne: "{i. bit w i} \<noteq> {}" using assms by (auto simp: bit_eq_iff)
  show ?thesis
  proof
    show "bit w (Max {i. bit w i})" using Max_in [OF fin ne] by simp
    then show "Max {i. bit w i} < 32" by (auto dest: bit_imp_le_length)
    show "\<not> bit w i" if "Max {i. bit w i} < i" for i using Max_ge [OF fin, of i] that by (meson linorder_not_less mem_Collect_eq)
  qed
qed

lemma bit_nat: "bit w h \<longleftrightarrow> odd (unat (w :: u32) div 2 ^ h)"
proof -
  have "bit w h \<longleftrightarrow> bit (unat w) h"
    using bit_imp_le_length [of w h] by (auto simp: bit_unsigned_iff)
  then show ?thesis by (simp only: bit_iff_odd)
qed

lemma top_bit_bounds:
  fixes w :: u32
  assumes "bit w h" and "\<And>i. h < i \<Longrightarrow> \<not> bit w i"
  shows "2 ^ h \<le> unat w" "unat w < 2 * 2 ^ h"
proof -
  have "drop_bit (Suc h) w = 0" using assms(2) by (intro bit_word_eqI) (simp add: bit_drop_bit_eq)
  then have "unat w div 2 ^ Suc h = 0" by (metis unat_drop_bit_word unsigned_0)
  then show "unat w < 2 * 2 ^ h" by (simp add: div_eq_0_iff)
  have "odd (unat w div 2 ^ h)" using assms(1) bit_nat by blast
  then have "unat w div 2 ^ h \<noteq> 0" by (metis dvd_0_right)
  then show "2 ^ h \<le> unat w" by (simp add: div_eq_0_iff)
qed

lemma clz_top_bit:
  fixes w :: u32
  assumes "h < 32" and "bit w h" and "\<And>i. h < i \<Longrightarrow> \<not> bit w i"
  shows "32 - clz w = of_nat (Suc h)"
proof -
  have "[0..<32] = [0..<h] @ h # [Suc h..<32]"
    using assms(1) upt_add_eq_append [of 0 h "32 - h"] upt_conv_Cons [of h 32] by simp
  then have "rev [0..<32] = rev [Suc h..<32] @ h # rev [0..<h]" by simp
  moreover have "takeWhile (\<lambda>i. \<not> bit w i) (rev [Suc h..<32] @ h # rev [0..<h]) = rev [Suc h..<32]"
    using assms(2,3) by (subst takeWhile_append2) auto
  ultimately have "length (takeWhile (\<lambda>i. \<not> bit w i) (rev [0..<32])) = 31 - h" by (simp only:) simp
  then have "clz w = of_nat (31 - h)" by (simp only: clz_def)
  then show ?thesis using assms(1) by (simp add: of_nat_diff)
qed

lemma lowest_bit_clear:
  fixes w :: u32
  assumes "h < 32" and "bit w h" and "\<And>i. h < i \<Longrightarrow> \<not> bit w i"
  shows "w AND (w - 1) = 0 \<longleftrightarrow> unat w = 2 ^ h"
proof -
  note b = top_bit_bounds [OF assms(2,3)]
  have u: "unat (w - 1) = unat w - 1"
    using order_less_le_trans [OF zero_less_power b(1)] by (subst unat_sub) (auto simp: word_le_nat_alt)
  show ?thesis
  proof
    assume "unat w = 2 ^ h"
    moreover have "unat (2 ^ h :: u32) = 2 ^ h" using unat_of_nat32 [of "2 ^ h"] power_strict_increasing [of h 32 "2 :: nat"] assms(1) by simp
    ultimately have "w = 2 ^ h" by (metis word_unat_eq_iff)
    then show "w AND (w - 1) = 0" by (auto intro!: bit_word_eqI simp: bit_simps mask_eq_exp_minus_1 [symmetric])
  next
    assume a: "w AND (w - 1) = 0"
    show "unat w = 2 ^ h"
    proof (rule ccontr)
      assume "unat w \<noteq> 2 ^ h"
      then have "unat (w - 1) div 2 ^ h = 1" using b u by (simp add: div_nat_eqI)
      then have "bit (w - 1) h" by (simp only: bit_nat) simp
      then have "bit (w AND (w - 1)) h" using assms(2) by (simp add: bit_and_iff)
      then show False using a by simp
    qed
  qed
qed
definition class_bytes :: "nat \<Rightarrow> nat" where
  "class_bytes b = 2 ^ (b + 2)"

lemma adjust_bin_nat:
  "k < 64 \<Longrightarrow> klmalloc_adjust_bin (of_nat k) = of_nat (min 10 (k - 3))"
proof -
  assume k: "k < 64"
  consider "k \<le> 2" | "3 \<le> k" by linarith
  then show ?thesis
  proof cases
    case 1
    then have "k = 0 \<or> k = 1 \<or> k = 2" by auto
    then show ?thesis by (auto simp: klmalloc_adjust_bin_def SMALLEST_BIN_LOG_def)
  next
    case 2
    have u: "unat (of_nat k :: u32) = k" "unat (of_nat (k - 3) :: u32) = k - 3" using k by (auto intro: unat_of_nat32)
    have "(of_nat k :: u32) - (2 + 1) = of_nat (k - 3)" using 2 by (simp add: of_nat_diff)
    moreover have "\<not> (of_nat k :: u32) \<le> 2" using 2 u by (simp add: word_le_nat_alt)
    moreover have "(10 :: u32) < of_nat (k - 3) \<longleftrightarrow> 10 < k - 3" using u by (simp add: word_less_nat_alt)
    ultimately show ?thesis
      by (simp add: klmalloc_adjust_bin_def SMALLEST_BIN_LOG_def BIG_BIN_def NUM_BINS_def min_def)
  qed
qed

lemma bin_size_top_bit:
  assumes "h < 32" and "bit w h" and "\<And>i. h < i \<Longrightarrow> \<not> bit w i"
  shows "klmalloc_bin_size w = of_nat (min 10 (if unat w = 2 ^ h then h - 2 else h - 1))"
proof -
  have "32 - clz w + (if w AND (w - 1) \<noteq> 0 then 1 else 0) = of_nat (if unat w = 2 ^ h then Suc h else Suc (Suc h))"
    using clz_top_bit [OF assms] lowest_bit_clear [OF assms] by (simp add: algebra_simps)
  moreover have "(if unat w = 2 ^ h then Suc h else Suc (Suc h)) < 64" using assms(1) by simp
  ultimately have "klmalloc_bin_size w = of_nat (min 10 ((if unat w = 2 ^ h then Suc h else Suc (Suc h)) - 3))"
    unfolding klmalloc_bin_size_def Let_def using adjust_bin_nat by metis
  then show ?thesis by simp
qed

lemma bin_size_log:
  assumes "w \<noteq> 0"
  obtains e where "klmalloc_bin_size w = of_nat (min 10 (e - 2))" "\<And>k. unat w \<le> class_bytes k \<longleftrightarrow> e \<le> k + 2"
proof -
  obtain h where h: "h < 32" "bit w h" "\<And>i. h < i \<Longrightarrow> \<not> bit w i" using top_bit [OF assms] by blast
  note b = top_bit_bounds [OF h(2,3)]
  define e where "e = (if unat w = 2 ^ h then h else Suc h)"
  have lo: "2 ^ (e - 1) < unat w" if "e \<noteq> 0"
  proof (cases "unat w = 2 ^ h")
    case True
    then have "e = h" by (simp add: e_def)
    moreover have "(2 :: nat) ^ (h - 1) < 2 ^ h" using that calculation by (intro power_strict_increasing) auto
    ultimately show ?thesis using True by simp
  next
    case False
    then show ?thesis using b by (simp add: e_def)
  qed
  have hi: "unat w \<le> 2 ^ e" using b by (simp add: e_def)
  have "unat w \<le> class_bytes k \<longleftrightarrow> e \<le> k + 2" for k
  proof
    assume "e \<le> k + 2"
    then have "(2 :: nat) ^ e \<le> 2 ^ (k + 2)" by (intro power_increasing) auto
    then show "unat w \<le> class_bytes k" using hi by (simp add: class_bytes_def)
  next
    assume w: "unat w \<le> class_bytes k"
    show "e \<le> k + 2"
    proof (rule ccontr)
      assume n: "\<not> e \<le> k + 2"
      then have "(2 :: nat) ^ (k + 2) \<le> 2 ^ (e - 1)" by (intro power_increasing) auto
      moreover have "e \<noteq> 0" using n by simp
      ultimately show False using lo w by (simp add: class_bytes_def)
    qed
  qed
  moreover have "klmalloc_bin_size w = of_nat (min 10 (e - 2))"
    using bin_size_top_bit [OF h] by (auto simp: e_def)
  ultimately show ?thesis using that by blast
qed

lemma bin_size_class:
  assumes "w \<noteq> 0" and "unat w \<le> 2048"
  obtains k where "k < 10" "klmalloc_bin_size w = of_nat k" "unat w \<le> class_bytes k"
proof -
  obtain e where e: "klmalloc_bin_size w = of_nat (min 10 (e - 2))" "\<And>k. unat w \<le> class_bytes k \<longleftrightarrow> e \<le> k + 2"
    using bin_size_log [OF assms(1)] by blast
  have "e \<le> 11" using e(2) [of 9] assms(2) by (simp add: class_bytes_def)
  then show ?thesis using e by (intro that [of "e - 2"]) (auto simp: min_def)
qed

lemma bin_size_big: "2048 < unat w \<Longrightarrow> klmalloc_bin_size w = 10"
proof -
  assume w: "2048 < unat w"
  then have "w \<noteq> 0" by auto
  then obtain e where e: "klmalloc_bin_size w = of_nat (min 10 (e - 2))" "\<And>k. unat w \<le> class_bytes k \<longleftrightarrow> e \<le> k + 2"
    using bin_size_log by blast
  have "\<not> e \<le> 11" using e(2) [of 9] w by (simp add: class_bytes_def)
  then have "min 10 (e - 2) = 10" by simp
  then show ?thesis using e(1) by simp
qed

section \<open>Headers do not overlap\<close>

text \<open>\<open>fld a j\<close> is the address of word \<open>j\<close> of the header at \<open>a\<close>.\<close>

definition fld :: "u32 \<Rightarrow> nat \<Rightarrow> u32" where
  "fld a j = a + 4 * of_nat j"

lemma fields:
  "next_of m n = load32 m (fld n 0)" "head_of m n = load32 m (fld n 1)" "size_of m n = load32 m (fld n 2)"
  "prev_of m n = load32 m (fld n 3)" "forward_at n i = fld n (4 + i)" "forward_of m n i = load32 m (fld n (4 + i))"
  by (simp_all add: next_of_def head_of_def size_of_def prev_of_def forward_of_def forward_at_def fld_def add.assoc)

definition headers :: "u32 set \<Rightarrow> bool" where
  "headers H \<longleftrightarrow> (\<forall>a \<in> H. aligned4 a) \<and> (\<forall>a \<in> H. \<forall>b \<in> H. a = b \<or> apart a 44 b 44)"

lemma headers_mono: "headers H \<Longrightarrow> G \<subseteq> H \<Longrightarrow> headers G"
  by (auto simp: headers_def)

lemma fld_eq:
  assumes "headers H" and "a \<in> H" and "b \<in> H" and "j < 11" and "k < 11"
  shows "fld a j = fld b k \<longleftrightarrow> a = b \<and> j = k"
proof (cases "a = b")
  case True
  have "unat (4 * of_nat j :: u32) = 4 * j" "unat (4 * of_nat k :: u32) = 4 * k"
    using assms(4,5) by (simp_all add: unat_4_of_nat)
  then show ?thesis using True unfolding fld_def by (metis add_left_cancel nat_mult_eq_cancel_disj zero_neq_numeral)
next
  case False
  then have "apart a 44 b 44" using assms(1-3) by (auto simp: headers_def)
  from offset_neq [OF this, of "4 * j" "4 * k"] assms(4,5) False show ?thesis by (simp add: fld_def)
qed

lemma aligned4_fld: "aligned4 a \<Longrightarrow> aligned4 (fld a j)"
  by (simp add: fld_def)

lemma unat_fld: "unat a + 4 * j < 4294967296 \<Longrightarrow> unat (fld a j) = unat a + 4 * j"
  unfolding fld_def using unat_4_of_nat [of j] by (simp add: unat_add_small)

lemma load_fld:
  assumes "headers H" and "a \<in> H" and "b \<in> H" and "j < 11" and "k < 11"
  shows "load32 (store32 m (fld a j) v) (fld b k) = (if a = b \<and> j = k then v else load32 m (fld b k))"
  using assms fld_eq [OF assms] by (subst load32_store32_aligned) (auto simp: headers_def intro: aligned4_fld)

text \<open>\<open>changes_only A m m'\<close>: no word outside \<open>A\<close> differs between \<open>m\<close> and \<open>m'\<close>.\<close>

definition changes_only :: "u32 set \<Rightarrow> mem \<Rightarrow> mem \<Rightarrow> bool" where
  "changes_only A m m' \<longleftrightarrow> (\<forall>w. aligned4 w \<and> w \<notin> A \<longrightarrow> same_word m m' w)"

lemma changes_only_refl [simp]: "changes_only A m m"
  by (simp add: changes_only_def)

lemma changes_only_trans: "changes_only A m m' \<Longrightarrow> changes_only A m' m'' \<Longrightarrow> changes_only A m m''"
  by (auto simp: changes_only_def intro: same_word_trans)

lemma changes_only_mono: "changes_only A m m' \<Longrightarrow> A \<subseteq> B \<Longrightarrow> changes_only B m m'"
  by (auto simp: changes_only_def)

lemma changes_only_store: "aligned4 a \<Longrightarrow> a \<in> A \<Longrightarrow> changes_only A m (store32 m a v)"
  unfolding changes_only_def by (metis same_word_store)

lemma changes_only_load: "changes_only A m m' \<Longrightarrow> aligned4 w \<Longrightarrow> w \<notin> A \<Longrightarrow> load32 m' w = load32 m w"
  by (simp add: changes_only_def same_word_load)

section \<open>Properties\<close>

text \<open>A request is put into the smallest class whose cells hold it, the cells of class \<open>b\<close> having
  \<open>2 ^ (b + 2)\<close> bytes; every request above 2048 bytes is a big one.\<close>

theorem bin_size_smallest:
  assumes "w \<noteq> 0"
  shows "klmalloc_bin_size w =
    of_nat (if unat w \<le> class_bytes 9 then (LEAST b. unat w \<le> class_bytes b) else 10)"
proof -
  obtain e where run: "klmalloc_bin_size w = of_nat (min 10 (e - 2))" and fit: "\<And>k. unat w \<le> class_bytes k \<longleftrightarrow> e \<le> k + 2"
    using bin_size_log [OF assms] by blast
  show ?thesis
  proof (cases "e \<le> 11")
    case True
    have "(LEAST b. e \<le> b + 2) = e - 2" by (rule Least_equality) auto
    then show ?thesis using True by (simp add: fit run)
  qed (simp add: fit run)
qed

theorem bin_size_smallest_witness: "klmalloc_bin_size 24 = 3"
proof -
  have "(LEAST b. (24 :: nat) \<le> class_bytes b) = 3"
  proof (rule Least_equality)
    show "3 \<le> y" if "24 \<le> class_bytes y" for y
    proof (rule ccontr)
      assume "\<not> 3 \<le> y"
      then have "(2 :: nat) ^ (y + 2) \<le> 2 ^ 4" by (intro power_increasing) auto
      then show False using that by (simp add: class_bytes_def)
    qed
  qed (simp add: class_bytes_def)
  then show ?thesis using bin_size_smallest [of 24] by (simp add: class_bytes_def)
qed

text \<open>The \<open>n\<close>-th number drawn from a generator state, and the state after \<open>n\<close> draws.\<close>

definition rng_after :: "nat \<Rightarrow> u32 \<times> u32 \<times> u32 \<times> u32 \<Rightarrow> u32 \<times> u32 \<times> u32 \<times> u32" where
  "rng_after n g = ((snd \<circ> skip_rng_step) ^^ n) g"

definition rng_draw :: "u32 \<times> u32 \<times> u32 \<times> u32 \<Rightarrow> nat \<Rightarrow> u32" where
  "rng_draw g n = fst (skip_rng_step (rng_after n g))"

lemma rng_after_Suc: "rng_after (Suc n) g = rng_after n (snd (skip_rng_step g))"
  by (simp add: rng_after_def funpow_Suc_right del: funpow.simps)

lemma rng_draw_Suc: "rng_draw g (Suc n) = rng_draw (snd (skip_rng_step g)) n"
  by (simp add: rng_draw_def rng_after_Suc)

lemma random_level_loop_run:
  assumes "random_level_loop l s = (L, s')" and "l \<le> SKIP_MAX_LEVEL"
  shows "l \<le> L \<and> L \<le> SKIP_MAX_LEVEL \<and> s' = s\<lparr>skip_rng := rng_after (Suc (L - l)) (skip_rng s)\<rparr> \<and>
    (\<forall>k < L - l. rng_draw (skip_rng s) k < SKIP_P) \<and>
    (L = SKIP_MAX_LEVEL \<or> \<not> rng_draw (skip_rng s) (L - l) < SKIP_P)"
  using assms
proof (induction l s arbitrary: L s' rule: random_level_loop.induct)
  case (1 l s)
  obtain r g where st: "skip_rng_step (skip_rng s) = (r, g)" by (cases "skip_rng_step (skip_rng s)") 
  let ?s1 = "s\<lparr>skip_rng := g\<rparr>"
  have kl: "klmalloc_skip_rand s = (r, ?s1)" by (simp add: klmalloc_skip_rand_def st)
  have d0: "rng_draw (skip_rng s) 0 = r" by (simp add: rng_draw_def rng_after_def st)
  have a1: "rng_after (Suc 0) (skip_rng s) = g" by (simp add: rng_after_def st)
  show ?case
  proof (cases "r < SKIP_P \<and> l < SKIP_MAX_LEVEL")
    case True
    then have "random_level_loop (l + 1) ?s1 = (L, s')"
      using 1(2) by (subst (asm) random_level_loop.simps) (simp add: kl)
    from 1(1) [OF kl [symmetric] refl True this] True
    have ih: "l + 1 \<le> L" "L \<le> SKIP_MAX_LEVEL" "s' = s\<lparr>skip_rng := rng_after (Suc (L - (l + 1))) g\<rparr>"
      "\<forall>k < L - (l + 1). rng_draw g k < SKIP_P" "L = SKIP_MAX_LEVEL \<or> \<not> rng_draw g (L - (l + 1)) < SKIP_P"
      by auto
    have n: "L - l = Suc (L - (l + 1))" using ih(1) by simp
    have "rng_draw (skip_rng s) k < SKIP_P" if "k < L - l" for k
      using that ih(4) True d0 n by (cases k) (auto simp: rng_draw_Suc st)
    then show ?thesis using ih by (simp add: n rng_draw_Suc rng_after_Suc [of _ "skip_rng s"] st)
  next
    case False
    then have "L = l" "s' = ?s1"
      using 1(2) by (subst (asm) random_level_loop.simps; simp add: kl)+
    then show ?thesis using False 1(3) d0 a1 by auto
  qed
qed

lemma random_level_run:
  "\<exists>L g. klmalloc_random_level s = (L, s\<lparr>skip_rng := g\<rparr>) \<and> L \<le> SKIP_MAX_LEVEL"
proof -
  obtain L s' where r: "random_level_loop 0 s = (L, s')" by (cases "random_level_loop 0 s")
  from random_level_loop_run [OF r] have "L \<le> SKIP_MAX_LEVEL" "s' = s\<lparr>skip_rng := rng_after (Suc L) (skip_rng s)\<rparr>"
    by simp_all
  then show ?thesis using r unfolding klmalloc_random_level_def by blast
qed

text \<open>The level of a new skip node is the number of draws below half of the range, at most six; one more
  number than the level is drawn, and nothing else changes.\<close>

theorem random_level_draws:
  "\<exists>L \<le> SKIP_MAX_LEVEL. klmalloc_random_level s = (L, s\<lparr>skip_rng := rng_after (Suc L) (skip_rng s)\<rparr>) \<and>
    rng_draw (skip_rng s) ` {..<L} \<subseteq> {..<SKIP_P} \<and>
    (L = SKIP_MAX_LEVEL \<or> SKIP_P \<le> rng_draw (skip_rng s) L)"
proof -
  obtain L s' where r: "random_level_loop 0 s = (L, s')" by (cases "random_level_loop 0 s")
  from random_level_loop_run [OF r] show ?thesis
    by (intro exI [of _ L]) (auto simp: klmalloc_random_level_def r not_less)
qed

end
