(* ===== verification/Skip_List.thy ===== *)
theory Skip_List
  imports Bins
begin

text \<open>
  The skip list of free big blocks (\<open>core/alloc.c\<close>): its three operations as the code has them, then the
  lists they work on. \<open>X i\<close> is the list of the nodes linked at level \<open>i\<close>; the list of level 0 is sorted
  by size, and every higher one is a sublist of the one below.
\<close>

section \<open>The operations\<close>

abbreviation page_sized_text :: string where
  "page_sized_text \<equiv> ''(node->size + sizeof(klmalloc_big_bin_header)) % PAGE_SIZE == 0''"

definition page_sized :: "mem \<Rightarrow> u32 \<Rightarrow> bool" where
  "page_sized m n \<longleftrightarrow> (size_of m n + sizeof_big_bin_header) mod PAGE_SIZE = 0"

text \<open>The walk along one level; sizes are compared as signed numbers (\<open>size_t\<close> is \<open>long\<close>).\<close>

partial_function (option) skip_walk ::
  "u32 \<Rightarrow> nat \<Rightarrow> u32 \<Rightarrow> u32 \<Rightarrow> 'a heap_scheme \<Rightarrow> ('a heap_scheme fault + u32 \<times> 'a heap_scheme) option" where
  "skip_walk line i search_size node s =
     (if forward_of (mem s) node i \<noteq> 0 \<and> size_of (mem s) (forward_of (mem s) node i) <s search_size then
        (let node1 = forward_of (mem s) node i in
         case (if node1 \<noteq> 0 then ASSERT (page_sized (mem s) node1) ''alloc.c'' line page_sized_text s
               else Inr ((), s)) of
           Inl e \<Rightarrow> Some (Inl e)
         | Inr (_, s1) \<Rightarrow> skip_walk line i search_size node1 s1)
      else Some (Inr (node, s)))"

text \<open>The levels from \<open>klmalloc_big_bins.level\<close> down to 0, remembering where each one was left. The array
  \<open>update\<close> is uninitialised in C; each entry read later is written before.\<close>

fun skip_levels ::
  "u32 \<Rightarrow> u32 \<Rightarrow> nat list \<Rightarrow> u32 \<Rightarrow> u32 list \<Rightarrow> 'a heap_scheme \<Rightarrow> (u32 \<times> u32 list, 'a heap_scheme) result" where
  "skip_levels line search_size [] node update s = Inr ((node, update), s)"
| "skip_levels line search_size (i # is) node update s =
     res_bind (loop_result (skip_walk line i search_size node s)) (\<lambda>(node1, s1).
       skip_levels line search_size is node1 (update[i := node1]) s1)"

definition levels_down :: "'a heap_scheme \<Rightarrow> nat list" where
  "levels_down s = rev [0..<Suc (big_level s)]"

definition no_update :: "u32 list" where
  "no_update = replicate (SKIP_MAX_LEVEL + 1) 0"

definition klmalloc_skip_list_findbest :: "u32 \<Rightarrow> 'a heap_scheme \<Rightarrow> (u32, 'a heap_scheme) result" where
  "klmalloc_skip_list_findbest search_size s =
     res_bind (skip_levels 307 search_size (levels_down s) (big_head s) no_update s) (\<lambda>((node, _), s1).
     let node1 = forward_of (mem s1) node 0 in
     if node1 \<noteq> 0 then
       res_bind (ASSERT (node1 mod PAGE_SIZE = 0) ''alloc.c'' 316 ''(uintptr_t)node % PAGE_SIZE == 0'' s1) (\<lambda>(_, s2).
       res_bind (ASSERT (page_sized (mem s2) node1) ''alloc.c'' 317 page_sized_text s2) (\<lambda>(_, s3).
       Inr (node1, s3)))
     else Inr (node1, s1))"

fun skip_link :: "nat list \<Rightarrow> u32 \<Rightarrow> u32 list \<Rightarrow> 'a heap_scheme \<Rightarrow> (unit, 'a heap_scheme) result" where
  "skip_link [] node update s = Inr ((), s)"
| "skip_link (i # is) node update s =
     (let s1 = put_word (forward_at node i) (forward_of (mem s) (update ! i) i) s in
      res_bind (if forward_of (mem s1) node i \<noteq> 0
                then ASSERT (page_sized (mem s1) (forward_of (mem s1) node i)) ''alloc.c'' 385
                       ''(node->forward[i]->size + sizeof(klmalloc_big_bin_header)) % PAGE_SIZE == 0'' s1
                else Inr ((), s1)) (\<lambda>(_, s2).
      skip_link is node update (put_word (forward_at (update ! i) i) node s2)))"

definition klmalloc_skip_list_insert :: "u32 \<Rightarrow> 'a heap_scheme \<Rightarrow> (unit, 'a heap_scheme) result" where
  "klmalloc_skip_list_insert val s =
     res_bind (ASSERT (val \<noteq> 0) ''alloc.c'' 330 ''value != NULL'' s) (\<lambda>(_, s1).
     res_bind (ASSERT (head_of (mem s1) val \<noteq> 0) ''alloc.c'' 331 ''value->head != NULL'' s1) (\<lambda>(_, s2).
     res_bind (ASSERT (val mod PAGE_SIZE = 0) ''alloc.c'' 332 ''(uintptr_t)value % PAGE_SIZE == 0'' s2) (\<lambda>(_, s3).
     res_bind (ASSERT (page_sized (mem s3) val) ''alloc.c'' 333
       ''(value->size + sizeof(klmalloc_big_bin_header)) % PAGE_SIZE == 0'' s3) (\<lambda>(_, s4).
     res_bind (ASSERT (size_of (mem s4) val \<noteq> 0) ''alloc.c'' 334 ''value->size != 0'' s4) (\<lambda>(_, s5).
     res_bind (skip_levels 351 (size_of (mem s5) val) (levels_down s5) (big_head s5) no_update s5)
       (\<lambda>((node, update), s6).
     if forward_of (mem s6) node 0 \<noteq> val then
       (let (level, s7) = klmalloc_random_level s6;
            (update1, s8) =
              (if big_level s7 < level
               then (fold (\<lambda>i u. u[i := big_head s7]) [big_level s7 + 1..<Suc level] update, s7\<lparr>big_level := level\<rparr>)
               else (update, s7))
        in skip_link [0..<Suc level] val update1 s8)
     else Inr ((), s6)))))))"

partial_function (option) skip_find :: "u32 \<Rightarrow> u32 \<Rightarrow> mem \<Rightarrow> u32 option" where
  "skip_find val node m = (if node \<noteq> val then skip_find val (forward_of m node 0) m else Some node)"

partial_function (option) skip_rescan :: "u32 \<Rightarrow> u32 \<Rightarrow> mem \<Rightarrow> u32 option" where
  "skip_rescan val node m =
     (if forward_of m node 0 \<noteq> 0 \<and> forward_of m node 0 \<noteq> val then skip_rescan val (forward_of m node 0) m
      else Some node)"

fun skip_unlink :: "nat list \<Rightarrow> u32 \<Rightarrow> u32 list \<Rightarrow> 'a heap_scheme \<Rightarrow> (unit, 'a heap_scheme) result" where
  "skip_unlink [] node update s = Inr ((), s)"
| "skip_unlink (i # is) node update s =
     (if forward_of (mem s) (update ! i) i \<noteq> node then Inr ((), s)
      else
        (let s1 = put_word (forward_at (update ! i) i) (forward_of (mem s) node i) s;
             after = forward_of (mem s1) (update ! i) i in
         res_bind (if after \<noteq> 0 then
             res_bind (ASSERT (after mod PAGE_SIZE = 0) ''alloc.c'' 443
               ''(uintptr_t)(update[i]->forward[i]) % PAGE_SIZE == 0'' s1) (\<lambda>(_, s2).
             ASSERT (page_sized (mem s2) after) ''alloc.c'' 444
               ''(update[i]->forward[i]->size + sizeof(klmalloc_big_bin_header)) % PAGE_SIZE == 0'' s2)
           else Inr ((), s1)) (\<lambda>(_, s3).
         skip_unlink is node update s3)))"

fun lower_level :: "mem \<Rightarrow> u32 \<Rightarrow> nat \<Rightarrow> nat" where
  "lower_level m head 0 = 0"
| "lower_level m head (Suc l) = (if forward_of m head (Suc l) = 0 then lower_level m head l else Suc l)"

definition klmalloc_skip_list_delete :: "u32 \<Rightarrow> 'a heap_scheme \<Rightarrow> (unit, 'a heap_scheme) result" where
  "klmalloc_skip_list_delete val s =
     res_bind (ASSERT (val \<noteq> 0) ''alloc.c'' 399 ''value != NULL'' s) (\<lambda>(_, s1).
     res_bind (ASSERT (head_of (mem s1) val \<noteq> 0) ''alloc.c'' 400 ''value->head'' s1) (\<lambda>(_, s2).
     res_bind (skip_levels 416 (size_of (mem s2) val) (levels_down s2) (big_head s2) no_update s2)
       (\<lambda>((node, update), s3).
     case skip_find val (forward_of (mem s3) node 0) (mem s3) of
       None \<Rightarrow> Inl Diverges
     | Some node1 \<Rightarrow>
       (case (if node1 \<noteq> val
              then map_option (\<lambda>n. forward_of (mem s3) n 0)
                     (skip_rescan val (forward_of (mem s3) (big_head s3) 0) (mem s3))
              else Some node1) of
          None \<Rightarrow> Inl Diverges
        | Some node2 \<Rightarrow>
          if node2 = val then
            res_bind (skip_unlink [0..<Suc (big_level s3)] node2 update s3) (\<lambda>(_, s4).
            Inr ((), s4\<lparr>big_level := lower_level (mem s4) (big_head s4) (big_level s4)\<rparr>))
          else Inr ((), s3)))))"


section \<open>The levels as lists\<close>

fun chain :: "mem \<Rightarrow> nat \<Rightarrow> u32 \<Rightarrow> u32 list \<Rightarrow> bool" where
  "chain m i a [] \<longleftrightarrow> forward_of m a i = 0"
| "chain m i a (n # ns) \<longleftrightarrow> n \<noteq> 0 \<and> forward_of m a i = n \<and> chain m i n ns"

definition bytes :: "mem \<Rightarrow> u32 \<Rightarrow> nat" where
  "bytes m n = unat (size_of m n)"

definition skip_node :: "mem \<Rightarrow> u32 \<Rightarrow> bool" where
  "skip_node m n \<longleftrightarrow> n \<noteq> 0 \<and> n mod PAGE_SIZE = 0 \<and> page_sized m n \<and> bytes m n < 2147483648"

definition below :: "mem \<Rightarrow> nat \<Rightarrow> u32 list \<Rightarrow> u32 list" where
  "below m k = filter (\<lambda>n. bytes m n < k)"

definition at_level :: "(u32 \<Rightarrow> nat) \<Rightarrow> u32 list \<Rightarrow> nat \<Rightarrow> u32 list" where
  "at_level lev xs i = filter (\<lambda>n. i \<le> lev n) xs"

text \<open>\<open>skip_ok s xs lev\<close>: the skip list holds the blocks \<open>xs\<close>, block \<open>n\<close> on the levels up to \<open>lev n\<close>.\<close>

definition skip_ok :: "'a heap_scheme \<Rightarrow> u32 list \<Rightarrow> (u32 \<Rightarrow> nat) \<Rightarrow> bool" where
  "skip_ok s xs lev \<longleftrightarrow> big_level s \<le> SKIP_MAX_LEVEL \<and>
     (\<forall>i \<le> SKIP_MAX_LEVEL. chain (mem s) i (big_head s) (at_level lev xs i)) \<and>
     (\<forall>n \<in> set xs. lev n \<le> big_level s \<and> skip_node (mem s) n) \<and>
     distinct xs \<and> big_head s \<notin> set xs \<and> sorted (map (bytes (mem s)) xs) \<and>
     headers (insert (big_head s) (set xs))"

text \<open>The last node of level \<open>i\<close> that is smaller than \<open>k\<close>, or the head.\<close>

definition pred_at :: "'a heap_scheme \<Rightarrow> u32 list \<Rightarrow> (u32 \<Rightarrow> nat) \<Rightarrow> nat \<Rightarrow> nat \<Rightarrow> u32" where
  "pred_at s xs lev k i = last (big_head s # below (mem s) k (at_level lev xs i))"

lemma chain_cong:
  "(\<And>n. n \<in> set (a # xs) \<Longrightarrow> forward_of m' n i = forward_of m n i) \<Longrightarrow> chain m' i a xs = chain m i a xs"
  by (induction xs arbitrary: a) auto

lemma chain_append: "chain m i a (xs @ n # ys) \<Longrightarrow> chain m i n ys"
  by (induction xs arbitrary: a) auto

lemma chain_last: "chain m i a (xs @ ys) \<Longrightarrow> chain m i (last (a # xs)) ys"
  by (induction xs arbitrary: a) auto

lemma takeWhile_sorted:
  fixes k :: nat
  shows "sorted (map f xs) \<Longrightarrow> takeWhile (\<lambda>n. f n < k) xs = filter (\<lambda>n. f n < k) xs"
proof (induction xs)
  case (Cons x xs)
  show ?case
  proof (cases "f x < k")
    case False
    then have "filter (\<lambda>n. f n < k) xs = []" using Cons.prems by (auto simp: filter_empty_conv)
    with False show ?thesis by simp
  qed (use Cons in auto)
qed simp

lemma sless_bytes:
  "bytes m n < 2147483648 \<Longrightarrow> unat sz < 2147483648 \<Longrightarrow> size_of m n <s sz \<longleftrightarrow> bytes m n < unat sz"
  unfolding bytes_def word_sless_alt by (simp only: sint_small of_nat_less_iff)

lemma skip_walk_run:
  assumes "chain (mem s) i a xs" and "\<forall>n \<in> set xs. skip_node (mem s) n" and "unat sz < 2147483648"
  shows "skip_walk line i sz a s = Some (Inr (last (a # takeWhile (\<lambda>n. bytes (mem s) n < unat sz) xs), s))"
  using assms(1,2)
proof (induction xs arbitrary: a)
  case Nil
  then show ?case by (subst skip_walk.simps) simp
next
  case (Cons n ns)
  then have "skip_node (mem s) n" "chain (mem s) i n ns" "forward_of (mem s) a i = n" "n \<noteq> 0" by auto
  then show ?case
    using Cons.IH [of n] Cons.prems(2) sless_bytes [OF _ assms(3), of "mem s" n]
    by (subst skip_walk.simps) (simp add: skip_node_def Let_def)
qed

lemma skip_walk_next:
  assumes "skip_ok s xs lev" and "unat sz < 2147483648" and "l \<le> SKIP_MAX_LEVEL"
  shows "skip_walk line l sz (pred_at s xs lev (unat sz) (Suc l)) s = Some (Inr (pred_at s xs lev (unat sz) l, s))"
proof -
  let ?k = "unat sz" and ?m = "mem s" and ?X = "at_level lev xs"
  have node: "\<forall>n \<in> set (?X l). skip_node ?m n" using assms(1) by (auto simp: skip_ok_def at_level_def)
  have ch: "chain ?m l (big_head s) (?X l)" using assms(1,3) by (auto simp: skip_ok_def)
  have so: "sorted (map (bytes ?m) (?X l))" using assms(1) by (auto simp: skip_ok_def at_level_def sorted_filter)
  show ?thesis
  proof (cases "below ?m ?k (?X (Suc l)) = []")
    case True
    then show ?thesis using skip_walk_run [OF ch node assms(2)] by (simp add: takeWhile_sorted [OF so] below_def pred_at_def)
  next
    case False
    define n where "n = last (below ?m ?k (?X (Suc l)))"
    have "n \<in> set (below ?m ?k (?X (Suc l)))" unfolding n_def using False by (rule last_in_set)
    then have n: "n \<in> set (?X l)" "bytes ?m n < ?k" by (auto simp: below_def at_level_def)
    then obtain pre post where split: "?X l = pre @ n # post" by (meson split_list)
    have "\<forall>p \<in> set pre. bytes ?m p < ?k" using so n(2) unfolding split by (auto simp: sorted_append)
    then have b: "below ?m ?k (?X l) = pre @ n # below ?m ?k post" unfolding split below_def using n(2) by simp
    have "chain ?m l n post" using ch unfolding split by (rule chain_append)
    moreover have "\<forall>n \<in> set post. skip_node ?m n" using node unfolding split by simp
    moreover have "sorted (map (bytes ?m) post)" using so unfolding split by (simp add: sorted_append)
    ultimately have "skip_walk line l sz n s = Some (Inr (last (n # below ?m ?k post), s))"
      using skip_walk_run [of s l n post sz] assms(2) by (simp add: takeWhile_sorted below_def)
    moreover have "last (big_head s # below ?m ?k (?X (Suc l))) = n" using False by (simp add: n_def)
    ultimately show ?thesis by (simp add: b pred_at_def)
  qed
qed

lemma skip_levels_run:
  assumes "skip_ok s xs lev" and "unat sz < 2147483648" and "l \<le> SKIP_MAX_LEVEL"
    and "length upd = 7" and "node = pred_at s xs lev (unat sz) (Suc l)"
  shows "\<exists>upd'. skip_levels line sz (rev [0..<Suc l]) node upd s =
      Inr ((pred_at s xs lev (unat sz) 0, upd'), s) \<and> length upd' = 7 \<and>
    (\<forall>j \<le> l. upd' ! j = pred_at s xs lev (unat sz) j) \<and> (\<forall>j > l. upd' ! j = upd ! j)"
  using assms(3-5)
proof (induction l arbitrary: node upd)
  case 0
  then show ?case
    using skip_walk_next [OF assms(1,2), of 0] by (simp add: nth_list_update)
next
  case (Suc l)
  let ?n = "pred_at s xs lev (unat sz) (Suc l)"
  have "length (upd[Suc l := ?n]) = 7" "l \<le> SKIP_MAX_LEVEL" using Suc.prems by simp_all
  from Suc.IH [OF this(2) this(1) refl] obtain upd' where
    u: "skip_levels line sz (rev [0..<Suc l]) ?n (upd[Suc l := ?n]) s =
      Inr ((pred_at s xs lev (unat sz) 0, upd'), s)" "length upd' = 7"
    "\<forall>j \<le> l. upd' ! j = pred_at s xs lev (unat sz) j"
    "\<forall>j > l. upd' ! j = upd[Suc l := ?n] ! j"
    by (elim exE conjE) blast
  have "Suc l < length upd" using Suc.prems by (simp add: SKIP_MAX_LEVEL_def)
  then have "\<forall>j \<le> Suc l. upd' ! j = pred_at s xs lev (unat sz) j"
    using u(3,4) by (auto simp: le_Suc_eq)
  moreover have "\<forall>j > Suc l. upd' ! j = upd ! j" using u(4) by simp
  moreover have lv: "rev [0..<Suc (Suc l)] = Suc l # rev [0..<Suc l]" by simp
  ultimately show ?case
    unfolding lv skip_levels.simps using u(1,2) skip_walk_next [OF assms(1,2), of "Suc l"] Suc.prems
    by (intro exI [of _ upd']) (simp del: upt_Suc)
qed


section \<open>Best fit\<close>

definition at_least :: "mem \<Rightarrow> nat \<Rightarrow> u32 list \<Rightarrow> u32 list" where
  "at_least m k = filter (\<lambda>n. k \<le> bytes m n)"

definition first_or_null :: "u32 list \<Rightarrow> u32" where
  "first_or_null xs = (case xs of [] \<Rightarrow> 0 | n # _ \<Rightarrow> n)"

lemma first_or_null_simps [simp]: "first_or_null [] = 0" "first_or_null (n # ns) = n"
  by (simp_all add: first_or_null_def)

lemma below_above: "sorted (map (bytes m) xs) \<Longrightarrow> xs = below m k xs @ at_least m k xs"
proof (induction xs)
  case (Cons x xs)
  show ?case
  proof (cases "bytes m x < k")
    case True
    then show ?thesis using Cons by (simp add: below_def at_least_def)
  next
    case False
    then have "below m k (x # xs) = []" "at_least m k (x # xs) = x # xs"
      using Cons.prems by (auto simp: below_def at_least_def filter_empty_conv filter_id_conv)
    then show ?thesis by simp
  qed
qed (simp add: below_def at_least_def)

lemma chain_first: "chain m i a xs \<Longrightarrow> forward_of m a i = first_or_null xs"
  by (cases xs) auto

lemma at_level_0 [simp]: "at_level lev xs 0 = xs"
  by (simp add: at_level_def)

lemma at_level_sub: "set (at_level lev xs i) \<subseteq> set xs"
  by (auto simp: at_level_def)

lemma skip_chain: "skip_ok s xs lev \<Longrightarrow> i \<le> SKIP_MAX_LEVEL \<Longrightarrow> chain (mem s) i (big_head s) (at_level lev xs i)"
  by (simp add: skip_ok_def)

lemma skip_ok_level:
  assumes "skip_ok s xs lev" and "i \<le> SKIP_MAX_LEVEL"
  shows "chain (mem s) i (big_head s) (below (mem s) k (at_level lev xs i) @ at_least (mem s) k (at_level lev xs i))"
    "at_level lev xs i = below (mem s) k (at_level lev xs i) @ at_least (mem s) k (at_level lev xs i)"
proof -
  have so: "sorted (map (bytes (mem s)) (at_level lev xs i))"
    using assms(1) by (auto simp: skip_ok_def at_level_def sorted_filter)
  then show e: "at_level lev xs i = below (mem s) k (at_level lev xs i) @ at_least (mem s) k (at_level lev xs i)"
    by (rule below_above)
  show "chain (mem s) i (big_head s) (below (mem s) k (at_level lev xs i) @ at_least (mem s) k (at_level lev xs i))"
    using assms e by (simp add: skip_ok_def)
qed

lemma forward_pred_at:
  assumes "skip_ok s xs lev" and "i \<le> SKIP_MAX_LEVEL"
  shows "forward_of (mem s) (pred_at s xs lev k i) i = first_or_null (at_least (mem s) k (at_level lev xs i))"
  unfolding pred_at_def by (rule chain_first [OF chain_last [OF skip_ok_level(1) [OF assms]]])

lemma no_level_above: "skip_ok s xs lev \<Longrightarrow> big_level s < i \<Longrightarrow> at_level lev xs i = []"
  by (fastforce simp: skip_ok_def at_level_def filter_empty_conv)

lemma pred_at_above: "skip_ok s xs lev \<Longrightarrow> big_level s < i \<Longrightarrow> pred_at s xs lev k i = big_head s"
  by (simp add: pred_at_def no_level_above below_def)

lemma skip_search_run:
  assumes "skip_ok s xs lev" and "unat sz < 2147483648"
  shows "\<exists>upd. skip_levels line sz (levels_down s) (big_head s) no_update s =
      Inr ((pred_at s xs lev (unat sz) 0, upd), s) \<and> length upd = 7 \<and>
    (\<forall>j \<le> big_level s. upd ! j = pred_at s xs lev (unat sz) j)"
proof -
  have "big_level s \<le> SKIP_MAX_LEVEL" "length no_update = 7"
    using assms(1) by (simp_all add: skip_ok_def no_update_def SKIP_MAX_LEVEL_def)
  from skip_levels_run [OF assms this, of "big_head s" line] pred_at_above [OF assms(1)] show ?thesis
    unfolding levels_down_def pred_at_def by (metis lessI)
qed

lemma findbest_run:
  assumes "skip_ok s xs lev" and "unat sz < 2147483648"
  shows "klmalloc_skip_list_findbest sz s = Inr (first_or_null (at_least (mem s) (unat sz) xs), s)"
proof -
  obtain upd where u: "skip_levels 307 sz (levels_down s) (big_head s) no_update s =
      Inr ((pred_at s xs lev (unat sz) 0, upd), s)" using skip_search_run [OF assms] by blast
  have f: "forward_of (mem s) (pred_at s xs lev (unat sz) 0) 0 = first_or_null (at_least (mem s) (unat sz) xs)"
    using forward_pred_at [OF assms(1), of 0] by simp
  show ?thesis
  proof (cases "at_least (mem s) (unat sz) xs")
    case Nil
    then show ?thesis using u f by (simp add: klmalloc_skip_list_findbest_def)
  next
    case (Cons n ns)
    then have "n \<in> set xs" by (metis at_least_def filter_is_subset list.set_intros(1) subsetD)
    then have "n \<noteq> 0" "n mod PAGE_SIZE = 0" "page_sized (mem s) n"
      using assms(1) by (auto simp: skip_ok_def skip_node_def)
    then show ?thesis using u f Cons by (simp add: klmalloc_skip_list_findbest_def)
  qed
qed

section \<open>Splicing a level\<close>

lemma chain_insert:
  assumes "chain m i a (pre @ post)" and "distinct (a # pre @ post)" and "v \<noteq> 0"
    and "u = last (a # pre)" and "forward_of m' u i = v" and "forward_of m' v i = forward_of m u i"
    and "\<And>n. n \<in> set (a # pre @ post) \<Longrightarrow> n \<noteq> u \<Longrightarrow> forward_of m' n i = forward_of m n i"
  shows "chain m' i a (pre @ v # post)"
  using assms
proof (induction pre arbitrary: a)
  case Nil
  show ?case
  proof (cases post)
    case (Cons p ps)
    have "forward_of m' n i = forward_of m n i" if "n \<in> set (p # ps)" for n
      using that Nil.prems(2) Nil.prems(7) [of n] Nil.prems(4) Cons by auto
    then have "chain m' i p ps = chain m i p ps" by (rule chain_cong)
    then show ?thesis using Cons Nil.prems by simp
  qed (use Nil.prems in simp)
next
  case (Cons p pre)
  have "u \<in> set (p # pre)" using Cons.prems(4) by (metis last.simps last_in_set list.distinct(1))
  then have "a \<noteq> u" using Cons.prems(2) by auto
  then have "forward_of m' a i = p" "p \<noteq> 0" using Cons.prems(1) Cons.prems(7) [of a] by simp_all
  moreover have "chain m' i p (pre @ v # post)"
  proof (rule Cons.IH [OF _ _ Cons.prems(3) _ Cons.prems(5,6)])
    show "chain m i p (pre @ post)" "distinct (p # pre @ post)" "u = last (p # pre)"
      using Cons.prems(1,2,4) by simp_all
    show "forward_of m' n i = forward_of m n i" if "n \<in> set (p # pre @ post)" "n \<noteq> u" for n
      using Cons.prems(7) [of n] that by simp
  qed
  ultimately show ?case by simp
qed

lemma chain_delete:
  assumes "chain m i a (pre @ v # post)" and "distinct (a # pre @ v # post)"
    and "u = last (a # pre)" and "forward_of m' u i = forward_of m v i"
    and "\<And>n. n \<in> set (a # pre @ post) \<Longrightarrow> n \<noteq> u \<Longrightarrow> forward_of m' n i = forward_of m n i"
  shows "chain m' i a (pre @ post)"
  using assms
proof (induction pre arbitrary: a)
  case Nil
  show ?case
  proof (cases post)
    case (Cons p ps)
    have "forward_of m' n i = forward_of m n i" if "n \<in> set (p # ps)" for n
      using that Nil.prems(2) Nil.prems(5) [of n] Nil.prems(3) Cons by auto
    then have "chain m' i p ps = chain m i p ps" by (rule chain_cong)
    then show ?thesis using Cons Nil.prems by simp
  qed (use Nil.prems in simp)
next
  case (Cons p pre)
  have "u \<in> set (p # pre)" using Cons.prems(3) by (metis last.simps last_in_set list.distinct(1))
  then have "a \<noteq> u" using Cons.prems(2) by auto
  then have "forward_of m' a i = p" "p \<noteq> 0" using Cons.prems(1) Cons.prems(5) [of a] by simp_all
  moreover have "chain m' i p (pre @ post)"
  proof (rule Cons.IH [OF _ _ _ Cons.prems(4)])
    show "chain m i p (pre @ v # post)" "distinct (p # pre @ v # post)" "u = last (p # pre)"
      using Cons.prems(1-3) by simp_all
    show "forward_of m' n i = forward_of m n i" if "n \<in> set (p # pre @ post)" "n \<noteq> u" for n
      using Cons.prems(5) [of n] that by simp
  qed
  ultimately show ?case by simp
qed


section \<open>Inserting\<close>

text \<open>The addresses of the \<open>forward\<close> fields of the levels \<open>I\<close>.\<close>

definition links :: "u32 set \<Rightarrow> nat set \<Rightarrow> u32 set" where
  "links H I = {fld n (4 + i) | n i. n \<in> H \<and> i \<in> I}"

lemma links_keep:
  assumes "changes_only (links H I) m m'" and "headers H" and "I \<subseteq> {..6}" and "n \<in> H"
  shows "j \<le> 6 \<Longrightarrow> j \<notin> I \<Longrightarrow> forward_of m' n j = forward_of m n j" "size_of m' n = size_of m n"
    "head_of m' n = head_of m n" "next_of m' n = next_of m n" "prev_of m' n = prev_of m n"
proof -
  have keep: "load32 m' (fld n k) = load32 m (fld n k)" if "k < 11" "\<And>i. i \<in> I \<Longrightarrow> k \<noteq> 4 + i" for k
  proof (rule changes_only_load [OF assms(1)])
    show "aligned4 (fld n k)" using assms(2,4) by (auto simp: headers_def intro: aligned4_fld)
    show "fld n k \<notin> links H I"
    proof
      assume "fld n k \<in> links H I"
      then obtain p i where "fld n k = fld p (4 + i)" "p \<in> H" "i \<in> I" unfolding links_def by blast
      then show False using fld_eq [OF assms(2,4), of p k "4 + i"] that assms(3) by auto
    qed
  qed
  show "j \<le> 6 \<Longrightarrow> j \<notin> I \<Longrightarrow> forward_of m' n j = forward_of m n j" by (auto simp: fields intro!: keep)
  show "size_of m' n = size_of m n" "head_of m' n = head_of m n" "next_of m' n = next_of m n"
    "prev_of m' n = prev_of m n"
    by (auto simp: fields intro!: keep)
qed

lemma links_page_sized:
  "changes_only (links H I) m m' \<Longrightarrow> headers H \<Longrightarrow> I \<subseteq> {..6} \<Longrightarrow> n \<in> H \<Longrightarrow> page_sized m' n = page_sized m n"
  "changes_only (links H I) m m' \<Longrightarrow> headers H \<Longrightarrow> I \<subseteq> {..6} \<Longrightarrow> n \<in> H \<Longrightarrow> bytes m' n = bytes m n"
  by (simp_all add: page_sized_def bytes_def links_keep(2))

lemma links_chain:
  assumes "changes_only (links H I) m m'" and "headers H" and "I \<subseteq> {..6}" and "i \<le> 6" and "i \<notin> I"
    and "set (a # xs) \<subseteq> H"
  shows "chain m' i a xs = chain m i a xs"
  by (rule chain_cong, rule links_keep(1) [OF assms(1-3)]) (use assms(4-6) in auto)

lemma links_store: "headers H \<Longrightarrow> n \<in> H \<Longrightarrow> i \<in> I \<Longrightarrow> changes_only (links H I) m (store32 m (fld n (4 + i)) v)"
  by (rule changes_only_store) (auto simp: links_def headers_def intro: aligned4_fld)

lemma links_mono: "changes_only (links H I) m m' \<Longrightarrow> I \<subseteq> J \<Longrightarrow> changes_only (links H J) m m'"
  by (erule changes_only_mono) (auto simp: links_def)

text \<open>A level on which \<open>val\<close> can be put between \<open>pre\<close> and \<open>post\<close>.\<close>

definition gap :: "u32 set \<Rightarrow> mem \<Rightarrow> u32 \<Rightarrow> u32 \<Rightarrow> nat \<Rightarrow> u32 list \<Rightarrow> u32 list \<Rightarrow> bool" where
  "gap H m h val i pre post \<longleftrightarrow> i \<le> 6 \<and> chain m i h (pre @ post) \<and> distinct (h # pre @ post) \<and>
     set (h # pre @ post) \<subseteq> H - {val} \<and> (\<forall>n \<in> set post. page_sized m n)"

lemma gap_keep:
  assumes "gap H m h val i pre post" and "changes_only (links H {j}) m m'" and "headers H" and "j \<le> 6" and "i \<noteq> j"
  shows "gap H m' h val i pre post"
proof -
  have H: "set (h # pre @ post) \<subseteq> H" using assms(1) unfolding gap_def by blast
  have "chain m' i h (pre @ post) = chain m i h (pre @ post)"
    by (rule links_chain [OF assms(2,3)]) (use assms H in \<open>auto simp: gap_def\<close>)
  moreover have "page_sized m' n = page_sized m n" if "n \<in> set post" for n
    by (rule links_page_sized [OF assms(2,3)]) (use assms(4) H that in auto)
  ultimately show ?thesis using assms(1) by (simp add: gap_def)
qed

lemma skip_link_step:
  assumes "gap H (mem s) h val i pre post" and "headers H" and "val \<in> H" and "val \<noteq> 0"
    and "update ! i = last (h # pre)"
  shows "\<exists>m'. skip_link (i # is) val update s = skip_link is val update (s\<lparr>mem := m'\<rparr>) \<and>
    changes_only (links H {i}) (mem s) m' \<and> chain m' i h (pre @ val # post)"
proof -
  let ?m = "mem s"
  define u where "u = last (h # pre)"
  define m1 where "m1 = store32 ?m (forward_at val i) (forward_of ?m u i)"
  define m2 where "m2 = store32 m1 (forward_at u i) val"
  have i: "i \<le> 6" and ch: "chain ?m i h (pre @ post)" and di: "distinct (h # pre @ post)"
    and sub: "set (h # pre @ post) \<subseteq> H - {val}" and ps: "\<forall>n \<in> set post. page_sized ?m n"
    using assms(1) by (simp_all add: gap_def)
  have "u \<in> set (h # pre)" unfolding u_def by (rule last_in_set) simp
  then have u: "u \<in> H" "u \<noteq> val" using sub by auto
  have fu: "forward_of ?m u i = first_or_null post" unfolding u_def by (rule chain_first [OF chain_last [OF ch]])
  have c1: "changes_only (links H {i}) ?m m1"
    unfolding m1_def fields by (rule links_store [OF assms(2,3)]) simp
  moreover have "changes_only (links H {i}) m1 m2"
    unfolding m2_def fields by (rule links_store [OF assms(2) u(1)]) simp
  ultimately have c2: "changes_only (links H {i}) ?m m2" by (rule changes_only_trans)
  have load: "forward_of m2 n i = (if n = u then val else if n = val then forward_of ?m u i else forward_of ?m n i)"
    if "n \<in> H" for n
  proof -
    have "4 + i < 11" using i by simp
    then show ?thesis unfolding m2_def m1_def fields using load_fld [OF assms(2) _ that] u assms(3) by auto
  qed
  have "forward_of m1 val i = first_or_null post" unfolding m1_def fu by (simp add: fields)
  moreover have "page_sized m1 (first_or_null post)" if "first_or_null post \<noteq> 0"
  proof (cases post)
    case (Cons p ps)
    then have "page_sized m1 p = page_sized ?m p"
      by (intro links_page_sized [OF c1 assms(2)]) (use sub i in auto)
    then show ?thesis using Cons ps by simp
  qed (use that in simp)
  ultimately have "skip_link (i # is) val update s = skip_link is val update (s\<lparr>mem := m2\<rparr>)"
    using assms(5) [folded u_def] by (simp add: put_word_def Let_def m1_def [symmetric] m2_def [symmetric])
  moreover have "chain m2 i h (pre @ val # post)"
  proof (rule chain_insert [OF ch di assms(4) u_def])
    show "forward_of m2 u i = val" using load u by simp
    show "forward_of m2 val i = forward_of ?m u i" using load [OF assms(3)] u by simp
    show "forward_of m2 n i = forward_of ?m n i" if "n \<in> set (h # pre @ post)" "n \<noteq> u" for n
    proof -
      have "n \<in> H" "n \<noteq> val" using that(1) sub by blast+
      then show ?thesis using load [of n] that(2) by simp
    qed
  qed
  ultimately show ?thesis using c2 by blast
qed

lemma skip_link_run:
  assumes "distinct is" and "\<And>i. i \<in> set is \<Longrightarrow> gap H (mem s) h val i (pre i) (post i) \<and> update ! i = last (h # pre i)"
    and "headers H" and "val \<in> H" and "val \<noteq> 0"
  shows "\<exists>m'. skip_link is val update s = Inr ((), s\<lparr>mem := m'\<rparr>) \<and> changes_only (links H (set is)) (mem s) m' \<and>
    (\<forall>i \<in> set is. chain m' i h (pre i @ val # post i))"
  using assms(1,2)
proof (induction "is" arbitrary: s)
  case Nil
  show ?case by (intro exI [of _ "mem s"]) simp
next
  case (Cons i "is")
  have gi: "gap H (mem s) h val i (pre i) (post i)" "update ! i = last (h # pre i)" using Cons.prems(2) by simp_all
  then have i: "i \<le> 6" by (simp add: gap_def)
  obtain m1 where m1: "skip_link (i # is) val update s = skip_link is val update (s\<lparr>mem := m1\<rparr>)"
    "changes_only (links H {i}) (mem s) m1" "chain m1 i h (pre i @ val # post i)"
    using skip_link_step [OF gi(1) assms(3-5) gi(2)] by blast
  have "gap H (mem (s\<lparr>mem := m1\<rparr>)) h val j (pre j) (post j) \<and> update ! j = last (h # pre j)" if "j \<in> set is" for j
    using gap_keep [OF _ m1(2) assms(3) i, of h val j] Cons.prems that by fastforce
  from Cons.IH [OF _ this] Cons.prems(1) obtain m' where m':
    "skip_link is val update (s\<lparr>mem := m1\<rparr>) = Inr ((), s\<lparr>mem := m'\<rparr>)"
    "changes_only (links H (set is)) m1 m'" "\<forall>i \<in> set is. chain m' i h (pre i @ val # post i)"
    by auto
  have "set is \<subseteq> {..6}" using Cons.prems(2) by (auto simp: gap_def)
  moreover have "i \<notin> set is" "set (h # pre i @ val # post i) \<subseteq> H"
    using Cons.prems(1) gi(1) assms(4) by (auto simp: gap_def)
  ultimately have "chain m' i h (pre i @ val # post i)"
    using links_chain [OF m'(2) assms(3) _ i] m1(3) by blast
  moreover have "changes_only (links H (set (i # is))) (mem s) m'"
    using changes_only_trans [OF links_mono [OF m1(2)] links_mono [OF m'(2)]] by auto
  ultimately show ?case using m1(1) m'(1,3) by (intro exI [of _ m']) auto
qed


lemma below_above_swap:
  "below m k (at_level lev xs i) = at_level lev (below m k xs) i"
  "at_least m k (at_level lev xs i) = at_level lev (at_least m k xs) i"
  by (simp_all add: below_def at_least_def at_level_def conj_commute)

lemma at_level_cong: "(\<And>n. n \<in> set xs \<Longrightarrow> lev n = lev' n) \<Longrightarrow> at_level lev xs i = at_level lev' xs i"
  unfolding at_level_def by (rule filter_cong) auto

lemma at_level_insert:
  assumes "sorted (map (bytes m) xs)" and "val \<notin> set xs"
  shows "at_level (lev(val := L)) (below m k xs @ val # at_least m k xs) i =
    (if i \<le> L then below m k (at_level lev xs i) @ val # at_least m k (at_level lev xs i) else at_level lev xs i)"
proof -
  let ?l = "lev(val := L)"
  have b: "at_level ?l (below m k xs) i = at_level lev (below m k xs) i"
    "at_level ?l (at_least m k xs) i = at_level lev (at_least m k xs) i"
    by (rule at_level_cong; use assms(2) in \<open>auto simp: below_def at_least_def\<close>)+
  have e: "at_level ?l (below m k xs @ val # at_least m k xs) i =
      at_level lev (below m k xs) i @ (if i \<le> L then [val] else []) @ at_level lev (at_least m k xs) i"
    unfolding b [symmetric] by (simp add: at_level_def)
  have "at_level lev xs i = at_level lev (below m k xs @ at_least m k xs) i"
    using below_above [OF assms(1)] by metis
  then have "at_level lev xs i = at_level lev (below m k xs) i @ at_level lev (at_least m k xs) i"
    by (simp add: at_level_def)
  then show ?thesis unfolding e below_above_swap by simp
qed

lemma skip_gap:
  assumes "skip_ok s xs lev" and "val \<notin> set xs" and "val \<noteq> big_head s" and "i \<le> SKIP_MAX_LEVEL"
    and "H = insert val (insert (big_head s) (set xs))"
  shows "gap H (mem s) (big_head s) val i (below (mem s) k (at_level lev xs i)) (at_least (mem s) k (at_level lev xs i))"
proof -
  let ?X = "at_level lev xs i"
  note e = skip_ok_level [OF assms(1,4), of k]
  have X: "distinct (big_head s # ?X)" "set ?X \<subseteq> set xs" "\<forall>n \<in> set ?X. page_sized (mem s) n"
    using assms(1) by (auto simp: skip_ok_def at_level_def skip_node_def)
  have ab: "set (at_least (mem s) k ?X) \<subseteq> set ?X" by (auto simp: at_least_def)
  show ?thesis
    unfolding gap_def e(2) [symmetric] using X ab assms(2-5) e(1)
    by (auto simp: SKIP_MAX_LEVEL_def e(2) [symmetric])
qed

lemma update_head: "b \<le> length u \<Longrightarrow>
   fold (\<lambda>i u. u[i := h]) [a..<b] u ! j = (if a \<le> j \<and> j < b then h else u ! j)"
proof (induction b)
  case (Suc b)
  have len: "length (fold (\<lambda>i u. u[i := h]) is u) = length u" for "is"
    by (induction "is" arbitrary: u) auto
  show ?case using Suc by (cases "a \<le> b") (auto simp: nth_list_update len less_Suc_eq)
qed simp

lemma skip_ok_inserted:
  assumes "skip_ok s xs lev" and "val \<notin> set xs" and "val \<noteq> big_head s" and "skip_node (mem s) val"
    and "H = insert val (insert (big_head s) (set xs))" and "headers H" and "L \<le> SKIP_MAX_LEVEL"
    and "changes_only (links H {..<Suc L}) (mem s) m'"
    and "\<forall>i < Suc L. chain m' i (big_head s) (below (mem s) k (at_level lev xs i) @ val # at_least (mem s) k (at_level lev xs i))"
    and "k = bytes (mem s) val"
    and "mem s' = m'" "big_head s' = big_head s" "big_level s' = max (big_level s) L"
  shows "skip_ok s' (below (mem s) k xs @ val # at_least (mem s) k xs) (lev(val := L))"
proof -
  let ?xs = "below (mem s) k xs @ val # at_least (mem s) k xs" and ?l = "lev(val := L)" and ?h = "big_head s"
  have so: "sorted (map (bytes (mem s)) xs)" using assms(1) by (simp add: skip_ok_def)
  have part: "xs = below (mem s) k xs @ at_least (mem s) k xs" by (rule below_above [OF so])
  then have set: "set ?xs = insert val (set xs)" by (metis Un_insert_right list.simps(15) set_append)
  have "distinct xs" using assms(1) by (simp add: skip_ok_def)
  then have "distinct (below (mem s) k xs @ at_least (mem s) k xs)" using part by metis
  moreover have "val \<notin> set (below (mem s) k xs @ at_least (mem s) k xs)" using part assms(2) by metis
  ultimately have di: "distinct ?xs" by simp
  have I: "{..<Suc L} \<subseteq> {..6}" using assms(7) by (auto simp: SKIP_MAX_LEVEL_def)
  note keep = links_keep [OF assms(8,6) I] links_page_sized [OF assms(8,6) I]
  have chains: "chain m' i ?h (at_level ?l ?xs i)" if "i \<le> SKIP_MAX_LEVEL" for i
  proof (cases "i \<le> L")
    case True
    then show ?thesis using assms(9) by (simp add: at_level_insert [OF so assms(2)])
  next
    case False
    have "chain m' i ?h (at_level lev xs i) = chain (mem s) i ?h (at_level lev xs i)"
      by (rule links_chain [OF assms(8,6) I]) (use False that assms(5) at_level_sub in \<open>auto simp: SKIP_MAX_LEVEL_def\<close>)
    then show ?thesis using False assms(1) that by (simp add: at_level_insert [OF so assms(2)] skip_ok_def)
  qed
  have node: "skip_node m' n = skip_node (mem s) n" "bytes m' n = bytes (mem s) n" if "n \<in> set ?xs" for n
  proof -
    have "n \<in> H" using that assms(5) unfolding set by auto
    then show "skip_node m' n = skip_node (mem s) n" "bytes m' n = bytes (mem s) n"
      unfolding skip_node_def using keep(6,7) by simp_all
  qed
  have "sorted (map (bytes (mem s)) ?xs)"
    using so assms(10) by (auto simp: sorted_append below_def at_least_def sorted_filter)
  moreover have "map (bytes m') ?xs = map (bytes (mem s)) ?xs" using node(2) by (rule map_cong [OF refl])
  ultimately have so': "sorted (map (bytes m') ?xs)" by (simp only:)
  have "\<forall>n \<in> set ?xs. ?l n \<le> max (big_level s) L \<and> skip_node m' n"
    using node(1) assms(1,4) unfolding set by (auto simp: skip_ok_def)
  moreover have "max (big_level s) L \<le> SKIP_MAX_LEVEL" "?h \<notin> set ?xs" "insert ?h (set ?xs) = H"
    using assms(1,3,5,7) unfolding set by (auto simp: skip_ok_def)
  ultimately show ?thesis
    unfolding skip_ok_def assms(11-13) using chains di so' assms(6) by blast
qed

lemma skip_insert_run:
  assumes "skip_ok s xs lev" and "val \<notin> set xs" and "val \<noteq> big_head s" and "skip_node (mem s) val"
    and "head_of (mem s) val \<noteq> 0" and "size_of (mem s) val \<noteq> 0"
    and "H = insert val (insert (big_head s) (set xs))" and "headers H" and "k = bytes (mem s) val"
  shows "\<exists>L g m'. klmalloc_skip_list_insert val s =
      Inr ((), s\<lparr>skip_rng := g, big_level := max (big_level s) L, mem := m'\<rparr>) \<and> L \<le> SKIP_MAX_LEVEL \<and>
    changes_only (links H {..6}) (mem s) m' \<and>
    skip_ok (s\<lparr>skip_rng := g, big_level := max (big_level s) L, mem := m'\<rparr>)
      (below (mem s) k xs @ val # at_least (mem s) k xs) (lev(val := L))"
proof -
  have v: "val \<noteq> 0" "val mod PAGE_SIZE = 0" "page_sized (mem s) val" "unat (size_of (mem s) val) < 2147483648"
    using assms(4) by (simp_all add: skip_node_def bytes_def)
  have k: "k = unat (size_of (mem s) val)" using assms(9) by (simp add: bytes_def)
  obtain upd where u: "skip_levels 351 (size_of (mem s) val) (levels_down s) (big_head s) no_update s =
      Inr ((pred_at s xs lev k 0, upd), s)" "length upd = 7" "\<forall>j \<le> big_level s. upd ! j = pred_at s xs lev k j"
    using skip_search_run [OF assms(1) v(4)] unfolding k by blast
  have "forward_of (mem s) (pred_at s xs lev k 0) 0 = first_or_null (at_least (mem s) k xs)"
    using forward_pred_at [OF assms(1), of 0 k] by simp
  moreover have "first_or_null (at_least (mem s) k xs) \<noteq> val"
    using v(1) assms(2) by (auto simp: first_or_null_def at_least_def filter_eq_Cons_iff split: list.splits)
  ultimately have ne: "forward_of (mem s) (pred_at s xs lev k 0) 0 \<noteq> val" by simp
  obtain L g where rl: "klmalloc_random_level s = (L, s\<lparr>skip_rng := g\<rparr>)" and L: "L \<le> SKIP_MAX_LEVEL"
    using random_level_run by blast
  let ?s8 = "s\<lparr>skip_rng := g, big_level := max (big_level s) L\<rparr>"
  define upd1 where "upd1 = (if big_level s < L then fold (\<lambda>i u. u[i := big_head s]) [big_level s + 1..<Suc L] upd else upd)"
  have upd1: "upd1 ! j = pred_at s xs lev k j" if "j < Suc L" for j
    using u(2,3) that L pred_at_above [OF assms(1)]
    by (simp only: upd1_def update_head SKIP_MAX_LEVEL_def if_distrib [of "\<lambda>u. u ! j"]) (auto simp: update_head)
  have run: "klmalloc_skip_list_insert val s = skip_link [0..<Suc L] val upd1 ?s8"
    using v assms(5,6) u(1) ne rl
    by (cases "big_level s < L") (simp_all add: klmalloc_skip_list_insert_def upd1_def max_def)
  have gaps: "gap H (mem ?s8) (big_head s) val i (below (mem s) k (at_level lev xs i)) (at_least (mem s) k (at_level lev xs i)) \<and>
      upd1 ! i = last (big_head s # below (mem s) k (at_level lev xs i))" if "i \<in> set [0..<Suc L]" for i
  proof -
    have "i < Suc L" "i \<le> SKIP_MAX_LEVEL" "mem ?s8 = mem s" using that L by auto
    then show ?thesis
      using skip_gap [OF assms(1-3) _ assms(7), of i k] upd1 [of i] unfolding pred_at_def by presburger
  qed
  obtain m' where m': "skip_link [0..<Suc L] val upd1 ?s8 = Inr ((), ?s8\<lparr>mem := m'\<rparr>)"
    "changes_only (links H (set [0..<Suc L])) (mem ?s8) m'"
    "\<forall>i \<in> set [0..<Suc L]. chain m' i (big_head s)
       (below (mem s) k (at_level lev xs i) @ val # at_least (mem s) k (at_level lev xs i))"
  proof -
    have "val \<in> H" using assms(7) by simp
    from skip_link_run [OF distinct_upt [of 0 "Suc L"] gaps assms(8) this v(1)] show ?thesis using that by blast
  qed
  have ch: "changes_only (links H {..<Suc L}) (mem s) m'" using m'(2) by (simp add: atLeast0LessThan del: upt_Suc)
  have "skip_ok (?s8\<lparr>mem := m'\<rparr>) (below (mem s) k xs @ val # at_least (mem s) k xs) (lev(val := L))"
    by (rule skip_ok_inserted [OF assms(1-4,7,8) L ch _ assms(9)]) (use m'(3) in \<open>auto simp: less_Suc_eq\<close>)
  moreover have "changes_only (links H {..6}) (mem s) m'"
    by (rule links_mono [OF ch]) (use L in \<open>auto simp: SKIP_MAX_LEVEL_def\<close>)
  ultimately show ?thesis using run m'(1) L by (intro exI [of _ L] exI [of _ g] exI [of _ m']) simp
qed


section \<open>Deleting\<close>

definition linked :: "u32 set \<Rightarrow> mem \<Rightarrow> u32 \<Rightarrow> u32 \<Rightarrow> nat \<Rightarrow> u32 list \<Rightarrow> u32 list \<Rightarrow> bool" where
  "linked H m h val i pre post \<longleftrightarrow> i \<le> 6 \<and> chain m i h (pre @ val # post) \<and> distinct (h # pre @ val # post) \<and>
     set (h # pre @ val # post) \<subseteq> H \<and> (\<forall>n \<in> set post. n mod PAGE_SIZE = 0 \<and> page_sized m n)"

lemma linked_keep:
  assumes "linked H m h val i pre post" and "changes_only (links H {j}) m m'" and "headers H" and "j \<le> 6" and "i \<noteq> j"
  shows "linked H m' h val i pre post"
proof -
  have H: "set (h # pre @ val # post) \<subseteq> H" using assms(1) unfolding linked_def by blast
  have "chain m' i h (pre @ val # post) = chain m i h (pre @ val # post)"
    by (rule links_chain [OF assms(2,3)]) (use assms H in \<open>auto simp: linked_def\<close>)
  moreover have "page_sized m' n = page_sized m n" if "n \<in> set post" for n
    by (rule links_page_sized [OF assms(2,3)]) (use assms(4) H that in auto)
  ultimately show ?thesis using assms(1) by (simp add: linked_def)
qed

lemma skip_unlink_step:
  assumes "linked H (mem s) h val i pre post" and "headers H" and "update ! i = last (h # pre)"
  shows "\<exists>m'. skip_unlink (i # is) val update s = skip_unlink is val update (s\<lparr>mem := m'\<rparr>) \<and>
    changes_only (links H {i}) (mem s) m' \<and> chain m' i h (pre @ post)"
proof -
  let ?m = "mem s"
  define u where "u = last (h # pre)"
  define m1 where "m1 = store32 ?m (forward_at u i) (forward_of ?m val i)"
  have i: "i \<le> 6" and ch: "chain ?m i h (pre @ val # post)" and di: "distinct (h # pre @ val # post)"
    and sub: "set (h # pre @ val # post) \<subseteq> H" and ps: "\<forall>n \<in> set post. n mod PAGE_SIZE = 0 \<and> page_sized ?m n"
    using assms(1) by (simp_all add: linked_def)
  have "u \<in> set (h # pre)" unfolding u_def by (rule last_in_set) simp
  then have u: "u \<in> H" "u \<noteq> val" using sub di by auto
  have fu: "forward_of ?m u i = val" "forward_of ?m val i = first_or_null post"
    unfolding u_def using chain_first [OF chain_last [OF ch]] chain_first [OF chain_append [OF ch]] by simp_all
  have c1: "changes_only (links H {i}) ?m m1"
    unfolding m1_def fields by (rule links_store [OF assms(2) u(1)]) simp
  have load: "forward_of m1 n i = (if n = u then forward_of ?m val i else forward_of ?m n i)" if "n \<in> H" for n
  proof -
    have "4 + i < 11" using i by simp
    then show ?thesis unfolding m1_def fields using load_fld [OF assms(2) u(1) that] by auto
  qed
  have after: "forward_of m1 u i = first_or_null post" using load [OF u(1)] fu(2) by simp
  have "page_sized m1 (first_or_null post) \<and> first_or_null post mod PAGE_SIZE = 0" if "first_or_null post \<noteq> 0"
  proof (cases post)
    case (Cons p ps)
    then have "page_sized m1 p = page_sized ?m p"
      by (intro links_page_sized [OF c1 assms(2)]) (use sub i in auto)
    then show ?thesis using Cons ps by simp
  qed (use that in simp)
  then have "skip_unlink (i # is) val update s = skip_unlink is val update (s\<lparr>mem := m1\<rparr>)"
    using assms(3) [folded u_def] after fu(1)
    by (simp add: put_word_def Let_def m1_def [symmetric])
  moreover have "chain m1 i h (pre @ post)"
  proof (rule chain_delete [OF ch di u_def])
    show "forward_of m1 u i = forward_of ?m val i" using load [OF u(1)] by simp
    show "forward_of m1 n i = forward_of ?m n i" if "n \<in> set (h # pre @ post)" "n \<noteq> u" for n
    proof -
      have "n \<in> H" using that(1) sub by auto
      then show ?thesis using load [of n] that(2) by simp
    qed
  qed
  ultimately show ?thesis using c1 by blast
qed

lemma skip_unlink_run:
  assumes "distinct is" and "\<And>i. i \<in> set is \<Longrightarrow> linked H (mem s) h val i (pre i) (post i) \<and> update ! i = last (h # pre i)"
    and "headers H"
  shows "\<exists>m'. skip_unlink (is @ rest) val update s = skip_unlink rest val update (s\<lparr>mem := m'\<rparr>) \<and>
    changes_only (links H (set is)) (mem s) m' \<and> (\<forall>i \<in> set is. chain m' i h (pre i @ post i))"
  using assms(1,2)
proof (induction "is" arbitrary: s)
  case Nil
  show ?case by (intro exI [of _ "mem s"]) simp
next
  case (Cons i "is")
  have gi: "linked H (mem s) h val i (pre i) (post i)" "update ! i = last (h # pre i)" using Cons.prems(2) by simp_all
  then have i: "i \<le> 6" by (simp add: linked_def)
  obtain m1 where m1: "skip_unlink (i # is @ rest) val update s = skip_unlink (is @ rest) val update (s\<lparr>mem := m1\<rparr>)"
    "changes_only (links H {i}) (mem s) m1" "chain m1 i h (pre i @ post i)"
    using skip_unlink_step [OF gi(1) assms(3) gi(2)] by blast
  have "linked H (mem (s\<lparr>mem := m1\<rparr>)) h val j (pre j) (post j) \<and> update ! j = last (h # pre j)" if "j \<in> set is" for j
    using linked_keep [OF _ m1(2) assms(3) i, of h val j] Cons.prems that by fastforce
  from Cons.IH [OF _ this] Cons.prems(1) obtain m' where m':
    "skip_unlink (is @ rest) val update (s\<lparr>mem := m1\<rparr>) = skip_unlink rest val update (s\<lparr>mem := m'\<rparr>)"
    "changes_only (links H (set is)) m1 m'" "\<forall>i \<in> set is. chain m' i h (pre i @ post i)"
    by auto
  have "set is \<subseteq> {..6}" using Cons.prems(2) by (auto simp: linked_def)
  moreover have "i \<notin> set is" "set (h # pre i @ post i) \<subseteq> H"
    using Cons.prems(1) gi(1) by (auto simp: linked_def)
  ultimately have "chain m' i h (pre i @ post i)"
    using links_chain [OF m'(2) assms(3) _ i] m1(3) by blast
  moreover have "changes_only (links H (set (i # is))) (mem s) m'"
    using changes_only_trans [OF links_mono [OF m1(2)] links_mono [OF m'(2)]] by auto
  ultimately show ?case using m1(1) m'(1,3) by (intro exI [of _ m']) auto
qed

lemma lower_level_zero: "lower_level m h l < i \<Longrightarrow> i \<le> l \<Longrightarrow> forward_of m h i = 0"
  by (induction l) (auto simp: le_Suc_eq split: if_splits)

lemma lower_level_le: "lower_level m h l \<le> l"
  by (induction l) auto

lemma at_level_append: "at_level lev (pre @ post) i = at_level lev pre i @ at_level lev post i"
  by (simp add: at_level_def)

lemma skip_ok_deleted:
  assumes "skip_ok s (pre @ val # post) lev" and "H = insert (big_head s) (set (pre @ val # post))"
    and "changes_only (links H {..<Suc (lev val)}) (mem s) m'"
    and "\<forall>i < Suc (lev val). chain m' i (big_head s) (at_level lev pre i @ at_level lev post i)"
    and "mem s' = m'" "big_head s' = big_head s" "big_level s' = lower_level m' (big_head s) (big_level s)"
  shows "skip_ok s' (pre @ post) lev"
proof -
  let ?xs = "pre @ post" and ?h = "big_head s"
  have H: "headers H" and L: "lev val \<le> big_level s" "big_level s \<le> 6"
    and sx: "sorted (map (bytes (mem s)) (pre @ val # post))" and di: "distinct (pre @ val # post)"
    using assms(1,2) by (auto simp: skip_ok_def SKIP_MAX_LEVEL_def)
  have I: "{..<Suc (lev val)} \<subseteq> {..6}" using L by auto
  note keep = links_page_sized [OF assms(3) H I]
  have sub: "set ?xs \<subseteq> H" "?h \<in> H" using assms(2) by auto
  have chains: "chain m' i ?h (at_level lev ?xs i)" if "i \<le> SKIP_MAX_LEVEL" for i
  proof (cases "i \<le> lev val")
    case True
    then show ?thesis using assms(4) by (simp add: at_level_append)
  next
    case False
    then have e: "at_level lev (pre @ val # post) i = at_level lev ?xs i" by (simp add: at_level_def)
    have "chain m' i ?h (at_level lev ?xs i) = chain (mem s) i ?h (at_level lev ?xs i)"
      by (rule links_chain [OF assms(3) H I]) (use False that sub at_level_sub [of lev ?xs i] in \<open>auto simp: SKIP_MAX_LEVEL_def\<close>)
    then show ?thesis using skip_chain [OF assms(1) that, unfolded e] by simp
  qed
  have node: "skip_node m' n = skip_node (mem s) n" "bytes m' n = bytes (mem s) n" if "n \<in> set ?xs" for n
  proof -
    have "n \<in> H" using that sub(1) by (rule subsetD [rotated])
    then show "skip_node m' n = skip_node (mem s) n" "bytes m' n = bytes (mem s) n"
      unfolding skip_node_def using keep by simp_all
  qed
  have "sorted (map (bytes (mem s)) ?xs)" using sx by (auto simp: sorted_append)
  moreover have "map (bytes m') ?xs = map (bytes (mem s)) ?xs" using node(2) by (rule map_cong [OF refl])
  ultimately have so: "sorted (map (bytes m') ?xs)" by (simp only:)
  have "lev n \<le> lower_level m' ?h (big_level s)" if n: "n \<in> set ?xs" for n
  proof (rule ccontr)
    assume a: "\<not> ?thesis"
    have le: "lev n \<le> big_level s" using assms(1) n by (auto simp: skip_ok_def)
    then have "forward_of m' ?h (lev n) = 0" using a by (intro lower_level_zero) simp_all
    moreover have "chain m' (lev n) ?h (at_level lev ?xs (lev n))" using chains le L by (simp add: SKIP_MAX_LEVEL_def)
    ultimately have "at_level lev ?xs (lev n) = []" by (cases "at_level lev ?xs (lev n)") auto
    then show False using n by (auto simp: at_level_def filter_empty_conv)
  qed
  moreover have "\<forall>n \<in> set ?xs. skip_node m' n" using assms(1) node(1) by (auto simp: skip_ok_def)
  moreover have "lower_level m' ?h (big_level s) \<le> SKIP_MAX_LEVEL"
    using lower_level_le [of m' ?h "big_level s"] L by (simp add: SKIP_MAX_LEVEL_def)
  moreover have "distinct ?xs" "?h \<notin> set ?xs" using assms(1) by (auto simp: skip_ok_def)
  moreover have "headers (insert ?h (set ?xs))" by (rule headers_mono [OF H]) (use sub in blast)
  ultimately show ?thesis
    unfolding skip_ok_def assms(5-7) using chains so by blast
qed

text \<open>The node sits, at each of its levels, between the nodes before and behind it; the search finds those before it.\<close>

lemma delete_parts:
  assumes "skip_ok s (pre @ val # post) lev" and "\<forall>n \<in> set pre. bytes (mem s) n < bytes (mem s) val" and "k = bytes (mem s) val"
  shows "below (mem s) k (pre @ val # post) = pre" "at_least (mem s) k (pre @ val # post) = val # post"
    "at_least (mem s) k (at_level lev (pre @ val # post) i) = at_level lev (val # post) i"
    "pred_at s (pre @ val # post) lev k i = last (big_head s # at_level lev pre i)"
proof -
  have "sorted (map (bytes (mem s)) (pre @ val # post))" using assms(1) by (simp add: skip_ok_def)
  then show parts: "below (mem s) k (pre @ val # post) = pre" "at_least (mem s) k (pre @ val # post) = val # post"
    using assms(2) unfolding below_def at_least_def assms(3) by (auto simp: sorted_append filter_id_conv filter_empty_conv)
  show "at_least (mem s) k (at_level lev (pre @ val # post) i) = at_level lev (val # post) i"
    unfolding below_above_swap parts by (rule refl)
  show "pred_at s (pre @ val # post) lev k i = last (big_head s # at_level lev pre i)"
    unfolding pred_at_def below_above_swap parts by (rule refl)
qed

lemma skip_linked:
  assumes "skip_ok s (pre @ val # post) lev" and "i \<le> lev val" and "H = insert (big_head s) (set (pre @ val # post))"
  shows "linked H (mem s) (big_head s) val i (at_level lev pre i) (at_level lev post i)"
proof -
  let ?h = "big_head s"
  have i: "i \<le> SKIP_MAX_LEVEL" using assms(1,2) by (auto simp: skip_ok_def)
  have di: "distinct (?h # pre @ val # post)" using assms(1) by (auto simp: skip_ok_def)
  have "at_level lev (pre @ val # post) i = at_level lev pre i @ val # at_level lev post i" using assms(2) by (simp add: at_level_def)
  then have "chain (mem s) i ?h (at_level lev pre i @ val # at_level lev post i)" using skip_chain [OF assms(1) i] by simp
  moreover have "distinct (?h # at_level lev pre i @ val # at_level lev post i)" using di by (auto simp: at_level_def)
  moreover have "set (?h # at_level lev pre i @ val # at_level lev post i) \<subseteq> H" using assms(3) by (auto simp: at_level_def)
  moreover have "\<forall>n \<in> set (at_level lev post i). n mod PAGE_SIZE = 0 \<and> page_sized (mem s) n"
  proof
    fix n assume "n \<in> set (at_level lev post i)"
    then have "skip_node (mem s) n" using assms(1) by (auto simp: skip_ok_def at_level_def)
    then show "n mod PAGE_SIZE = 0 \<and> page_sized (mem s) n" unfolding skip_node_def by blast
  qed
  ultimately show ?thesis unfolding linked_def using i by (simp only: SKIP_MAX_LEVEL_def simp_thms)
qed

text \<open>Above its own level the node is not linked: there the loop stops.\<close>

lemma skip_unlink_stops:
  assumes "skip_ok s (pre @ val # post) lev" and "\<forall>n \<in> set pre. bytes (mem s) n < bytes (mem s) val"
    and "H = insert (big_head s) (set (pre @ val # post))" and "headers H" and "changes_only (links H {..<Suc (lev val)}) (mem s) m'"
    and "\<forall>j \<le> big_level s. upd ! j = pred_at s (pre @ val # post) lev (bytes (mem s) val) j"
  shows "skip_unlink [Suc (lev val)..<Suc (big_level s)] val upd (s\<lparr>mem := m'\<rparr>) = Inr ((), s\<lparr>mem := m'\<rparr>)"
proof (cases "lev val < big_level s")
  case True
  let ?i = "Suc (lev val)" and ?xs = "pre @ val # post" and ?h = "big_head s"
  note parts = delete_parts [OF assms(1,2) refl]
  have L: "lev val \<le> 6" "big_level s \<le> 6" using assms(1) by (auto simp: skip_ok_def SKIP_MAX_LEVEL_def)
  then have I: "{..<Suc (lev val)} \<subseteq> {..6}" by auto
  have i: "?i \<le> 6" "?i \<le> SKIP_MAX_LEVEL" using True L by (auto simp: SKIP_MAX_LEVEL_def)
  have di: "distinct (?h # ?xs)" and v0: "val \<noteq> 0" using assms(1) by (auto simp: skip_ok_def skip_node_def)
  have ui: "upd ! ?i = pred_at s ?xs lev (bytes (mem s) val) ?i" using assms(6) True by simp
  have "upd ! ?i \<in> H"
  proof -
    have "last (?h # at_level lev pre ?i) \<in> set (?h # at_level lev pre ?i)" by (rule last_in_set) simp
    moreover have "set (?h # at_level lev pre ?i) \<subseteq> H" using assms(3) at_level_sub by auto
    ultimately show ?thesis unfolding ui parts(4) by (simp only: subset_iff)
  qed
  then have "forward_of m' (upd ! ?i) ?i = first_or_null (at_level lev (val # post) ?i)"
    using links_keep(1) [OF assms(5,4) I _ i(1)] forward_pred_at [OF assms(1) i(2), of "bytes (mem s) val"] parts(3) ui by simp
  also have "\<dots> \<noteq> val" using di v0 by (auto simp: first_or_null_def at_level_def filter_eq_Cons_iff split: list.splits)
  finally have "forward_of m' (upd ! ?i) ?i \<noteq> val" .
  moreover have "[?i..<Suc (big_level s)] = ?i # [Suc ?i..<Suc (big_level s)]" using True by (intro upt_conv_Cons) simp
  ultimately show ?thesis by simp
qed simp

lemma skip_delete_run:
  assumes "skip_ok s (pre @ val # post) lev" and "\<forall>n \<in> set pre. bytes (mem s) n < bytes (mem s) val"
    and "head_of (mem s) val \<noteq> 0" and "H = insert (big_head s) (set (pre @ val # post))"
  shows "\<exists>m'. klmalloc_skip_list_delete val s =
      Inr ((), s\<lparr>mem := m', big_level := lower_level m' (big_head s) (big_level s)\<rparr>) \<and>
    changes_only (links H {..6}) (mem s) m' \<and>
    skip_ok (s\<lparr>mem := m', big_level := lower_level m' (big_head s) (big_level s)\<rparr>) (pre @ post) lev"
proof -
  let ?xs = "pre @ val # post" and ?h = "big_head s" and ?L = "lev val" and ?k = "bytes (mem s) val"
  have H: "headers H" and L: "?L \<le> big_level s" "big_level s \<le> 6" and v: "skip_node (mem s) val"
    using assms(1,4) by (auto simp: skip_ok_def SKIP_MAX_LEVEL_def)
  have v0: "val \<noteq> 0" "unat (size_of (mem s) val) < 2147483648" using v by (simp_all add: skip_node_def bytes_def)
  note parts = delete_parts [OF assms(1,2) refl]
  obtain upd where u: "skip_levels 416 (size_of (mem s) val) (levels_down s) ?h no_update s =
      Inr ((pred_at s ?xs lev ?k 0, upd), s)" "length upd = 7" "\<forall>j \<le> big_level s. upd ! j = pred_at s ?xs lev ?k j"
    using skip_search_run [OF assms(1) v0(2)] unfolding bytes_def by blast
  have "forward_of (mem s) (pred_at s ?xs lev ?k 0) 0 = val"
    using forward_pred_at [OF assms(1), of 0 ?k] parts(1,2) by simp
  then have find: "skip_find val (forward_of (mem s) (pred_at s ?xs lev ?k 0) 0) (mem s) = Some val"
    by (simp add: skip_find.simps)
  have "Suc ?L + (big_level s - ?L) = Suc (big_level s)" using L(1) by simp
  then have split: "[0..<Suc (big_level s)] = [0..<Suc ?L] @ [Suc ?L..<Suc (big_level s)]"
    using upt_add_eq_append [of 0 "Suc ?L" "big_level s - ?L"] by simp
  have "linked H (mem s) ?h val i (at_level lev pre i) (at_level lev post i) \<and> upd ! i = last (?h # at_level lev pre i)"
    if "i \<in> set [0..<Suc ?L]" for i
  proof
    have "i \<le> ?L" using that by auto
    then show "linked H (mem s) ?h val i (at_level lev pre i) (at_level lev post i)" "upd ! i = last (?h # at_level lev pre i)"
      using skip_linked [OF assms(1) _ assms(4)] u(3) L(1) parts(4) by simp_all
  qed
  from skip_unlink_run [OF distinct_upt [of 0 "Suc ?L"] this H]
  obtain m' where m': "skip_unlink [0..<Suc (big_level s)] val upd s =
      skip_unlink [Suc ?L..<Suc (big_level s)] val upd (s\<lparr>mem := m'\<rparr>)"
    "changes_only (links H (set [0..<Suc ?L])) (mem s) m'"
    "\<forall>i \<in> set [0..<Suc ?L]. chain m' i ?h (at_level lev pre i @ at_level lev post i)"
    unfolding split by blast
  have ch: "changes_only (links H {..<Suc ?L}) (mem s) m'" using m'(2) by (simp add: atLeast0LessThan del: upt_Suc)
  have "klmalloc_skip_list_delete val s = Inr ((), s\<lparr>mem := m', big_level := lower_level m' ?h (big_level s)\<rparr>)"
    using v0(1) assms(3) u(1) find m'(1) skip_unlink_stops [OF assms(1,2,4) H ch u(3)]
    by (simp add: klmalloc_skip_list_delete_def del: upt_Suc)
  moreover have "skip_ok (s\<lparr>mem := m', big_level := lower_level m' ?h (big_level s)\<rparr>) (pre @ post) lev"
    by (rule skip_ok_deleted [OF assms(1,4) ch]) (use m'(3) in \<open>auto simp: less_Suc_eq\<close>)
  moreover have "changes_only (links H {..6}) (mem s) m'" by (rule links_mono [OF ch]) (use L in auto)
  ultimately show ?thesis by blast
qed


section \<open>The contract: a store of blocks sorted by size\<close>

text \<open>Taking best-fitting blocks for requests of size \<open>k\<close> until none fits, at most \<open>n\<close> times.\<close>

fun drain :: "('s \<Rightarrow> 'b option) \<Rightarrow> ('b \<Rightarrow> 's \<Rightarrow> 's option) \<Rightarrow> nat \<Rightarrow> 's \<Rightarrow> 'b list \<times> 's" where
  "drain look del 0 s = ([], s)"
| "drain look del (Suc n) s =
     (case look s of None \<Rightarrow> ([], s)
      | Some b \<Rightarrow> (case del b s of None \<Rightarrow> ([], s)
         | Some s1 \<Rightarrow> (let (bs, s2) = drain look del n s1 in (b # bs, s2))))"

locale best_fit =
  fixes holds :: "'s \<Rightarrow> 'b list \<Rightarrow> bool"
    and weight :: "'s \<Rightarrow> 'b \<Rightarrow> nat"
    and limit :: nat
    and admissible :: "'s \<Rightarrow> 'b list \<Rightarrow> 'b \<Rightarrow> bool"
    and best :: "nat \<Rightarrow> 's \<Rightarrow> 'b option"
    and give :: "'b \<Rightarrow> 's \<Rightarrow> 's option"
    and withdraw :: "'b \<Rightarrow> 's \<Rightarrow> 's option"
  assumes holds_sorted: "holds s xs \<Longrightarrow> sorted (map (weight s) xs) \<and> distinct xs"
    and best_first: "holds s xs \<Longrightarrow> k < limit \<Longrightarrow> best k s = List.find (\<lambda>b. k \<le> weight s b) xs"
    and give_insorts: "holds s xs \<Longrightarrow> admissible s xs b \<Longrightarrow>
      \<exists>s'. give b s = Some s' \<and> holds s' (insort_key (weight s) b xs) \<and> (\<forall>x \<in> insert b (set xs). weight s' x = weight s x)"
    and withdraw_removes: "holds s xs \<Longrightarrow> k < limit \<Longrightarrow> best k s = Some b \<Longrightarrow>
      \<exists>s'. withdraw b s = Some s' \<and> holds s' (remove1 b xs) \<and> (\<forall>x \<in> set xs. weight s' x = weight s x)"
begin

lemma best_None: "holds s xs \<Longrightarrow> k < limit \<Longrightarrow> best k s = None \<longleftrightarrow> (\<forall>x \<in> set xs. weight s x < k)"
  by (auto simp: best_first find_None_iff not_le)

lemma best_Some:
  assumes "holds s xs" and "k < limit" and "best k s = Some b"
  shows "b \<in> set xs" "k \<le> weight s b" "x \<in> set xs \<Longrightarrow> k \<le> weight s x \<Longrightarrow> weight s b \<le> weight s x"
    "filter (\<lambda>x. k \<le> weight s x) xs = b # filter (\<lambda>x. k \<le> weight s x) (remove1 b xs)"
    "filter (\<lambda>x. weight s x < k) (remove1 b xs) = filter (\<lambda>x. weight s x < k) xs"
proof -
  obtain i where i: "i < length xs" "k \<le> weight s (xs ! i)" "b = xs ! i" "\<forall>j < i. \<not> k \<le> weight s (xs ! j)"
    using assms(3) best_first [OF assms(1,2)] by (auto simp: find_Some_iff)
  then show "b \<in> set xs" "k \<le> weight s b" by auto
  define pre post where "pre = take i xs" and "post = drop (Suc i) xs"
  have xs: "xs = pre @ b # post" using i by (simp add: pre_def post_def id_take_nth_drop)
  have pre: "\<forall>x \<in> set pre. weight s x < k" using i by (auto simp: pre_def in_set_conv_nth not_le)
  show "weight s b \<le> weight s x" if "x \<in> set xs" "k \<le> weight s x"
    using that pre holds_sorted [OF assms(1)] unfolding xs by (auto simp: sorted_append)
  have r: "remove1 b (pre @ b # post) = pre @ post"
    using holds_sorted [OF assms(1)] unfolding xs by (simp add: remove1_append)
  show "filter (\<lambda>x. k \<le> weight s x) xs = b # filter (\<lambda>x. k \<le> weight s x) (remove1 b xs)"
    using pre i(2) [folded i(3)] unfolding xs r by (auto simp: filter_empty_conv not_le)
  show "filter (\<lambda>x. weight s x < k) (remove1 b xs) = filter (\<lambda>x. weight s x < k) xs"
    using i(2) [folded i(3)] unfolding xs r by simp
qed

lemma drain_all:
  assumes "holds s xs" and "k < limit" and "length (filter (\<lambda>x. k \<le> weight s x) xs) \<le> n"
  shows "\<exists>s'. drain (best k) withdraw n s = (filter (\<lambda>x. k \<le> weight s x) xs, s') \<and>
    holds s' (filter (\<lambda>x. weight s x < k) xs)"
  using assms(1,3)
proof (induction n arbitrary: s xs)
  case 0
  then have "filter (\<lambda>x. weight s x < k) xs = xs" by (auto simp: filter_id_conv filter_empty_conv not_le)
  then show ?case using 0 by simp
next
  case (Suc n)
  show ?case
  proof (cases "best k s")
    case None
    then have a: "\<forall>x \<in> set xs. weight s x < k" using best_None [OF Suc.prems(1) assms(2)] by simp
    then have "filter (\<lambda>x. weight s x < k) xs = xs" "filter (\<lambda>x. k \<le> weight s x) xs = []"
      by (auto simp: filter_id_conv filter_empty_conv not_le)
    then show ?thesis using None Suc.prems by simp
  next
    case (Some b)
    note b = best_Some [OF Suc.prems(1) assms(2) Some]
    obtain s1 where s1: "withdraw b s = Some s1" "holds s1 (remove1 b xs)" "\<forall>x \<in> set xs. weight s1 x = weight s x"
      using withdraw_removes [OF Suc.prems(1) assms(2) Some] by blast
    have w: "filter (\<lambda>x. P (weight s1 x)) (remove1 b xs) = filter (\<lambda>x. P (weight s x)) (remove1 b xs)" for P
      using s1(3) set_remove1_subset [of b xs] by (intro filter_cong) auto
    have "length (filter (\<lambda>x. k \<le> weight s1 x) (remove1 b xs)) \<le> n"
      using Suc.prems(2) b(4) by (simp add: w [of "\<lambda>y. k \<le> y"])
    from Suc.IH [OF s1(2) this] obtain s' where
      "drain (best k) withdraw n s1 = (filter (\<lambda>x. k \<le> weight s x) (remove1 b xs), s')"
      "holds s' (filter (\<lambda>x. weight s x < k) (remove1 b xs))"
      unfolding w [of "\<lambda>y. k \<le> y"] w [of "\<lambda>y. y < k"] by blast
    then show ?thesis using Some s1(1) b(4,5) by simp
  qed
qed

end

text \<open>The skip list as such a store.\<close>

definition free_list :: "'a heap_scheme \<Rightarrow> u32 list \<Rightarrow> bool" where
  "free_list s xs \<longleftrightarrow> (\<exists>lev. skip_ok s xs lev) \<and> (\<forall>n \<in> set xs. head_of (mem s) n \<noteq> 0)"

definition free_block :: "'a heap_scheme \<Rightarrow> u32 list \<Rightarrow> u32 \<Rightarrow> bool" where
  "free_block s xs n \<longleftrightarrow> n \<notin> set xs \<and> n \<noteq> big_head s \<and> skip_node (mem s) n \<and> head_of (mem s) n \<noteq> 0 \<and>
     size_of (mem s) n \<noteq> 0 \<and> headers (insert n (insert (big_head s) (set xs)))"

definition skip_best :: "nat \<Rightarrow> 'a heap_scheme \<Rightarrow> u32 option" where
  "skip_best k s = (case klmalloc_skip_list_findbest (of_nat k) s of Inl _ \<Rightarrow> None
     | Inr (n, _) \<Rightarrow> if n = 0 then None else Some n)"

definition ok_state :: "(unit, 's) result \<Rightarrow> 's option" where
  "ok_state r = (case r of Inl _ \<Rightarrow> None | Inr (_, s) \<Rightarrow> Some s)"

lemma insort_below: "below m k xs @ val # at_least m k xs = insort_key (bytes m) val xs"
  if "sorted (map (bytes m) xs)" and "k = bytes m val"
  using that(1)
proof (induction xs)
  case (Cons x xs)
  show ?case
  proof (cases "bytes m x < k")
    case True
    then show ?thesis using Cons that(2) by (simp add: below_def at_least_def)
  next
    case False
    then have "below m k (x # xs) = []" "at_least m k (x # xs) = x # xs"
      using Cons.prems by (auto simp: below_def at_least_def filter_empty_conv filter_id_conv)
    then show ?thesis using False that(2) by simp
  qed
qed (simp add: below_def at_least_def)

lemma first_at_least: "first_or_null (at_least m k xs) = (case List.find (\<lambda>b. k \<le> bytes m b) xs of None \<Rightarrow> 0 | Some n \<Rightarrow> n)"
  by (induction xs) (auto simp: at_least_def)

lemma skip_best_find:
  assumes "free_list s xs" and "k < 2147483648"
  shows "skip_best k s = List.find (\<lambda>b. k \<le> bytes (mem s) b) xs"
proof -
  obtain lev where lev: "skip_ok s xs lev" using assms(1) by (auto simp: free_list_def)
  have u: "unat (of_nat k :: u32) = k" using assms(2) by (intro unat_of_nat32) simp
  have "klmalloc_skip_list_findbest (of_nat k) s = Inr (first_or_null (at_least (mem s) k xs), s)"
    using findbest_run [OF lev, of "of_nat k"] assms(2) unfolding u by blast
  moreover have "n \<noteq> 0" if "List.find (\<lambda>b. k \<le> bytes (mem s) b) xs = Some n" for n
    using that lev by (auto simp: find_Some_iff skip_ok_def skip_node_def)
  ultimately show ?thesis
    by (auto simp: skip_best_def first_at_least split: option.splits)
qed

lemma free_list_give:
  assumes "free_list s xs" and "free_block s xs n"
  shows "\<exists>s'. klmalloc_skip_list_insert n s = Inr ((), s') \<and> free_list s' (insort_key (bytes (mem s)) n xs) \<and>
    (\<forall>x \<in> insert n (set xs). bytes (mem s') x = bytes (mem s) x) \<and>
    s' = s\<lparr>skip_rng := skip_rng s', big_level := big_level s', mem := mem s'\<rparr> \<and> big_head s' = big_head s \<and>
    changes_only (links (insert n (insert (big_head s) (set xs))) {..6}) (mem s) (mem s')"
proof -
  let ?H = "insert n (insert (big_head s) (set xs))"
  obtain lev where lev: "skip_ok s xs lev" using assms(1) by (auto simp: free_list_def)
  note b = assms(2) [unfolded free_block_def]
  obtain s' L where s': "klmalloc_skip_list_insert n s = Inr ((), s')" "changes_only (links ?H {..6}) (mem s) (mem s')"
    "skip_ok s' (below (mem s) (bytes (mem s) n) xs @ n # at_least (mem s) (bytes (mem s) n) xs) (lev(n := L))"
    "s' = s\<lparr>skip_rng := skip_rng s', big_level := big_level s', mem := mem s'\<rparr>" "big_head s' = big_head s"
    using skip_insert_run [OF lev, of n ?H "bytes (mem s) n"] b by auto
  have "sorted (map (bytes (mem s)) xs)" using lev by (simp add: skip_ok_def)
  note i = insort_below [OF this refl, of n]
  have k: "head_of (mem s') x = head_of (mem s) x" "bytes (mem s') x = bytes (mem s) x" if "x \<in> insert n (set xs)" for x
    using links_keep(3) [OF s'(2)] links_page_sized(2) [OF s'(2)] b that by auto
  have "\<forall>x \<in> set (insort_key (bytes (mem s)) n xs). head_of (mem s') x \<noteq> 0"
    using k(1) assms(1) b by (auto simp: set_insort_key free_list_def)
  then show ?thesis using s' k(2) unfolding i free_list_def by blast
qed

lemma free_list_withdraw:
  assumes "free_list s xs" and "k < 2147483648" and "skip_best k s = Some n"
  shows "\<exists>s'. klmalloc_skip_list_delete n s = Inr ((), s') \<and> free_list s' (remove1 n xs) \<and>
    (\<forall>x \<in> set xs. bytes (mem s') x = bytes (mem s) x) \<and> s' = s\<lparr>mem := mem s', big_level := big_level s'\<rparr> \<and>
    changes_only (links (insert (big_head s) (set xs)) {..6}) (mem s) (mem s')"
proof -
  obtain lev where lev: "skip_ok s xs lev" using assms(1) by (auto simp: free_list_def)
  obtain i where i: "i < length xs" "k \<le> bytes (mem s) (xs ! i)" "n = xs ! i" "\<forall>j < i. \<not> k \<le> bytes (mem s) (xs ! j)"
    using assms(3) skip_best_find [OF assms(1,2)] by (auto simp: find_Some_iff)
  define pre post where "pre = take i xs" and "post = drop (Suc i) xs"
  have xs: "xs = pre @ n # post" using i by (simp add: pre_def post_def id_take_nth_drop)
  have "\<forall>x \<in> set pre. bytes (mem s) x < bytes (mem s) n"
    using i by (force simp: pre_def in_set_conv_nth not_le)
  moreover have hd: "head_of (mem s) n \<noteq> 0" using assms(1) i by (auto simp: free_list_def)
  ultimately obtain s' where s': "klmalloc_skip_list_delete n s = Inr ((), s')"
    "changes_only (links (insert (big_head s) (set xs)) {..6}) (mem s) (mem s')" "skip_ok s' (pre @ post) lev"
    "s' = s\<lparr>mem := mem s', big_level := big_level s'\<rparr>"
    using skip_delete_run [OF lev [unfolded xs] _ _ refl, folded xs] by auto
  have h: "headers (insert (big_head s) (set xs))" using lev by (simp add: skip_ok_def)
  have k: "head_of (mem s') x = head_of (mem s) x" "bytes (mem s') x = bytes (mem s) x" if "x \<in> set xs" for x
    using links_keep(3) [OF s'(2) h] links_page_sized(2) [OF s'(2) h] that by auto
  have "distinct xs" using lev by (simp add: skip_ok_def)
  then have r: "remove1 n xs = pre @ post" unfolding xs by (simp add: remove1_append)
  have "\<forall>x \<in> set (pre @ post). head_of (mem s') x \<noteq> 0" using k(1) assms(1) xs by (auto simp: free_list_def)
  then show ?thesis using s' k(2) unfolding r free_list_def by blast
qed

interpretation big_blocks: best_fit free_list "\<lambda>s. bytes (mem s)" 2147483648 free_block skip_best
  "\<lambda>n s. ok_state (klmalloc_skip_list_insert n s)" "\<lambda>n s. ok_state (klmalloc_skip_list_delete n s)"
proof unfold_locales
  show "sorted (map (bytes (mem s)) xs) \<and> distinct xs" if "free_list s xs" for s :: "'a heap_scheme" and xs
    using that by (auto simp: free_list_def skip_ok_def)
qed (auto simp: ok_state_def dest: skip_best_find free_list_give free_list_withdraw)


section \<open>Equal sizes\<close>

lemma skip_find_chain: "chain m 0 a (pre @ n # post) \<Longrightarrow> n \<notin> set pre \<Longrightarrow> skip_find n (forward_of m a 0) m = Some n"
proof (induction pre arbitrary: a)
  case (Cons p pre)
  then have "forward_of m a 0 = p" "p \<noteq> n" "chain m 0 p (pre @ n # post)" by auto
  with Cons.IH [of p] Cons.prems(2) show ?case by (subst skip_find.simps) simp
qed (simp add: skip_find.simps)

lemma skip_delete_keeps:
  assumes "skip_ok s xs lev" and "xs = pre @ a # mid @ val # post" and "bytes (mem s) a = bytes (mem s) val"
    and "head_of (mem s) val \<noteq> 0"
  shows "klmalloc_skip_list_delete val s = Inr ((), s\<lparr>big_level := lower_level (mem s) (big_head s) (big_level s)\<rparr>)"
proof -
  define k where "k = unat (size_of (mem s) val)"
  have k: "bytes (mem s) val = k" "bytes (mem s) a = k" using assms(3) by (simp_all add: k_def bytes_def)
  have di: "distinct xs" "skip_node (mem s) val" and so: "sorted (map (bytes (mem s)) xs)"
    using assms(1,2) by (auto simp: skip_ok_def)
  have v0: "val \<noteq> 0" "unat (size_of (mem s) val) < 2147483648" using di(2) by (simp_all add: skip_node_def bytes_def)
  obtain upd where u: "skip_levels 416 (size_of (mem s) val) (levels_down s) (big_head s) no_update s =
      Inr ((pred_at s xs lev k 0, upd), s)" "\<forall>j \<le> big_level s. upd ! j = pred_at s xs lev k j"
    using skip_search_run [OF assms(1) v0(2)] unfolding k_def by blast
  have ch: "chain (mem s) 0 (big_head s) (below (mem s) k xs @ at_least (mem s) k xs)"
    using skip_ok_level(1) [OF assms(1), of 0 k] by simp
  obtain b bs where al: "at_least (mem s) k xs = b # bs @ val # at_least (mem s) k post" "b \<noteq> val"
  proof -
    have "at_least (mem s) k (pre @ [a]) \<noteq> []" using k(2) by (simp add: at_least_def)
    then obtain b bs where "at_least (mem s) k (pre @ [a]) = b # bs" by (meson neq_Nil_conv)
    moreover from this have "b \<in> set (pre @ [a])" by (metis at_least_def filter_is_subset list.set_intros(1) subsetD)
    then have "b \<noteq> val" using di(1) assms(2) by auto
    moreover have "at_least (mem s) k xs = at_least (mem s) k (pre @ [a]) @ at_least (mem s) k mid @ val # at_least (mem s) k post"
      using k by (simp add: assms(2) at_least_def)
    ultimately show ?thesis using that by auto
  qed
  have "pred_at s xs lev k 0 = last (big_head s # below (mem s) k xs)" by (simp add: pred_at_def)
  then have fw: "chain (mem s) 0 (pred_at s xs lev k 0) ((b # bs) @ val # at_least (mem s) k post)"
    using chain_last [OF ch] unfolding al by (simp only: append.simps)
  have "val \<notin> set (b # bs)"
  proof -
    have "distinct (at_least (mem s) k xs)" using di(1) by (simp add: at_least_def)
    then show ?thesis unfolding al by auto
  qed
  then have find: "skip_find val (forward_of (mem s) (pred_at s xs lev k 0) 0) (mem s) = Some val"
    using skip_find_chain [OF fw] by blast
  have "forward_of (mem s) (upd ! 0) 0 \<noteq> val"
    using u(2) forward_pred_at [OF assms(1), of 0 k] al by simp
  then have "skip_unlink [0..<Suc (big_level s)] val upd s = Inr ((), s)"
    by (simp add: upt_conv_Cons del: upt_Suc)
  then show ?thesis using v0(1) assms(4) u(1) find by (simp add: klmalloc_skip_list_delete_def k_def [symmetric] del: upt_Suc)
qed

section \<open>An example\<close>

text \<open>The paging example with the allocator in its initial state, its skip list head at 0x100000, and the
  same with the headers of free blocks of two pages written at 0x10000 and 0x20000.\<close>

definition heap0 :: heap where
  "heap0 = mm.extend pg0 (heap.fields (replicate 10 0) 0x100000 0 0 (123456789, 362436069, 521288629, 88675123))"

definition heap1 :: heap where
  "heap1 = put_word 0x20004 0x2002C (put_word 0x20008 8148 (put_word 0x10004 0x1002C (put_word 0x10008 8148 heap0)))"

lemma heap0_fields [simp]: "mem heap0 = mem pg0" "big_head heap0 = 0x100000" "big_level heap0 = 0"
  "bin_head heap0 = replicate 10 0" "newest_big heap0 = 0" "heap_end heap0 = heap_end pg0"
  by (simp_all add: heap0_def mm.defs heap.defs)


lemma heap0_empty: "free_list heap0 []"
proof -
  have "chain (mem heap0) i 0x100000 []" if "i \<le> SKIP_MAX_LEVEL" for i
  proof -
    have "forward_of (mem heap0) 0x100000 i = load32 (mem pg0) (fld 0x100000 (4 + i))" by (simp add: fields)
    also have "\<dots> = 0"
    proof -
      have "unat (fld 0x100000 (4 + i)) = 0x100000 + 4 * (4 + i)"
        using that by (subst unat_fld) (simp_all add: SKIP_MAX_LEVEL_def)
      then have "fld 0x100000 (4 + i) \<noteq> 0x301000" "fld 0x100000 (4 + i) \<noteq> 0x300000"
        using that by (auto simp: SKIP_MAX_LEVEL_def)
      moreover have "aligned4 (fld 0x100000 (4 + i))" by (intro aligned4_fld) (simp add: aligned4_def)
      ultimately show ?thesis by (simp add: pg0_load)
    qed
    finally show ?thesis by simp
  qed
  then have "skip_ok heap0 [] (\<lambda>_. 0)"
    by (simp add: skip_ok_def at_level_def headers_def aligned4_def)
  then show ?thesis by (auto simp: free_list_def)
qed

lemma heap1_mem: "mem heap1 = store32 (store32 (store32 (store32 (mem pg0) (fld 0x10000 2) 8148) (fld 0x10000 1) 0x1002C)
    (fld 0x20000 2) 8148) (fld 0x20000 1) 0x2002C"
  by (simp add: heap1_def put_word_def fld_def)

lemma heap1_headers: "headers {0x10000, 0x20000, 0x100000 :: u32}"
  by (simp add: headers_def aligned4_def apart_def)

lemma heap1_blocks:
  "free_list heap1 []" "free_block heap1 [] 0x10000" "bytes (mem heap1) 0x10000 = 8148"
  "size_of (mem heap1) 0x20000 = 8148" "head_of (mem heap1) 0x20000 = 0x2002C" "big_head heap1 = 0x100000"
proof -
  note ld = load_fld [OF heap1_headers]
  have sz: "size_of (mem heap1) 0x10000 = 8148" "head_of (mem heap1) 0x10000 = 0x1002C"
    by (simp_all add: fields heap1_mem ld)
  then show b: "bytes (mem heap1) 0x10000 = 8148" by (simp add: bytes_def)
  show "size_of (mem heap1) 0x20000 = 8148" "head_of (mem heap1) 0x20000 = 0x2002C"
    by (simp_all add: fields heap1_mem ld)
  show h: "big_head heap1 = 0x100000" by (simp add: heap1_def put_word_def)
  have "headers {0x10000, 0x100000}" by (rule headers_mono [OF heap1_headers]) auto
  then show "free_block heap1 [] 0x10000"
    by (simp add: free_block_def skip_node_def page_sized_def b sz h PAGE_SIZE_def sizeof_big_bin_header_def)
  obtain lev where "skip_ok heap0 [] lev" using heap0_empty by (auto simp: free_list_def)
  then have "chain (mem heap0) i 0x100000 []" if "i \<le> SKIP_MAX_LEVEL" for i
    using that by (auto simp: skip_ok_def at_level_def)
  moreover have "forward_of (mem heap1) 0x100000 i = forward_of (mem heap0) 0x100000 i" if "i \<le> SKIP_MAX_LEVEL" for i
    using that by (simp add: fields heap1_mem ld SKIP_MAX_LEVEL_def)
  moreover have "big_level heap1 = 0" by (simp add: heap1_def put_word_def)
  ultimately have "skip_ok heap1 [] lev"
    by (simp add: skip_ok_def at_level_def h headers_def aligned4_def)
  then show "free_list heap1 []" by (auto simp: free_list_def)
qed

text \<open>Both blocks inserted: the second one comes first.\<close>

lemma heap1_both:
  "\<exists>s1 s2. klmalloc_skip_list_insert 0x10000 heap1 = Inr ((), s1) \<and> free_list s1 [0x10000] \<and>
    klmalloc_skip_list_insert 0x20000 s1 = Inr ((), s2) \<and> free_list s2 [0x20000, 0x10000] \<and>
    bytes (mem s1) 0x10000 = 8148 \<and> bytes (mem s2) 0x10000 = 8148 \<and> bytes (mem s2) 0x20000 = 8148"
proof -
  obtain s1 where s1: "klmalloc_skip_list_insert 0x10000 heap1 = Inr ((), s1)" "free_list s1 [0x10000]"
    "bytes (mem s1) 0x10000 = 8148" "big_head s1 = 0x100000" "changes_only (links {0x10000, 0x100000} {..6}) (mem heap1) (mem s1)"
    using free_list_give [OF heap1_blocks(1,2)] heap1_blocks(3,6) by auto
  have "changes_only (links {0x10000, 0x20000, 0x100000} {..6}) (mem heap1) (mem s1)"
    by (rule changes_only_mono [OF s1(5)]) (auto simp: links_def)
  from links_keep(2,3) [OF this heap1_headers order_refl, where n = "0x20000"] heap1_blocks(4,5)
  have sz: "size_of (mem s1) 0x20000 = 8148" "head_of (mem s1) 0x20000 = 0x2002C" by simp_all
  then have b: "bytes (mem s1) 0x20000 = 8148" by (simp add: bytes_def)
  have "headers {0x20000, 0x100000, 0x10000}" by (rule headers_mono [OF heap1_headers]) auto
  then have "free_block s1 [0x10000] 0x20000"
    by (simp add: free_block_def skip_node_def page_sized_def b sz s1(4) PAGE_SIZE_def sizeof_big_bin_header_def)
  from free_list_give [OF s1(2) this] s1 b show ?thesis by auto
qed

section \<open>Properties\<close>

text \<open>C19. The search returns the smallest free block that is large enough, of several of that size the first
  one, and NULL exactly when no block is large enough; it changes nothing.\<close>

theorem skip_findbest_best_fit:
  assumes "free_list s xs" and "unat sz < 2147483648"
  shows "\<exists>n. klmalloc_skip_list_findbest sz s = Inr (n, s) \<and>
    (if \<exists>b \<in> set xs. unat sz \<le> bytes (mem s) b
     then n \<in> set xs \<and> unat sz \<le> bytes (mem s) n \<and>
       set xs \<inter> {b. unat sz \<le> bytes (mem s) b \<and> bytes (mem s) b < bytes (mem s) n} = {}
     else n = 0)"
proof -
  obtain lev where lev: "skip_ok s xs lev" using assms(1) by (auto simp: free_list_def)
  note run = findbest_run [OF lev assms(2)]
  show ?thesis
  proof (cases "skip_best (unat sz) s")
    case None
    then show ?thesis
      using run big_blocks.best_None [OF assms] skip_best_find [OF assms] by (auto simp: first_at_least not_less)
  next
    case (Some n)
    note b = big_blocks.best_Some [OF assms Some]
    have "List.find (\<lambda>b. unat sz \<le> bytes (mem s) b) xs = Some n" using skip_best_find [OF assms] Some by simp
    then have "first_or_null (at_least (mem s) (unat sz) xs) = n" by (simp add: first_at_least)
    moreover have "\<exists>b \<in> set xs. unat sz \<le> bytes (mem s) b" using b(1,2) by blast
    moreover have "set xs \<inter> {x. unat sz \<le> bytes (mem s) x \<and> bytes (mem s) x < bytes (mem s) n} = {}"
      using b(3) by (auto simp: not_less [symmetric])
    ultimately show ?thesis using run b(1,2) by (intro exI [of _ n]) simp
  qed
qed

theorem skip_findbest_best_fit_witness: "klmalloc_skip_list_findbest 5000 heap0 = Inr (0, heap0)"
  using skip_findbest_best_fit [OF heap0_empty, of 5000] by simp

text \<open>C11. Inserting a free block puts it in order into the list, before the blocks of its size, whatever level
  is drawn for it; of the memory only forward links of the headers change.\<close>

theorem skip_list_insert_sorted:
  assumes "free_list s xs" and "free_block s xs n"
  shows "\<exists>s'. klmalloc_skip_list_insert n s = Inr ((), s') \<and> free_list s' (insort_key (bytes (mem s)) n xs) \<and>
    changes_only (links (insert n (insert (big_head s) (set xs))) {..6}) (mem s) (mem s')"
  using free_list_give [OF assms] by blast

theorem skip_list_insert_sorted_witness:
  "\<exists>s'. klmalloc_skip_list_insert 0x10000 heap1 = Inr ((), s') \<and> free_list s' [0x10000]"
  using skip_list_insert_sorted [OF heap1_blocks(1,2)] by auto

text \<open>C20. Taking best-fitting blocks for requests of \<open>k\<close> bytes until the search returns NULL, each one found and then
  deleted, yields every block of at least \<open>k\<close> bytes, in the order of their sizes, and leaves exactly the
  smaller ones.\<close>

theorem skip_list_drained:
  assumes "free_list s xs" and "k < 2147483648"
  shows "\<exists>s'. drain (skip_best k) (\<lambda>n s. ok_state (klmalloc_skip_list_delete n s)) (length xs) s =
      (filter (\<lambda>n. k \<le> bytes (mem s) n) xs, s') \<and>
    free_list s' (filter (\<lambda>n. bytes (mem s) n < k) xs)"
  by (rule big_blocks.drain_all [OF assms]) simp

theorem skip_list_drained_witness:
  "\<exists>(s :: heap) s'. free_list s [0x20000, 0x10000] \<and>
    drain (skip_best 5000) (\<lambda>n s. ok_state (klmalloc_skip_list_delete n s)) 2 s = ([0x20000, 0x10000], s') \<and> free_list s' []"
proof -
  obtain s :: heap where s: "free_list s [0x20000, 0x10000]" "bytes (mem s) 0x10000 = 8148" "bytes (mem s) 0x20000 = 8148"
    using heap1_both by blast
  have "\<exists>s'. drain (skip_best 5000) (\<lambda>n s. ok_state (klmalloc_skip_list_delete n s)) (length [0x20000, 0x10000 :: u32]) s =
      (filter (\<lambda>n. 5000 \<le> bytes (mem s) n) [0x20000, 0x10000], s') \<and>
    free_list s' (filter (\<lambda>n. bytes (mem s) n < 5000) [0x20000, 0x10000])"
    by (rule skip_list_drained [OF s(1)]) simp
  moreover have "filter (\<lambda>n. 5000 \<le> bytes (mem s) n) [0x20000, 0x10000] = [0x20000, 0x10000]"
    "filter (\<lambda>n. bytes (mem s) n < 5000) [0x20000, 0x10000] = []" "length [0x20000, 0x10000 :: u32] = 2"
    using s(2,3) by simp_all
  ultimately show ?thesis using s(1) by (metis (no_types, lifting))
qed

text \<open>C32. A block that has another one of its size before it in the list is not unlinked by the deletion: it
  returns normally, without a change to the memory.\<close>

theorem skip_delete_equal_size:
  assumes "free_list s (pre @ a # mid @ n # post)" and "bytes (mem s) a = bytes (mem s) n"
  shows "\<exists>s'. klmalloc_skip_list_delete n s = Inr ((), s') \<and> mem s' = mem s"
proof -
  obtain lev where lev: "skip_ok s (pre @ a # mid @ n # post) lev" using assms(1) by (auto simp: free_list_def)
  have "head_of (mem s) n \<noteq> 0" using assms(1) by (simp add: free_list_def)
  from skip_delete_keeps [OF lev refl assms(2) this] show ?thesis by simp
qed


theorem skip_delete_equal_size_witness:
  "\<exists>(s :: heap) s'. free_list s [0x20000, 0x10000] \<and> klmalloc_skip_list_delete 0x10000 s = Inr ((), s') \<and> mem s' = mem s"
proof -
  obtain s :: heap where s: "free_list s ([] @ 0x20000 # [] @ 0x10000 # [])" "bytes (mem s) 0x20000 = bytes (mem s) 0x10000"
    using heap1_both by auto
  show ?thesis using skip_delete_equal_size [OF s] s(1) by auto
qed

end
