(* ===== verification/Alloc.thy ===== *)
theory Alloc
  imports Skip_List
begin

text \<open>
  The heap allocator (\<open>core/alloc.c\<close>): \<open>klmalloc\<close>, \<open>klfree\<close>, \<open>klrealloc\<close>, \<open>klcalloc\<close> and the C library
  names for them. The code between \<open>#if 0\<close> and \<open>#endif\<close>, which would split and coalesce big blocks, is
  not compiled and not modelled.
\<close>

section \<open>Allocating\<close>

text \<open>A page of cells: the header, then the cells of \<open>2 ^ (2 + bucket_id)\<close> bytes, each pointing to the next.\<close>

definition carve_cells :: "u32 \<Rightarrow> nat \<Rightarrow> nat \<Rightarrow> 'a heap_scheme \<Rightarrow> 'a heap_scheme" where
  "carve_cells base bucket_id available s =
     fold (\<lambda>i. put_word (base + 4 * push_bit bucket_id (of_nat i)) (base + 4 * push_bit bucket_id (of_nat (i + 1))))
       [0..<available] s"

definition new_bin :: "nat \<Rightarrow> 'a heap_scheme \<Rightarrow> (u32, 'a heap_scheme) result" where
  "new_bin bucket_id s =
     res_bind (sbrk PAGE_SIZE s) (\<lambda>(bin_header, s1).
     res_bind (ASSERT (bin_header mod PAGE_SIZE = 0) ''alloc.c'' 526 ''(uintptr_t)bin_header % PAGE_SIZE == 0'' s1)
       (\<lambda>(_, s2).
     let s3 = put_word (bin_header + 4) (bin_header + sizeof_bin_header) s2 in
     res_bind (klmalloc_list_insert bucket_id bin_header s3) (\<lambda>(_, s4).
     let adj = unat SMALLEST_BIN_LOG + bucket_id;
         available = drop_bit adj (PAGE_SIZE - sizeof_bin_header) - 1;
         base = head_of (mem s4) bin_header;
         s5 = carve_cells base bucket_id (nat (sint available)) s4;
         s6 = put_word (base + 4 * push_bit bucket_id available) 0 s5
     in Inr (bin_header, put_word (bin_header + 8) (of_nat bucket_id) s6))))"

definition new_big :: "u32 \<Rightarrow> 'a heap_scheme \<Rightarrow> (u32, 'a heap_scheme) result" where
  "new_big sz s =
     (let pages = (sz + sizeof_big_bin_header) div PAGE_SIZE + 1 in
      res_bind (sbrk (PAGE_SIZE * pages) s) (\<lambda>(bin_header, s1).
      res_bind (ASSERT (bin_header mod PAGE_SIZE = 0) ''alloc.c'' 628 ''(uintptr_t)bin_header % PAGE_SIZE == 0'' s1)
        (\<lambda>(_, s2).
      let s3 = put_word (bin_header + 8) (pages * PAGE_SIZE - sizeof_big_bin_header) s2 in
      res_bind (ASSERT (page_sized (mem s3) bin_header) ''alloc.c'' 633
        ''(bin_header->size + sizeof(klmalloc_big_bin_header)) % PAGE_SIZE == 0'' s3) (\<lambda>(_, s4).
      let s5 = put_word (bin_header + 12) (newest_big s4) s4;
          s6 = (if prev_of (mem s5) bin_header \<noteq> 0 then put_word (prev_of (mem s5) bin_header) bin_header s5 else s5);
          s7 = s6\<lparr>newest_big := bin_header\<rparr>;
          s8 = put_word bin_header 0 s7;
          s9 = put_word (bin_header + 4) 0 s8
      in Inr (bin_header + sizeof_big_bin_header, s9)))))"

definition klmalloc :: "u32 \<Rightarrow> 'a heap_scheme \<Rightarrow> (u32, 'a heap_scheme) result" where
  "klmalloc sz s =
     (if sz = 0 then Inr (0, s)
      else
        let bucket_id = klmalloc_bin_size sz in
        if bucket_id < BIG_BIN then
          res_bind (if klmalloc_list_head (unat bucket_id) s = 0 then new_bin (unat bucket_id) s
                    else Inr (klmalloc_list_head (unat bucket_id) s, s)) (\<lambda>(bin_header, s1).
          res_bind (klmalloc_stack_pop bin_header s1) (\<lambda>(item, s2).
          Inr (item, if klmalloc_stack_empty bin_header s2
                     then klmalloc_list_decouple (unat bucket_id) bin_header s2 else s2)))
        else
          res_bind (klmalloc_skip_list_findbest sz s) (\<lambda>(bin_header, s1).
          if bin_header \<noteq> 0 then
            res_bind (klmalloc_skip_list_delete bin_header s1) (\<lambda>(_, s2). klmalloc_stack_pop bin_header s2)
          else new_big sz s1))"

section \<open>Freeing\<close>

definition header_of :: "u32 \<Rightarrow> u32" where
  "header_of ptr = ptr AND NOT PAGE_MASK"

definition klfree :: "u32 \<Rightarrow> 'a heap_scheme \<Rightarrow> (unit, 'a heap_scheme) result" where
  "klfree ptr s =
     (if ptr = 0 then Inr ((), s)
      else
        let header = header_of ptr in
        res_bind (ASSERT (header mod PAGE_SIZE = 0) ''alloc.c'' 665 ''(uintptr_t)header % PAGE_SIZE == 0'' s) (\<lambda>(_, s1).
        let bucket_id = size_of (mem s1) header in
        if NUM_BINS < bucket_id then
          res_bind (ASSERT (header \<noteq> 0) ''alloc.c'' 678 ''bheader'' s1) (\<lambda>(_, s2).
          res_bind (ASSERT (head_of (mem s2) header = 0) ''alloc.c'' 679 ''bheader->head == NULL'' s2) (\<lambda>(_, s3).
          res_bind (ASSERT (page_sized (mem s3) header) ''alloc.c'' 680
            ''(bheader->size + sizeof(klmalloc_big_bin_header)) % PAGE_SIZE == 0'' s3) (\<lambda>(_, s4).
          res_bind (klmalloc_stack_push header (header + sizeof_big_bin_header) s4) (\<lambda>(_, s5).
          res_bind (ASSERT (head_of (mem s5) header \<noteq> 0) ''alloc.c'' 752 ''bheader->head != NULL'' s5) (\<lambda>(_, s6).
          klmalloc_skip_list_insert header s6)))))
        else
          res_bind (if klmalloc_stack_empty header s1 then klmalloc_list_insert (unat bucket_id) header s1
                    else Inr ((), s1)) (\<lambda>(_, s2).
          klmalloc_stack_push header ptr s2)))"

section \<open>The C library names\<close>

definition malloc :: "u32 \<Rightarrow> 'a heap_scheme \<Rightarrow> (u32, 'a heap_scheme) result" where
  "malloc sz = klmalloc sz"

definition free :: "u32 \<Rightarrow> 'a heap_scheme \<Rightarrow> (unit, 'a heap_scheme) result" where
  "free ptr = klfree ptr"

definition klrealloc :: "u32 \<Rightarrow> u32 \<Rightarrow> 'a heap_scheme \<Rightarrow> (u32, 'a heap_scheme) result" where
  "klrealloc ptr sz s =
     (if ptr = 0 then malloc sz s
      else if sz = 0 then res_bind (free ptr s) (\<lambda>(_, s1). Inr (0, s1))
      else
        let header_old = header_of ptr in
        if sz <=s size_of (mem s) header_old then Inr (ptr, s)
        else
          res_bind (klmalloc sz s) (\<lambda>(newptr, s1).
          if newptr \<noteq> 0 then
            (let old_size = size_of (mem s1) header_old;
                 old_size1 = (if old_size < BIG_BIN then push_bit (unat (SMALLEST_BIN_LOG + old_size)) 1 else old_size);
                 s2 = s1\<lparr>mem := memcpy (mem s1) newptr ptr old_size1\<rparr>
             in res_bind (klfree ptr s2) (\<lambda>(_, s3). Inr (newptr, s3)))
          else Inr (0, s1)))"

definition klcalloc :: "u32 \<Rightarrow> u32 \<Rightarrow> 'a heap_scheme \<Rightarrow> (u32, 'a heap_scheme) result" where
  "klcalloc nmemb sz s =
     res_bind (klmalloc (nmemb * sz) s) (\<lambda>(ptr, s1).
     Inr (ptr, if ptr \<noteq> 0 then s1\<lparr>mem := memset (mem s1) ptr 0 (nmemb * sz)\<rparr> else s1))"

definition realloc :: "u32 \<Rightarrow> u32 \<Rightarrow> 'a heap_scheme \<Rightarrow> (u32, 'a heap_scheme) result" where
  "realloc ptr sz = klrealloc ptr sz"

definition calloc :: "u32 \<Rightarrow> u32 \<Rightarrow> 'a heap_scheme \<Rightarrow> (u32, 'a heap_scheme) result" where
  "calloc nmemb sz = klcalloc nmemb sz"

end
