(* ===== verification/Heap_Inv.thy ===== *)
theory Heap_Inv
  imports Alloc
begin

text \<open>
  The well-formedness of the heap. A ghost map \<open>B\<close> says what lies at each page the allocator got from
  \<open>sbrk\<close>: a page of cells of one class with its free cells in stack order, or a big block, free or in
  use. \<open>heap_ok s B\<close> ties it to the memory; \<open>live B\<close> is what clients hold.
\<close>

section \<open>Blocks and cells\<close>

datatype blk = Small nat "u32 list" | Big nat bool

fun extent :: "blk \<Rightarrow> nat" where
  "extent (Small k cs) = 4096"
| "extent (Big n f) = n + 44"

text \<open>\<open>area a n\<close>: the addresses of the \<open>n\<close> bytes from \<open>a\<close>.\<close>

definition area :: "u32 \<Rightarrow> nat \<Rightarrow> u32 set" where
  "area a n = {w. unat a \<le> unat w \<and> unat w < unat a + n}"

definition ncells :: "nat \<Rightarrow> nat" where
  "ncells k = 4084 div class_bytes k"

definition cell_at :: "u32 \<Rightarrow> nat \<Rightarrow> nat \<Rightarrow> u32" where
  "cell_at p k i = p + 12 + 4 * push_bit k (of_nat i)"

definition cells :: "u32 \<Rightarrow> nat \<Rightarrow> u32 set" where
  "cells p k = cell_at p k ` {..<ncells k}"

text \<open>A list linked through the first words of its elements.\<close>

fun linked_list :: "mem \<Rightarrow> u32 \<Rightarrow> u32 list \<Rightarrow> bool" where
  "linked_list m a [] \<longleftrightarrow> a = 0"
| "linked_list m a (n # ns) \<longleftrightarrow> a = n \<and> n \<noteq> 0 \<and> linked_list m (load32 m n) ns"

fun block_ok :: "'a heap_scheme \<Rightarrow> u32 \<Rightarrow> blk \<Rightarrow> bool" where
  "block_ok s p (Small k cs) \<longleftrightarrow> k < 10 \<and> size_of (mem s) p = of_nat k \<and>
     linked_list (mem s) (head_of (mem s) p) cs \<and> distinct cs \<and> set cs \<subseteq> cells p k"
| "block_ok s p (Big n f) \<longleftrightarrow> (n + 44) mod 4096 = 0 \<and> 2048 < n \<and> n < 2147483648 \<and> bytes (mem s) p = n \<and>
     head_of (mem s) p = (if f then p + 44 else 0) \<and> (f \<longrightarrow> load32 (mem s) (p + 44) = 0)"

definition blocks_ok :: "'a heap_scheme \<Rightarrow> (u32 \<rightharpoonup> blk) \<Rightarrow> bool" where
  "blocks_ok s B \<longleftrightarrow> aligned4 (big_head s) \<and> unat (big_head s) + 44 < 4294967296 \<and>
     (\<forall>p b. B p = Some b \<longrightarrow> p \<noteq> 0 \<and> unat p mod 4096 = 0 \<and> unat p + extent b \<le> unat (heap_end s) \<and>
        area p (extent b) \<inter> area (big_head s) 44 = {} \<and> block_ok s p b) \<and>
     (\<forall>p q b c. B p = Some b \<and> B q = Some c \<and> p \<noteq> q \<longrightarrow> area p (extent b) \<inter> area q (extent c) = {})"

definition bins_ok :: "'a heap_scheme \<Rightarrow> (u32 \<rightharpoonup> blk) \<Rightarrow> bool" where
  "bins_ok s B \<longleftrightarrow> length (bin_head s) = 10 \<and>
     (\<forall>k < 10. \<exists>ps. linked_list (mem s) (bin_head s ! k) ps \<and> distinct ps \<and>
        set ps = {p. \<exists>c cs. B p = Some (Small k (c # cs))})"

definition bigs_ok :: "'a heap_scheme \<Rightarrow> (u32 \<rightharpoonup> blk) \<Rightarrow> bool" where
  "bigs_ok s B \<longleftrightarrow> (\<exists>xs. free_list s xs \<and> set xs = {p. \<exists>n. B p = Some (Big n True)}) \<and>
     (newest_big s = 0 \<or> (\<exists>n f. B (newest_big s) = Some (Big n f)))"

definition heap_ok :: "'a heap_scheme \<Rightarrow> (u32 \<rightharpoonup> blk) \<Rightarrow> bool" where
  "heap_ok s B \<longleftrightarrow> blocks_ok s B \<and> bins_ok s B \<and> bigs_ok s B"

text \<open>What the clients hold: the cells that are not free, and the big blocks that are not free.\<close>

definition live :: "(u32 \<rightharpoonup> blk) \<Rightarrow> (u32 \<times> nat) set" where
  "live B = {(c, class_bytes k) | c k p cs. B p = Some (Small k cs) \<and> c \<in> cells p k - set cs} \<union>
     {(p + 44, n) | p n. B p = Some (Big n False)}"

section \<open>Addresses\<close>

lemma unat_off: "unat p + k < 4294967296 \<Longrightarrow> unat (p + of_nat k) = unat p + k" for p :: u32
  by (simp add: unat_add_small unat_of_nat32)

lemma class_bytes_div4: "class_bytes k = 4 * 2 ^ k"
  by (simp add: class_bytes_def)

lemma class_bytes_pos: "4 \<le> class_bytes k"
  by (simp add: class_bytes_div4)

lemma cell_offset: "cell_at p k i = p + of_nat (12 + i * class_bytes k)"
  by (simp add: cell_at_def class_bytes_def push_bit_eq_mult algebra_simps)

lemma ncells_bound: "i < ncells k \<Longrightarrow> 12 + i * class_bytes k + class_bytes k \<le> 4096"
proof -
  assume "i < ncells k"
  then have "Suc i \<le> 4084 div class_bytes k" by (simp add: ncells_def)
  then have "Suc i * class_bytes k \<le> 4084" by (simp add: class_bytes_def less_eq_div_iff_mult_less_eq)
  then show ?thesis by simp
qed

text \<open>Where a cell lies in its page.\<close>

lemma unat_cell:
  assumes "unat p + 4096 \<le> 4294967296" and "i < ncells k"
  shows "unat (cell_at p k i) = unat p + 12 + i * class_bytes k"
  unfolding cell_offset using ncells_bound [OF assms(2)] assms(1) class_bytes_pos [of k]
  by (subst unat_off) simp_all

lemma cell_eq_iff:
  assumes "unat p + 4096 \<le> 4294967296" and "i < ncells k" and "j < ncells k"
  shows "cell_at p k i = cell_at p k j \<longleftrightarrow> i = j"
proof
  assume "cell_at p k i = cell_at p k j"
  then have "unat (cell_at p k i) = unat (cell_at p k j)" by simp
  then show "i = j"
    unfolding unat_cell [OF assms(1,2)] unat_cell [OF assms(1,3)] by (simp add: class_bytes_def)
qed simp

lemma cells_area:
  assumes "c \<in> cells p k" and "unat p + 4096 \<le> 4294967296"
  shows "area c (class_bytes k) \<subseteq> area p 4096" "unat p + 12 \<le> unat c" "unat c + class_bytes k \<le> unat p + 4096"
    "unat c mod 4 = unat p mod 4"
proof -
  obtain i where i: "c = cell_at p k i" "i < ncells k" using assms(1) by (auto simp: cells_def)
  note u = unat_cell [OF assms(2) i(2)] and b = ncells_bound [OF i(2)]
  show "unat p + 12 \<le> unat c" "unat c + class_bytes k \<le> unat p + 4096" using u b i by simp_all
  then show "area c (class_bytes k) \<subseteq> area p 4096" by (auto simp: area_def)
  have "unat c = unat p + 4 * (3 + i * 2 ^ k)" using u i(1) by (simp add: class_bytes_div4)
  then show "unat c mod 4 = unat p mod 4" by (simp only: mod_mult_self2)
qed

lemma page_cells_apart:
  assumes "c \<in> cells p k" and "d \<in> cells p k" and "c \<noteq> d" and "unat p + 4096 \<le> 4294967296"
  shows "area c (class_bytes k) \<inter> area d (class_bytes k) = {}"
proof -
  obtain i j where i: "c = cell_at p k i" "i < ncells k" and j: "d = cell_at p k j" "j < ncells k"
    using assms(1,2) by (auto simp: cells_def)
  have "i < j \<or> j < i" using assms(3) i(1) j(1) by (cases i j rule: linorder_cases) simp_all
  then have "i * class_bytes k + class_bytes k \<le> j * class_bytes k \<or> j * class_bytes k + class_bytes k \<le> i * class_bytes k"
    by (metis Suc_leI add.commute mult_Suc mult_le_mono1)
  then show ?thesis
    unfolding i(1) j(1) area_def unat_cell [OF assms(4) i(2)] unat_cell [OF assms(4) j(2)] by auto
qed

lemma page_of_cell:
  assumes "c \<in> cells p k" and "unat p mod 4096 = 0" and "unat p + 4096 \<le> 4294967296"
  shows "header_of c = p"
proof -
  have "unat c div 4096 * 4096 = unat p"
  proof -
    obtain q where q: "unat p = 4096 * q" using assms(2) by (metis mod_0_imp_dvd dvdE)
    have "4096 * q \<le> unat c" "unat c < 4096 * Suc q"
      using cells_area(2,3) [OF assms(1,3)] q class_bytes_pos [of k] by simp_all
    then have "unat c div 4096 = q" by (intro div_nat_eqI) (simp_all add: mult.commute)
    then show ?thesis using q by simp
  qed
  moreover have "unat (c AND NOT (mask 12)) = 4096 * (unat c div 4096)" using unat_and_not_mask [of 12 c] by simp
  moreover have "PAGE_MASK = mask 12" by (simp add: PAGE_MASK_def PAGE_SIZE_def mask_eq_exp_minus_1)
  ultimately show ?thesis unfolding header_of_def by (simp add: word_unat_eq_iff mult.commute)
qed

lemma page_of_big:
  assumes "unat p mod 4096 = 0" and "unat p + 4096 \<le> 4294967296"
  shows "header_of (p + 44) = p"
proof -
  obtain q where q: "unat p = 4096 * q" using assms(1) by (metis mod_0_imp_dvd dvdE)
  have "unat (p + 44) = unat p + 44" using unat_off [of p 44] assms(2) by simp
  then have "unat (p + 44) div 4096 = q" using q by (intro div_nat_eqI) simp_all
  moreover have "unat ((p + 44) AND NOT (mask 12)) = 4096 * (unat (p + 44) div 4096)"
    using unat_and_not_mask [of 12 "p + 44"] by simp
  moreover have "PAGE_MASK = mask 12" by (simp add: PAGE_MASK_def PAGE_SIZE_def mask_eq_exp_minus_1)
  ultimately show ?thesis unfolding header_of_def using q by (simp add: word_unat_eq_iff)
qed

lemma page_aligned4: "unat p mod 4096 = 0 \<Longrightarrow> aligned4 p"
proof -
  assume "unat p mod 4096 = 0"
  moreover have "unat p mod 4096 mod 4 = unat p mod 4" by (rule mod_mod_cancel) simp
  ultimately show ?thesis by (simp add: aligned4_def)
qed

lemma page_mod: "unat p mod 4096 = 0 \<Longrightarrow> p mod PAGE_SIZE = 0"
proof -
  assume "unat p mod 4096 = 0"
  then have "unat (p mod PAGE_SIZE) = 0" by (simp add: PAGE_SIZE_def unat_mod_distrib)
  then show ?thesis by (simp only: unat_eq_0)
qed

lemma fld_area: "unat p + 4 * j < unat p + n \<Longrightarrow> unat p + n \<le> 4294967296 \<Longrightarrow> fld p j \<in> area p n"
  by (simp add: area_def unat_fld)


section \<open>What a change of the memory leaves intact\<close>

lemma linked_list_cong: "(\<And>n. n \<in> set xs \<Longrightarrow> load32 m' n = load32 m n) \<Longrightarrow> linked_list m' a xs = linked_list m a xs"
  by (induction xs arbitrary: a) auto

lemma cells_aligned: "c \<in> cells p k \<Longrightarrow> unat p mod 4096 = 0 \<Longrightarrow> unat p + 4096 \<le> 4294967296 \<Longrightarrow> aligned4 c"
  using cells_area(4) [of c p k] page_aligned4 [of p] by (simp add: aligned4_def)

lemma cells_in_area: "c \<in> cells p k \<Longrightarrow> unat p + 4096 \<le> 4294967296 \<Longrightarrow> c \<in> area p 4096"
  using cells_area(2,3) [of c p k] class_bytes_pos [of k] by (simp add: area_def)

lemma block_ok_mem: "mem t = mem s \<Longrightarrow> block_ok s p b \<Longrightarrow> block_ok t p b"
  by (cases b) auto

text \<open>The words \<open>block_ok\<close> looks at.\<close>

fun own :: "u32 \<Rightarrow> blk \<Rightarrow> u32 set" where
  "own p (Small k cs) = area p 4096"
| "own p (Big n f) = {fld p 1, fld p 2, fld p 11}"

lemma own_area: "unat p + extent b \<le> 4294967296 \<Longrightarrow> block_ok s p b \<Longrightarrow> own p b \<subseteq> area p (extent b)"
  by (cases b) (auto intro!: fld_area)

lemma block_ok_frame:
  assumes "block_ok s p b" and "changes_only A (mem s) (mem s')" and "A \<inter> own p b = {}"
    and "unat p mod 4096 = 0" and "unat p + extent b \<le> 4294967296"
  shows "block_ok s' p b"
proof -
  have al: "aligned4 (fld p j)" for j by (rule aligned4_fld [OF page_aligned4 [OF assms(4)]])
  show ?thesis
  proof (cases b)
    case (Small k cs)
    then have A: "A \<inter> area p 4096 = {}" and p: "unat p + 4096 \<le> 4294967296" using assms(3,5) by simp_all
    have "fld p 1 \<in> area p 4096" "fld p 2 \<in> area p 4096" using p by (auto intro!: fld_area)
    then have f: "load32 (mem s') (fld p 1) = load32 (mem s) (fld p 1)" "load32 (mem s') (fld p 2) = load32 (mem s) (fld p 2)"
      using A changes_only_load [OF assms(2) al] by blast+
    have "load32 (mem s') c = load32 (mem s) c" if "c \<in> set cs" for c
    proof (rule changes_only_load [OF assms(2)])
      have "c \<in> cells p k" using that assms(1) Small by auto
      then show "aligned4 c" "c \<notin> A" using cells_aligned [OF _ assms(4) p] cells_in_area [OF _ p] A by blast+
    qed
    then have "linked_list (mem s') a cs = linked_list (mem s) a cs" for a by (rule linked_list_cong)
    then show ?thesis using assms(1) f Small by (simp add: fields)
  next
    case (Big n f)
    have "load32 (mem s') (fld p j) = load32 (mem s) (fld p j)" if "j \<in> {1, 2, 11}" for j
      using assms(3) Big that by (intro changes_only_load [OF assms(2) al]) auto
    moreover have "p + 44 = fld p 11" by (simp add: fld_def)
    ultimately show ?thesis using assms(1) Big by (simp add: fields bytes_def)
  qed
qed

text \<open>One block changes, or is new; the memory changes only in words no other block looks at.\<close>

lemma blocks_ok_update:
  assumes "blocks_ok s B" and "changes_only A (mem s) (mem s')"
    and "\<And>q c. B q = Some c \<Longrightarrow> q \<noteq> p \<Longrightarrow> A \<inter> own q c = {} \<and> area p (extent b) \<inter> area q (extent c) = {}"
    and "p \<noteq> 0" and "unat p mod 4096 = 0" and "unat p + extent b \<le> unat (heap_end s')"
    and "area p (extent b) \<inter> area (big_head s) 44 = {}" and "block_ok s' p b"
    and "big_head s' = big_head s" and "unat (heap_end s) \<le> unat (heap_end s')"
  shows "blocks_ok s' (B(p \<mapsto> b))"
proof -
  note ok = assms(1) [unfolded blocks_ok_def]
  have one: "q \<noteq> 0 \<and> unat q mod 4096 = 0 \<and> unat q + extent c \<le> unat (heap_end s') \<and>
      area q (extent c) \<inter> area (big_head s') 44 = {} \<and> block_ok s' q c" if "(B(p \<mapsto> b)) q = Some c" for q c
  proof (cases "q = p")
    case True
    then show ?thesis using that assms(4-9) by simp
  next
    case False
    then have q: "B q = Some c" using that by simp
    then have b: "block_ok s q c" "unat q mod 4096 = 0" "unat q + extent c \<le> unat (heap_end s)" using ok by blast+
    then have "unat q + extent c \<le> 4294967296" using unat_u32_bound [of "heap_end s"] by linarith
    then have "block_ok s' q c" using block_ok_frame [OF b(1) assms(2) _ b(2)] assms(3) [OF q False] by blast
    moreover have "q \<noteq> 0" "area q (extent c) \<inter> area (big_head s) 44 = {}" using ok q by blast+
    ultimately show ?thesis using b(2,3) assms(9,10) by simp
  qed
  have two: "area q (extent c) \<inter> area r (extent d) = {}"
    if "(B(p \<mapsto> b)) q = Some c" "(B(p \<mapsto> b)) r = Some d" "q \<noteq> r" for q r c d
  proof -
    consider "q = p" "r \<noteq> p" | "q \<noteq> p" "r = p" | "q \<noteq> p" "r \<noteq> p" using \<open>q \<noteq> r\<close> by blast
    then show ?thesis
    proof cases
      case 1
      then show ?thesis using that assms(3) [of r d] by simp
    next
      case 2
      then show ?thesis using that assms(3) [of q c] by (simp add: Int_commute)
    next
      case 3
      then show ?thesis using that ok by simp
    qed
  qed
  have "aligned4 (big_head s')" "unat (big_head s') + 44 < 4294967296" using ok assms(9) by simp_all
  then show ?thesis unfolding blocks_ok_def using one two by blast
qed

lemma free_list_frame:
  assumes "free_list s xs" and "changes_only A (mem s) (mem s')"
    and "\<And>n j. n \<in> insert (big_head s) (set xs) \<Longrightarrow> j < 11 \<Longrightarrow> j \<noteq> 0 \<Longrightarrow> j \<noteq> 3 \<Longrightarrow> fld n j \<notin> A"
    and "big_head s' = big_head s" and "big_level s' = big_level s"
  shows "free_list s' xs"
proof -
  obtain lev where lev: "skip_ok s xs lev" using assms(1) by (auto simp: free_list_def)
  note ok = lev [unfolded skip_ok_def]
  let ?H = "insert (big_head s) (set xs)"
  have ld: "load32 (mem s') (fld n j) = load32 (mem s) (fld n j)" if "n \<in> ?H" "j < 11" "j \<noteq> 0" "j \<noteq> 3" for n j
  proof (rule changes_only_load [OF assms(2) _ assms(3) [OF that]])
    have "headers ?H" using ok by blast
    then show "aligned4 (fld n j)" using that(1) by (auto simp: headers_def intro: aligned4_fld)
  qed
  have node: "size_of (mem s') n = size_of (mem s) n" "head_of (mem s') n = head_of (mem s) n" if "n \<in> set xs" for n
    using that ld by (simp_all add: fields)
  have "chain (mem s') i (big_head s) (at_level lev xs i)" if "i \<le> SKIP_MAX_LEVEL" for i
  proof -
    have "chain (mem s') i (big_head s) (at_level lev xs i) = chain (mem s) i (big_head s) (at_level lev xs i)"
      using that at_level_sub [of lev xs i] by (intro chain_cong) (auto simp: fields SKIP_MAX_LEVEL_def intro!: ld)
    then show ?thesis using skip_chain [OF lev that] by simp
  qed
  moreover have b: "bytes (mem s') n = bytes (mem s) n" "skip_node (mem s') n = skip_node (mem s) n" if "n \<in> set xs" for n
    unfolding skip_node_def page_sized_def bytes_def node(1) [OF that] by (rule refl)+
  moreover have "map (bytes (mem s')) xs = map (bytes (mem s)) xs" using b(1) by simp
  ultimately have "skip_ok s' xs lev"
    unfolding skip_ok_def assms(4,5) using ok by (metis (no_types, lifting))
  then show ?thesis using assms(1) node(2) by (auto simp: free_list_def)
qed

section \<open>How the heap evolves\<close>

text \<open>
  What the operations of the heap may change of the kernel's state, and where: the blocks of \<open>B'\<close> are pages that \<open>B\<close> had, or new
  pages from behind the break.
\<close>

definition heap_only :: "'a heap_scheme \<Rightarrow> 'a heap_scheme \<Rightarrow> bool" where
  "heap_only s t \<longleftrightarrow> (\<exists>m e b l w g. t = s\<lparr>mem := m, heap_end := e, bin_head := b, big_level := l, newest_big := w, skip_rng := g\<rparr>)"

definition grows :: "'a heap_scheme \<Rightarrow> (u32 \<rightharpoonup> blk) \<Rightarrow> 'a heap_scheme \<Rightarrow> (u32 \<rightharpoonup> blk) \<Rightarrow> bool" where
  "grows s B t C \<longleftrightarrow> heap_only s t \<and> unat (heap_end s) \<le> unat (heap_end t) \<and>
     dom C \<subseteq> dom B \<union> {p. unat (heap_end s) \<le> unat p}"

lemma heap_onlyI:
  "t = s\<lparr>mem := mem t, heap_end := heap_end t, bin_head := bin_head t, big_level := big_level t, newest_big := newest_big t,
     skip_rng := skip_rng t\<rparr> \<Longrightarrow> heap_only s t"
  unfolding heap_only_def by blast

lemma heap_only_trans: "heap_only s t \<Longrightarrow> heap_only t u \<Longrightarrow> heap_only s u"
  unfolding heap_only_def by (elim exE) (intro exI, rule heap.equality; simp)

lemma growsI:
  assumes "t = s\<lparr>mem := mem t, heap_end := heap_end t, bin_head := bin_head t, big_level := big_level t, newest_big := newest_big t,
     skip_rng := skip_rng t\<rparr>" and "unat (heap_end s) \<le> unat (heap_end t)" and "dom C \<subseteq> dom B \<union> {p. unat (heap_end s) \<le> unat p}"
  shows "grows s B t C"
  unfolding grows_def using heap_onlyI [OF assms(1)] assms(2,3) by blast

lemma grows_lists:
  assumes "t = s\<lparr>mem := m, big_level := l, skip_rng := g\<rparr>" and "dom C \<subseteq> dom B"
  shows "grows s B t C"
  by (rule growsI) (use assms in auto)

lemma grows_refl [simp]: "grows s B s B"
  by (rule growsI) auto

lemma grows_trans: "grows s B t C \<Longrightarrow> grows t C u D \<Longrightarrow> grows s B u D"
  unfolding grows_def by (blast intro: heap_only_trans order_trans)

end
