(* ===== verification/Heap_Small.thy ===== *)
theory Heap_Small
  imports Heap_Inv
begin

text \<open>
  Taking and giving back cells, and carving a new page: what the small-size paths of \<open>klmalloc\<close> and
  \<open>klfree\<close> do to the well-formedness of the heap.
\<close>

section \<open>Changing one page of cells\<close>

lemma heap_bounds:
  assumes "heap_ok s B" and "B p = Some b"
  shows "p \<noteq> 0" "unat p mod 4096 = 0" "unat p + extent b \<le> unat (heap_end s)" "unat p + extent b \<le> 4294967296"
    "area p (extent b) \<inter> area (big_head s) 44 = {}" "block_ok s p b" "aligned4 p"
proof -
  have ok: "blocks_ok s B" using assms(1) by (simp add: heap_ok_def)
  show b: "p \<noteq> 0" "unat p mod 4096 = 0" "unat p + extent b \<le> unat (heap_end s)"
    "area p (extent b) \<inter> area (big_head s) 44 = {}" "block_ok s p b"
    using ok assms(2) unfolding blocks_ok_def by blast+
  show "unat p + extent b \<le> 4294967296" using b(3) unat_u32_bound [of "heap_end s"] by linarith
  show "aligned4 p" by (rule page_aligned4 [OF b(2)])
qed

lemma heap_disjoint:
  "heap_ok s B \<Longrightarrow> B p = Some b \<Longrightarrow> B q = Some c \<Longrightarrow> p \<noteq> q \<Longrightarrow> area p (extent b) \<inter> area q (extent c) = {}"
  by (simp add: heap_ok_def blocks_ok_def)

lemma big_fields:
  assumes "heap_ok s B" and "B n = Some (Big z f)" and "j < 12"
  shows "fld n j \<in> area n (extent (Big z f))"
  using heap_bounds(4,6) [OF assms(1,2)] assms(3) by (intro fld_area) simp_all

lemma head_fields: "heap_ok s B \<Longrightarrow> j < 11 \<Longrightarrow> fld (big_head s) j \<in> area (big_head s) 44"
  by (rule fld_area) (simp_all add: heap_ok_def blocks_ok_def)

text \<open>The other lists stay as they are when the memory changes outside their blocks.\<close>

lemma bins_frame:
  assumes "heap_ok s B" and "changes_only A (mem s) (mem s')" and "k < 10"
    and "\<And>q j cs. B q = Some (Small j cs) \<Longrightarrow> q \<noteq> p \<Longrightarrow> A \<inter> area q 4096 = {}"
    and "\<And>cs. B p \<noteq> Some (Small k cs)" and "\<And>q. q \<noteq> p \<Longrightarrow> B' q = B q" and "\<And>cs. B' p \<noteq> Some (Small k cs)"
    and "bin_head s' ! k = bin_head s ! k"
  shows "\<exists>ps. linked_list (mem s') (bin_head s' ! k) ps \<and> distinct ps \<and> set ps = {q. \<exists>c cs. B' q = Some (Small k (c # cs))}"
proof -
  obtain ps where ps: "linked_list (mem s) (bin_head s ! k) ps" "distinct ps"
    "set ps = {q. \<exists>c cs. B q = Some (Small k (c # cs))}"
    using assms(1,3) unfolding heap_ok_def bins_ok_def by blast
  have "load32 (mem s') n = load32 (mem s) n" if "n \<in> set ps" for n
  proof (rule changes_only_load [OF assms(2)])
    obtain c cs where n: "B n = Some (Small k (c # cs))" using \<open>n \<in> set ps\<close> ps(3) by blast
    then show "aligned4 n" by (rule heap_bounds(7) [OF assms(1)])
    have "n \<in> area n 4096" by (simp add: area_def)
    moreover have "n \<noteq> p" using n assms(5) by metis
    ultimately show "n \<notin> A" using assms(4) [OF n] by auto
  qed
  then have "linked_list (mem s') a ps = linked_list (mem s) a ps" for a by (rule linked_list_cong)
  then have "linked_list (mem s') (bin_head s' ! k) ps" using ps(1) assms(8) by simp
  moreover have "{q. \<exists>c cs. B' q = Some (Small k (c # cs))} = {q. \<exists>c cs. B q = Some (Small k (c # cs))}"
    using assms(5-7) by metis
  ultimately show ?thesis using ps(2,3) by metis
qed

lemma bigs_frame:
  assumes "heap_ok s B" and "changes_only A (mem s) (mem s')"
    and "\<And>q n f. B q = Some (Big n f) \<Longrightarrow> A \<inter> {fld q j | j. j < 11 \<and> j \<noteq> 0 \<and> j \<noteq> 3} = {}"
    and "A \<inter> area (big_head s) 44 = {}"
    and "\<And>q n f. B q = Some (Big n f) \<Longrightarrow> B' q = Some (Big n f)" and "\<And>q n. B' q = Some (Big n True) \<Longrightarrow> B q = Some (Big n True)"
    and "big_head s' = big_head s" "big_level s' = big_level s"
    and "newest_big s' = newest_big s \<or> (\<exists>n f. B' (newest_big s') = Some (Big n f))"
  shows "bigs_ok s' B'"
proof -
  obtain xs where xs: "free_list s xs" "set xs = {q. \<exists>n. B q = Some (Big n True)}"
    and nw: "newest_big s = 0 \<or> (\<exists>n f. B (newest_big s) = Some (Big n f))"
    using assms(1) unfolding heap_ok_def bigs_ok_def by blast
  have "free_list s' xs"
  proof (rule free_list_frame [OF xs(1) assms(2) _ assms(7,8)])
    fix n j assume n: "n \<in> insert (big_head s) (set xs)" and j: "j < 11" "j \<noteq> 0" "j \<noteq> (3 :: nat)"
    show "fld n j \<notin> A"
    proof (cases "n = big_head s")
      case True
      then show ?thesis using head_fields [OF assms(1) j(1)] assms(4) by blast
    next
      case False
      then obtain z where "B n = Some (Big z True)" using n xs(2) by blast
      from assms(3) [OF this] show ?thesis using j by blast
    qed
  qed
  moreover have "set xs = {q. \<exists>n. B' q = Some (Big n True)}" using xs(2) assms(5,6) by blast
  moreover have "newest_big s' = 0 \<or> (\<exists>n f. B' (newest_big s') = Some (Big n f))"
    using nw assms(5,9) by metis
  ultimately show ?thesis unfolding bigs_ok_def by blast
qed

text \<open>A page of class \<open>k\<close> changes, or is new, and its list is put right.\<close>

lemma small_update:
  assumes "heap_ok s B" and "changes_only A (mem s) (mem s')"
    and "\<And>q c. B q = Some c \<Longrightarrow> q \<noteq> p \<Longrightarrow> A \<inter> area q (extent c) = {} \<and> area p 4096 \<inter> area q (extent c) = {}"
    and "A \<inter> area (big_head s) 44 = {}" and "area p 4096 \<inter> area (big_head s) 44 = {}"
    and "B p = None \<or> (\<exists>ds. B p = Some (Small k ds))"
    and "p \<noteq> 0" "unat p mod 4096 = 0" "unat p + 4096 \<le> unat (heap_end s')" "unat (heap_end s) \<le> unat (heap_end s')"
    and "block_ok s' p (Small k cs)"
    and "big_head s' = big_head s" "big_level s' = big_level s" "newest_big s' = newest_big s"
    and "length (bin_head s') = 10" and "\<And>j. j \<noteq> k \<Longrightarrow> bin_head s' ! j = bin_head s ! j"
    and "\<exists>ps. linked_list (mem s') (bin_head s' ! k) ps \<and> distinct ps \<and>
      set ps = {q. \<exists>d ds. (B(p \<mapsto> Small k cs)) q = Some (Small k (d # ds))}"
  shows "heap_ok s' (B(p \<mapsto> Small k cs))"
proof -
  have own: "A \<inter> own q c = {}" if "B q = Some c" "q \<noteq> p" for q c
    using own_area [OF heap_bounds(4) [OF assms(1) that(1)] heap_bounds(6) [OF assms(1) that(1)]] assms(3) [OF that]
    by blast
  have "blocks_ok s' (B(p \<mapsto> Small k cs))"
    by (rule blocks_ok_update [OF _ assms(2)])
      (use assms own in \<open>simp_all add: heap_ok_def\<close>)
  moreover have "bins_ok s' (B(p \<mapsto> Small k cs))"
    unfolding bins_ok_def
  proof (intro conjI allI impI)
    fix j :: nat assume j: "j < 10"
    show "\<exists>ps. linked_list (mem s') (bin_head s' ! j) ps \<and> distinct ps \<and>
      set ps = {q. \<exists>d ds. (B(p \<mapsto> Small k cs)) q = Some (Small j (d # ds))}"
    proof (cases "j = k")
      case False
      show ?thesis
      proof (rule bins_frame [OF assms(1,2) j, where p = p])
        show "A \<inter> area q 4096 = {}" if "B q = Some (Small i ds)" "q \<noteq> p" for q i ds
          using assms(3) [OF that] by simp
      qed (use False assms(6,16) in auto)
    qed (use assms(17) in simp)
  qed (rule assms(15))
  moreover have "bigs_ok s' (B(p \<mapsto> Small k cs))"
  proof (rule bigs_frame [OF assms(1,2) _ assms(4) _ _ assms(12,13)])
    fix q n f assume q: "B q = Some (Big n f)"
    then have "q \<noteq> p" using assms(6) by auto
    then have "A \<inter> area q (extent (Big n f)) = {}" using assms(3) [OF q] by blast
    then show "A \<inter> {fld q j | j. j < 11 \<and> j \<noteq> 0 \<and> j \<noteq> 3} = {}"
      using big_fields [OF assms(1) q] by fastforce
    show "(B(p \<mapsto> Small k cs)) q = Some (Big n f)" using q \<open>q \<noteq> p\<close> by simp
  qed (use assms(14) in \<open>auto split: if_splits\<close>)
  ultimately show ?thesis by (simp add: heap_ok_def)
qed


section \<open>Taking a cell\<close>

lemma small_lists:
  assumes "heap_ok s B" and "k < 10"
  obtains ps where "linked_list (mem s) (bin_head s ! k) ps" "distinct ps" "set ps = {q. \<exists>c cs. B q = Some (Small k (c # cs))}"
  using assms unfolding heap_ok_def bins_ok_def by blast

lemma page_words:
  assumes "unat p mod 4096 = 0" and "unat p + 4096 \<le> 4294967296"
  shows "fld p 0 = p" "fld p 1 = p + 4" "fld p 2 = p + 8" "j < 1024 \<Longrightarrow> fld p j \<in> area p 4096"
    "c \<in> cells p k \<Longrightarrow> j < 3 \<Longrightarrow> c \<noteq> fld p j" "aligned4 (fld p j)" "c \<in> cells p k \<Longrightarrow> aligned4 c \<and> c \<noteq> 0 \<and> c \<in> area p 4096"
    "j < 1024 \<Longrightarrow> i < 1024 \<Longrightarrow> fld p i = fld p j \<longleftrightarrow> i = j"
proof -
  have p: "unat p + 4096 \<le> 4294967296" "unat p mod 4096 = 0" "aligned4 p"
    using assms page_aligned4 by simp_all
  show "fld p 0 = p" "fld p 1 = p + 4" "fld p 2 = p + 8" by (simp_all add: fld_def)
  show "j < 1024 \<Longrightarrow> fld p j \<in> area p 4096" using p(1) by (intro fld_area) simp_all
  show "aligned4 (fld p j)" using p(3) by (rule aligned4_fld)
  note ca = cells_area [OF _ p(1)]
  show "c \<noteq> fld p j" if "c \<in> cells p k" "j < 3"
  proof
    assume "c = fld p j"
    then have "unat c = unat p + 4 * j" using p(1) that(2) by (simp add: unat_fld)
    then show False using ca(2) [OF that(1)] that(2) by simp
  qed
  show "aligned4 c \<and> c \<noteq> 0 \<and> c \<in> area p 4096" if c: "c \<in> cells p k"
    using cells_aligned [OF c p(2,1)] cells_in_area [OF c p(1)] ca(2) [OF c] by auto
  show "fld p i = fld p j \<longleftrightarrow> i = j" if "j < 1024" "i < 1024"
  proof
    assume "fld p i = fld p j"
    moreover have "unat (fld p i) = unat p + 4 * i" "unat (fld p j) = unat p + 4 * j"
      using that p(1) by (simp_all add: unat_fld)
    ultimately have "unat p + 4 * i = unat p + 4 * j" by (simp only:)
    then show "i = j" by linarith
  qed simp
qed

lemma page_words_store:
  assumes "unat p mod 4096 = 0" and "unat p + 4096 \<le> 4294967296" and "i < 1024" and "j < 1024"
  shows "load32 (store32 m (fld p i) v) (fld p j) = (if i = j then v else load32 m (fld p j))"
proof -
  have "aligned4 (fld p i)" "aligned4 (fld p j)" by (rule page_words(6) [OF assms(1,2)])+
  then show ?thesis using page_words(8) [OF assms(1,2,4,3)] by (simp only: load32_store32_aligned)
qed

lemma small_page: "heap_ok s B \<Longrightarrow> B p = Some (Small k cs) \<Longrightarrow> unat p mod 4096 = 0 \<and> unat p + 4096 \<le> 4294967296"
  using heap_bounds(2,4) [of s B p "Small k cs"] by simp

definition take_cell :: "nat \<Rightarrow> u32 \<Rightarrow> 'a heap_scheme \<Rightarrow> 'a heap_scheme" where
  "take_cell k p s =
     (let s1 = put_word (p + 4) (load32 (mem s) (head_of (mem s) p)) s
      in if klmalloc_stack_empty p s1 then klmalloc_list_decouple k p s1 else s1)"

text \<open>The state after it: the memory changes in the header only, and the page is well formed.\<close>

lemma take_cell_run:
  assumes "heap_ok s B" and "B p = Some (Small k (c # cs))" and "A = (if cs = [] then {fld p 0, fld p 1} else {fld p 1})"
  shows "\<exists>m. take_cell k p s = (if cs = [] then s\<lparr>mem := m, bin_head := (bin_head s)[k := load32 (mem s) p]\<rparr> else s\<lparr>mem := m\<rparr>) \<and>
    changes_only A (mem s) m \<and> block_ok (s\<lparr>mem := m\<rparr>) p (Small k cs) \<and> (cs \<noteq> [] \<longrightarrow> load32 m p = load32 (mem s) p)"
proof -
  have pb: "k < 10" "size_of (mem s) p = of_nat k" "linked_list (mem s) (head_of (mem s) p) (c # cs)"
    "distinct (c # cs)" "set (c # cs) \<subseteq> cells p k"
    using heap_bounds(6) [OF assms(1,2)] by simp_all
  note pg = small_page [OF assms(1,2)]
  note pf = page_words [OF conjunct1 [OF pg] conjunct2 [OF pg]] and ps1 = page_words_store [OF conjunct1 [OF pg] conjunct2 [OF pg]]
  have hd: "head_of (mem s) p = c" using pb(3) by simp
  let ?x = "load32 (mem s) c"
  define m1 where "m1 = store32 (mem s) (fld p 1) ?x"
  define m2 where "m2 = (if cs = [] then store32 m1 (fld p 0) 0 else m1)"
  have hd1: "load32 m1 (fld p 1) = ?x" by (simp add: m1_def)
  have emp: "?x = 0 \<longleftrightarrow> cs = []" using pb(3) by (cases cs) auto
  have nx: "load32 m1 p = load32 (mem s) p"
  proof -
    have "load32 m1 (fld p 0) = load32 (mem s) (fld p 0)" unfolding m1_def by (simp add: ps1)
    then show ?thesis by (simp only: pf(1))
  qed
  have s1: "put_word (p + 4) ?x s = s\<lparr>mem := m1\<rparr>" by (simp only: put_word_def m1_def pf(2))
  have e: "klmalloc_stack_empty p (s\<lparr>mem := m1\<rparr>) \<longleftrightarrow> cs = []"
    unfolding klmalloc_stack_empty_def fields using hd1 emp by simp
  have st: "take_cell k p s = (if cs = [] then s\<lparr>mem := m2, bin_head := (bin_head s)[k := load32 (mem s) p]\<rparr> else s\<lparr>mem := m2\<rparr>)"
    unfolding take_cell_def hd Let_def s1 e
    by (simp add: klmalloc_list_decouple_def put_word_def next_of_def nx m2_def pf(1))
  have ch: "changes_only A (mem s) m2"
    unfolding m2_def m1_def assms(3) using changes_only_store [OF pf(6)] changes_only_trans
    by (auto intro!: changes_only_store pf(6) intro: changes_only_trans)
  have "load32 m2 (fld p 2) = load32 (mem s) (fld p 2)"
    by (rule changes_only_load [OF ch pf(6)]) (use pf(8) assms(3) in auto)
  moreover have "load32 m2 (fld p 1) = ?x" using hd1 by (simp add: m2_def ps1)
  moreover have "load32 m2 d = load32 (mem s) d" if "d \<in> set cs" for d
  proof (rule changes_only_load [OF ch])
    have d: "d \<in> cells p k" using that pb(5) by auto
    then show "aligned4 d" using pf(7) by blast
    show "d \<notin> A" using pf(5) [OF d] assms(3) by simp
  qed
  then have "linked_list m2 ?x cs = linked_list (mem s) ?x cs" by (rule linked_list_cong)
  ultimately have "block_ok (s\<lparr>mem := m2\<rparr>) p (Small k cs)" using pb emp by (simp add: fields)
  then show ?thesis using st ch nx by (intro exI [of _ m2]) (simp add: m2_def)
qed

text \<open>A page that changes in words of its own leaves the links of the other pages as they are.\<close>

lemma other_page:
  assumes "heap_ok s B" and "B p = Some b" and "B n = Some (Small k cs)" and "n \<noteq> p"
    and "changes_only A (mem s) m'" and "A \<subseteq> area p (extent b)"
  shows "load32 m' n = load32 (mem s) n"
proof (rule changes_only_load [OF assms(5)])
  show "aligned4 n" by (rule heap_bounds(7) [OF assms(1,3)])
  have "n \<in> area n 4096" by (simp add: area_def)
  then show "n \<notin> A" using heap_disjoint [OF assms(1,3,2,4)] assms(6) by auto
qed

text \<open>The page is the first of its list; without free cells it leaves the list.\<close>

lemma take_cell_list:
  assumes "heap_ok s B" and "B p = Some (Small k (c # cs))" and "bin_head s ! k = p"
    and "changes_only A (mem s) m" and "A \<subseteq> area p 4096" and "cs \<noteq> [] \<longrightarrow> load32 m p = load32 (mem s) p"
  shows "\<exists>qs. linked_list m (if cs = [] then load32 (mem s) p else p) qs \<and> distinct qs \<and>
    set qs = {q. \<exists>d ds. (B(p \<mapsto> Small k cs)) q = Some (Small k (d # ds))}"
proof -
  have k: "k < 10" using heap_bounds(6) [OF assms(1,2)] by simp
  obtain ps where ps: "linked_list (mem s) p ps" "distinct ps" "set ps = {q. \<exists>d ds. B q = Some (Small k (d # ds))}"
    using small_lists [OF assms(1) k] assms(3) by auto
  have "p \<in> set ps" using ps(3) assms(2) by blast
  then obtain rest where rest: "ps = p # rest" using ps(1) by (cases ps) auto
  have other: "load32 m n = load32 (mem s) n" if "n \<in> set rest" for n
  proof -
    have "n \<in> set ps" "n \<noteq> p" using that ps(2) rest by auto
    then obtain d ds where n: "B n = Some (Small k (d # ds))" using ps(3) by blast
    from other_page [OF assms(1,2) n \<open>n \<noteq> p\<close> assms(4)] assms(5) show ?thesis by simp
  qed
  show ?thesis
  proof (cases "cs = []")
    case True
    have "linked_list m (load32 (mem s) p) rest" using linked_list_cong [OF other] ps(1) rest by simp
    moreover have "set rest = {q. \<exists>d ds. (B(p \<mapsto> Small k cs)) q = Some (Small k (d # ds))}"
    proof -
      have "set rest = set ps - {p}" using ps(2) rest by auto
      then show ?thesis using True unfolding ps(3) by auto
    qed
    ultimately show ?thesis using True ps(2) rest by auto
  next
    case False
    have "load32 m n = load32 (mem s) n" if "n \<in> set ps" for n
      using that rest other assms(6) False by (cases "n = p") auto
    then have "linked_list m p ps = linked_list (mem s) p ps" by (rule linked_list_cong)
    moreover have "set ps = {q. \<exists>d ds. (B(p \<mapsto> Small k cs)) q = Some (Small k (d # ds))}"
      using False assms(2) unfolding ps(3) by (auto simp: neq_Nil_conv)
    ultimately show ?thesis using ps(1,2) False by auto
  qed
qed

lemma take_cell_ok:
  assumes "heap_ok s B" and "B p = Some (Small k (c # cs))" and "bin_head s ! k = p"
  shows "heap_ok (take_cell k p s) (B(p \<mapsto> Small k cs))"
    "changes_only {fld p 0, fld p 1} (mem s) (mem (take_cell k p s))" "grows s B (take_cell k p s) (B(p \<mapsto> Small k cs))"
proof -
  note hb = heap_bounds [OF assms(1,2)] and pg = small_page [OF assms(1,2)]
  let ?A = "if cs = [] then {fld p 0, fld p 1} else {fld p 1}"
  obtain m where m: "take_cell k p s = (if cs = [] then s\<lparr>mem := m, bin_head := (bin_head s)[k := load32 (mem s) p]\<rparr> else s\<lparr>mem := m\<rparr>)"
    "changes_only ?A (mem s) m" "block_ok (s\<lparr>mem := m\<rparr>) p (Small k cs)" "cs \<noteq> [] \<longrightarrow> load32 m p = load32 (mem s) p"
    using take_cell_run [OF assms(1,2) refl] by blast
  show "changes_only {fld p 0, fld p 1} (mem s) (mem (take_cell k p s))"
    unfolding m(1) using m(2) by (auto elim: changes_only_mono split: if_splits)
  have A: "?A \<subseteq> area p 4096" using page_words(4) [OF conjunct1 [OF pg] conjunct2 [OF pg]] by auto
  have block: "block_ok (take_cell k p s) p (Small k cs)" by (rule block_ok_mem [OF _ m(3)]) (simp add: m(1))
  have len: "k < length (bin_head s)" "length (bin_head s) = 10"
    using assms(1) hb(6) by (simp_all add: heap_ok_def bins_ok_def)
  have hd: "bin_head (take_cell k p s) ! k = (if cs = [] then load32 (mem s) p else p)" "mem (take_cell k p s) = m"
    using len assms(3) by (simp_all add: m(1))
  note lst = take_cell_list [OF assms m(2) A m(4), folded hd]
  have other_area: "?A \<inter> area q (extent d) = {} \<and> area p 4096 \<inter> area q (extent d) = {}" if "B q = Some d" "q \<noteq> p" for q d
    using heap_disjoint [OF assms(1) assms(2) that(1)] that(2) A by fastforce
  show "heap_ok (take_cell k p s) (B(p \<mapsto> Small k cs))"
    by (rule small_update [OF assms(1), of ?A, OF _ _ _ _ _ _ _ _ _ block _ _ _ _ _ lst])
      (use m(2) other_area A hb assms len in \<open>auto simp: m(1) nth_list_update\<close>)
  show "grows s B (take_cell k p s) (B(p \<mapsto> Small k cs))"
    by (rule growsI) (use assms(2) in \<open>auto simp: m(1)\<close>)
qed


section \<open>Giving a cell back\<close>

definition give_cell :: "nat \<Rightarrow> u32 \<Rightarrow> u32 \<Rightarrow> 'a heap_scheme \<Rightarrow> 'a heap_scheme" where
  "give_cell k p c s =
     (let s1 = (if klmalloc_stack_empty p s
                then (put_word p (bin_head s ! k) s)\<lparr>bin_head := (bin_head s)[k := p]\<rparr> else s)
      in put_word (p + 4) c (put_word c (head_of (mem s1) p) s1))"

lemma give_cell_run:
  assumes "heap_ok s B" and "B p = Some (Small k cs)" and "c \<in> cells p k" and "c \<notin> set cs"
    and "A = (if cs = [] then {fld p 0, fld p 1, c} else {fld p 1, c})"
  shows "\<exists>m. give_cell k p c s = (if cs = [] then s\<lparr>bin_head := (bin_head s)[k := p], mem := m\<rparr> else s\<lparr>mem := m\<rparr>) \<and>
    changes_only A (mem s) m \<and> block_ok (s\<lparr>mem := m\<rparr>) p (Small k (c # cs)) \<and>
    load32 m p = (if cs = [] then bin_head s ! k else load32 (mem s) p)"
proof -
  have pb: "k < 10" "size_of (mem s) p = of_nat k" "linked_list (mem s) (head_of (mem s) p) cs"
    "distinct cs" "set cs \<subseteq> cells p k"
    using heap_bounds(6) [OF assms(1,2)] by simp_all
  note hb = heap_bounds [OF assms(1,2)] and pg = small_page [OF assms(1,2)]
  note pf = page_words [OF conjunct1 [OF pg] conjunct2 [OF pg]] and ps1 = page_words_store [OF conjunct1 [OF pg] conjunct2 [OF pg]]
  have c: "aligned4 c" "c \<noteq> 0" "c \<in> area p 4096" "c \<noteq> fld p 0" "c \<noteq> fld p 1" "c \<noteq> fld p 2"
    using pf(5,7) [OF assms(3)] by auto
  let ?x = "head_of (mem s) p" and ?h = "bin_head s ! k"
  have emp: "?x = 0 \<longleftrightarrow> cs = []" using pb(3) by (cases cs) auto
  define m0 where "m0 = (if cs = [] then store32 (mem s) (fld p 0) ?h else mem s)"
  define m1 where "m1 = store32 m0 c ?x"
  define m2 where "m2 = store32 m1 (fld p 1) c"
  have x0: "head_of m0 p = ?x" by (simp add: fields m0_def ps1)
  have e: "klmalloc_stack_empty p s \<longleftrightarrow> cs = []" by (simp add: klmalloc_stack_empty_def emp)
  have p1: "p + 4 = fld p 1" by (simp only: pf(2))
  have "cs = [] \<Longrightarrow> head_of (store32 (mem s) p ?h) p = ?x" using x0 by (simp add: m0_def pf(1))
  then have st: "give_cell k p c s = (if cs = [] then s\<lparr>bin_head := (bin_head s)[k := p], mem := m2\<rparr> else s\<lparr>mem := m2\<rparr>)"
    unfolding give_cell_def e Let_def m2_def m1_def m0_def p1 by (simp add: put_word_def pf(1))
  have ch: "changes_only A (mem s) m2"
  proof (rule changes_only_trans [OF _ changes_only_trans])
    show "changes_only A (mem s) m0" unfolding m0_def assms(5) by (auto intro!: changes_only_store pf(6))
    show "changes_only A m0 m1" unfolding m1_def by (intro changes_only_store c) (simp add: assms(5))
    show "changes_only A m1 m2" unfolding m2_def by (intro changes_only_store pf(6)) (simp add: assms(5))
  qed
  have "load32 m2 (fld p 2) = load32 (mem s) (fld p 2)"
    by (rule changes_only_load [OF ch pf(6)]) (use pf(8) c assms(5) in auto)
  moreover have "load32 m2 (fld p 1) = c" by (simp add: m2_def)
  moreover have "load32 m2 c = ?x"
    unfolding m2_def m1_def using c(5) by (simp add: load32_store32_aligned [OF pf(6) c(1)])
  moreover have "load32 m2 d = load32 (mem s) d" if "d \<in> set cs" for d
  proof (rule changes_only_load [OF ch])
    have d: "d \<in> cells p k" using that pb(5) by auto
    then show "aligned4 d" using pf(7) by blast
    show "d \<notin> A" using pf(5) [OF d] that assms(4,5) by auto
  qed
  then have "linked_list m2 ?x cs = linked_list (mem s) ?x cs" by (rule linked_list_cong)
  ultimately have block: "block_ok (s\<lparr>mem := m2\<rparr>) p (Small k (c # cs))" using pb assms(3,4) c(2) emp by (simp add: fields)
  have "load32 m2 (fld p 0) = load32 m1 (fld p 0)" unfolding m2_def by (simp add: ps1)
  also have "\<dots> = load32 m0 (fld p 0)"
    unfolding m1_def using c(4) by (simp add: load32_store32_aligned [OF c(1) pf(6)])
  also have "\<dots> = (if cs = [] then ?h else load32 (mem s) (fld p 0))" by (simp add: m0_def)
  finally show ?thesis using st ch block unfolding pf(1) by blast
qed

text \<open>A page without free cells enters the list of its class.\<close>

lemma give_cell_list:
  assumes "heap_ok s B" and "B p = Some (Small k cs)"
    and "changes_only A (mem s) m" and "A \<subseteq> area p 4096" and "load32 m p = (if cs = [] then bin_head s ! k else load32 (mem s) p)"
  shows "\<exists>qs. linked_list m (if cs = [] then p else bin_head s ! k) qs \<and> distinct qs \<and>
    set qs = {q. \<exists>d ds. (B(p \<mapsto> Small k (c # cs))) q = Some (Small k (d # ds))}"
proof -
  note hb = heap_bounds [OF assms(1,2)]
  have k: "k < 10" using hb(6) by simp
  let ?h = "bin_head s ! k"
  obtain ps where ps: "linked_list (mem s) ?h ps" "distinct ps" "set ps = {q. \<exists>d ds. B q = Some (Small k (d # ds))}"
    using small_lists [OF assms(1) k] by auto
  have other: "load32 m n = load32 (mem s) n" if "n \<in> set ps" "n \<noteq> p" for n
  proof -
    obtain d ds where "B n = Some (Small k (d # ds))" using \<open>n \<in> set ps\<close> ps(3) by blast
    from other_page [OF assms(1,2) this that(2) assms(3)] assms(4) show ?thesis by simp
  qed
  show ?thesis
  proof (cases "cs = []")
    case True
    have np: "p \<notin> set ps" using assms(2) True unfolding ps(3) by auto
    then have "linked_list m ?h ps = linked_list (mem s) ?h ps" by (intro linked_list_cong other) auto
    then have "linked_list m p (p # ps)" using ps(1) True hb(1) assms(5) by simp
    moreover have "set (p # ps) = {q. \<exists>d ds. (B(p \<mapsto> Small k (c # cs))) q = Some (Small k (d # ds))}"
      using ps(3) by auto
    ultimately show ?thesis using True ps(2) np by (intro exI [of _ "p # ps"]) simp
  next
    case False
    then have "linked_list m ?h ps = linked_list (mem s) ?h ps" using other assms(5) by (intro linked_list_cong) metis
    moreover have "set ps = {q. \<exists>d ds. (B(p \<mapsto> Small k (c # cs))) q = Some (Small k (d # ds))}"
      using False assms(2) unfolding ps(3) by (auto simp: neq_Nil_conv)
    ultimately show ?thesis using ps(1,2) False by auto
  qed
qed

lemma give_cell_ok:
  assumes "heap_ok s B" and "B p = Some (Small k cs)" and "c \<in> cells p k" and "c \<notin> set cs"
  shows "heap_ok (give_cell k p c s) (B(p \<mapsto> Small k (c # cs)))"
    "changes_only {fld p 0, fld p 1, c} (mem s) (mem (give_cell k p c s))"
    "grows s B (give_cell k p c s) (B(p \<mapsto> Small k (c # cs)))"
proof -
  note hb = heap_bounds [OF assms(1,2)] and pg = small_page [OF assms(1,2)]
  note pf = page_words [OF conjunct1 [OF pg] conjunct2 [OF pg]]
  let ?A = "if cs = [] then {fld p 0, fld p 1, c} else {fld p 1, c}"
  obtain m where m: "give_cell k p c s = (if cs = [] then s\<lparr>bin_head := (bin_head s)[k := p], mem := m\<rparr> else s\<lparr>mem := m\<rparr>)"
    "changes_only ?A (mem s) m" "block_ok (s\<lparr>mem := m\<rparr>) p (Small k (c # cs))"
    "load32 m p = (if cs = [] then bin_head s ! k else load32 (mem s) p)"
    using give_cell_run [OF assms refl] by blast
  show "changes_only {fld p 0, fld p 1, c} (mem s) (mem (give_cell k p c s))"
    unfolding m(1) using m(2) by (auto elim: changes_only_mono split: if_splits)
  have A: "?A \<subseteq> area p 4096" using pf(4) pf(7) [OF assms(3)] by auto
  have block: "block_ok (give_cell k p c s) p (Small k (c # cs))" by (rule block_ok_mem [OF _ m(3)]) (simp add: m(1))
  have len: "k < length (bin_head s)" "length (bin_head s) = 10"
    using assms(1) hb(6) by (simp_all add: heap_ok_def bins_ok_def)
  have hd: "bin_head (give_cell k p c s) ! k = (if cs = [] then p else bin_head s ! k)" "mem (give_cell k p c s) = m"
    using len by (simp_all add: m(1))
  note lst = give_cell_list [OF assms(1,2) m(2) A m(4), of c, folded hd]
  have other_area: "?A \<inter> area q (extent d) = {} \<and> area p 4096 \<inter> area q (extent d) = {}" if "B q = Some d" "q \<noteq> p" for q d
    using heap_disjoint [OF assms(1) assms(2) that(1)] that(2) A by fastforce
  show "heap_ok (give_cell k p c s) (B(p \<mapsto> Small k (c # cs)))"
    by (rule small_update [OF assms(1), of ?A, OF _ _ _ _ _ _ _ _ _ block _ _ _ _ _ lst])
      (use m(2) other_area A hb assms len in \<open>auto simp: m(1) nth_list_update\<close>)
  show "grows s B (give_cell k p c s) (B(p \<mapsto> Small k (c # cs)))"
    by (rule growsI) (use assms(2) in \<open>auto simp: m(1)\<close>)
qed


section \<open>Carving a new page\<close>

lemma cells_available:
  assumes "k < 10"
  shows "drop_bit (unat SMALLEST_BIN_LOG + k) (PAGE_SIZE - sizeof_bin_header) - 1 = of_nat (ncells k - 1)"
    "nat (sint (of_nat (ncells k - 1) :: u32)) = ncells k - 1" "1 \<le> ncells k" "ncells k \<le> 1021"
proof -
  have "class_bytes k \<le> 2 ^ 11" unfolding class_bytes_def using assms by (intro power_increasing) simp_all
  then show n: "1 \<le> ncells k"
    using class_bytes_pos [of k] by (simp add: ncells_def Suc_le_eq div_greater_zero_iff)
  have "ncells k \<le> 4084 div 4" unfolding ncells_def by (rule div_le_mono2) (use class_bytes_pos in simp_all)
  then show m: "ncells k \<le> 1021" by simp
  have "unat (drop_bit (unat SMALLEST_BIN_LOG + k) (PAGE_SIZE - sizeof_bin_header)) = ncells k"
  proof -
    have "unat (PAGE_SIZE - sizeof_bin_header) = 4084" by (simp add: PAGE_SIZE_def sizeof_bin_header_def)
    moreover have "2 ^ (unat SMALLEST_BIN_LOG + k) = class_bytes k"
      by (simp add: SMALLEST_BIN_LOG_def class_bytes_def)
    ultimately show ?thesis unfolding unat_drop_bit_word by (simp only: ncells_def)
  qed
  then have "drop_bit (unat SMALLEST_BIN_LOG + k) (PAGE_SIZE - sizeof_bin_header) = of_nat (ncells k)"
    by (metis of_nat_unat ucast_id)
  then show "drop_bit (unat SMALLEST_BIN_LOG + k) (PAGE_SIZE - sizeof_bin_header) - 1 = of_nat (ncells k - 1)"
    using n by (simp add: of_nat_diff)
  have "unat (of_nat (ncells k - 1) :: u32) = ncells k - 1" using m by (intro unat_of_nat32) simp
  then show "nat (sint (of_nat (ncells k - 1) :: u32)) = ncells k - 1" using m by (simp add: sint_small)
qed

lemma cell_base: "p + 12 + 4 * push_bit k (of_nat i) = cell_at p k i"
  by (simp add: cell_at_def)

lemma cell_in: "i < ncells k \<Longrightarrow> cell_at p k i \<in> cells p k"
  by (simp add: cells_def)

lemma carve_cells_run:
  assumes "unat p mod 4096 = 0" and "unat p + 4096 \<le> 4294967296" and "n < ncells k"
  shows "\<exists>m. carve_cells (p + 12) k n s = s\<lparr>mem := m\<rparr> \<and> changes_only (cells p k) (mem s) m \<and>
    (\<forall>i < n. load32 m (cell_at p k i) = cell_at p k (Suc i))"
  using assms(3)
proof (induction n)
  case 0
  show ?case by (intro exI [of _ "mem s"]) (simp add: carve_cells_def)
next
  case (Suc n)
  then obtain m where m: "carve_cells (p + 12) k n s = s\<lparr>mem := m\<rparr>" "changes_only (cells p k) (mem s) m"
    "\<forall>i < n. load32 m (cell_at p k i) = cell_at p k (Suc i)" by auto
  have c: "cell_at p k n \<in> cells p k" using Suc.prems by (simp add: cell_in)
  have al: "aligned4 (cell_at p k i)" if "i < ncells k" for i using page_words(7) [OF assms(1,2) cell_in [OF that]] by blast
  let ?m = "store32 m (cell_at p k n) (cell_at p k (Suc n))"
  have "carve_cells (p + 12) k (Suc n) s = put_word (cell_at p k n) (cell_at p k (Suc n)) (carve_cells (p + 12) k n s)"
    by (simp add: carve_cells_def cell_at_def)
  then have "carve_cells (p + 12) k (Suc n) s = s\<lparr>mem := ?m\<rparr>" by (simp add: m(1) put_word_def)
  moreover have "changes_only (cells p k) (mem s) ?m"
    by (rule changes_only_trans [OF m(2) changes_only_store [OF al c]]) (use Suc.prems in simp)
  moreover have "load32 ?m (cell_at p k i) = cell_at p k (Suc i)" if "i < Suc n" for i
    using that m(3) Suc.prems cell_eq_iff [OF assms(2), of n k i] al
    by (auto simp: load32_store32_aligned less_Suc_eq)
  ultimately show ?case by blast
qed

lemma linked_cells:
  assumes "\<And>i. Suc i < N \<Longrightarrow> load32 m (cell_at p k i) = cell_at p k (Suc i)" and "load32 m (cell_at p k (N - 1)) = 0"
    and "\<And>i. i < N \<Longrightarrow> cell_at p k i \<noteq> 0" and "j < N"
  shows "linked_list m (cell_at p k j) (map (cell_at p k) [j..<N])"
  using assms(4)
proof (induction "N - j" arbitrary: j)
  case (Suc d)
  show ?case
  proof (cases "Suc j < N")
    case True
    then have "linked_list m (cell_at p k (Suc j)) (map (cell_at p k) [Suc j..<N])" using Suc by (intro Suc.hyps(1)) simp_all
    then show ?thesis using assms(1) [OF True] assms(3) Suc.prems by (simp add: upt_conv_Cons)
  next
    case False
    then have "N = Suc j" using Suc.prems by simp
    then show ?thesis using assms(2) assms(3) [of j] by simp
  qed
qed simp

text \<open>The cells of a new page, once the last of them is closed with a null pointer.\<close>

lemma carved_cells_run:
  assumes "unat p mod 4096 = 0" and "unat p + 4096 \<le> 4294967296" and "k < 10"
  shows "\<exists>m. carve_cells (p + 12) k (ncells k - 1) s = s\<lparr>mem := m\<rparr> \<and>
    changes_only (cells p k) (mem s) (store32 m (cell_at p k (ncells k - 1)) 0) \<and>
    linked_list (store32 m (cell_at p k (ncells k - 1)) 0) (cell_at p k 0) (map (cell_at p k) [0..<ncells k])"
proof -
  let ?N = "ncells k - 1"
  have N: "?N < ncells k" using cells_available(3) [OF assms(3)] by simp
  obtain m where m: "carve_cells (p + 12) k ?N s = s\<lparr>mem := m\<rparr>" "changes_only (cells p k) (mem s) m"
    "\<forall>i < ?N. load32 m (cell_at p k i) = cell_at p k (Suc i)"
    using carve_cells_run [OF assms(1,2) N] by blast
  have cl: "aligned4 (cell_at p k i)" "cell_at p k i \<noteq> 0" if "i < ncells k" for i
    using page_words(7) [OF assms(1,2) cell_in [OF that]] by blast+
  have link: "load32 (store32 m (cell_at p k ?N) 0) (cell_at p k i) = (if i = ?N then 0 else load32 m (cell_at p k i))"
    if "i < ncells k" for i
    using cell_eq_iff [OF assms(2) N that] load32_store32_aligned [OF cl(1) [OF N] cl(1) [OF that], of m 0] by auto
  have "linked_list (store32 m (cell_at p k ?N) 0) (cell_at p k 0) (map (cell_at p k) [0..<ncells k])"
    by (rule linked_cells) (use link m(3) cl(2) N in auto)
  moreover have "changes_only (cells p k) (mem s) (store32 m (cell_at p k ?N) 0)"
    by (rule changes_only_trans [OF m(2) changes_only_store [OF cl(1) [OF N] cell_in [OF N]]])
  ultimately show ?thesis using m(1) by blast
qed

lemma new_bin_run:
  assumes "sbrk PAGE_SIZE s = Inr (p, s1)" and "unat p mod 4096 = 0" and "unat p + 4096 \<le> 4294967296" and "p \<noteq> 0"
    and "k < 10" and "length (bin_head s1) = 10"
  shows "\<exists>m. new_bin k s = Inr (p, s1\<lparr>bin_head := (bin_head s1)[k := p], mem := m\<rparr>) \<and>
    changes_only (area p 4096) (mem s1) m \<and> load32 m p = bin_head s1 ! k \<and> load32 m (fld p 2) = of_nat k \<and>
    load32 m (fld p 1) = cell_at p k 0 \<and> linked_list m (cell_at p k 0) (map (cell_at p k) [0..<ncells k])"
proof -
  note pf = page_words [OF assms(2,3)] and ps = page_words_store [OF assms(2,3)] and av = cells_available [OF assms(5)]
  let ?N = "ncells k - 1" and ?A = "area p 4096"
  define m1 where "m1 = store32 (store32 (mem s1) (fld p 1) (p + 12)) (fld p 0) (bin_head s1 ! k)"
  let ?s4 = "s1\<lparr>bin_head := (bin_head s1)[k := p], mem := m1\<rparr>"
  have c1: "changes_only ?A (mem s1) m1" unfolding m1_def
    by (rule changes_only_trans [OF changes_only_store changes_only_store]) (use pf(4,6) in auto)
  have base: "head_of m1 p = p + 12" by (simp add: fields m1_def ps)
  obtain m2 where m2: "carve_cells (p + 12) k ?N ?s4 = ?s4\<lparr>mem := m2\<rparr>"
    "changes_only (cells p k) m1 (store32 m2 (cell_at p k ?N) 0)"
    "linked_list (store32 m2 (cell_at p k ?N) 0) (cell_at p k 0) (map (cell_at p k) [0..<ncells k])"
    using carved_cells_run [OF assms(2,3,5), of ?s4] by auto
  define m3 where "m3 = store32 m2 (cell_at p k ?N) 0"
  define m4 where "m4 = store32 m3 (fld p 2) (of_nat k)"
  have "p mod PAGE_SIZE = 0" by (rule page_mod [OF assms(2)])
  moreover have "p + 4 = fld p 1" "p + 8 = fld p 2" by (simp_all only: pf(2,3))
  moreover have "klmalloc_list_insert k p (put_word (fld p 1) (p + 12) s1) = Inr ((), ?s4)"
    using assms(5,6) by (simp add: klmalloc_list_insert_def put_word_def m1_def pf(1))
  moreover have "put_word (fld p 2) (of_nat k) (put_word (cell_at p k ?N) 0 (?s4\<lparr>mem := m2\<rparr>)) = ?s4\<lparr>mem := m4\<rparr>"
    by (simp add: put_word_def m4_def m3_def)
  ultimately have run: "new_bin k s = Inr (p, s1\<lparr>bin_head := (bin_head s1)[k := p], mem := m4\<rparr>)"
    using m2(1) base
    unfolding new_bin_def assms(1) res_bind_simps prod.case Let_def
    unfolding av(1,2)
    unfolding sizeof_bin_header_def
    by (simp add: cell_base)
  have "cells p k \<subseteq> ?A" using cells_in_area [OF _ assms(3)] by blast
  then have ch: "changes_only ?A (mem s1) m4" unfolding m4_def
    by (intro changes_only_trans [OF c1 changes_only_trans [OF changes_only_mono [OF m2(2) [folded m3_def]]]] changes_only_store pf(6)) (use pf(4) in auto)
  have "load32 m4 (fld p j) = load32 m1 (fld p j)" if "j < 2" for j
  proof -
    have "fld p j \<notin> cells p k" using pf(5) [of "fld p j" k j] that by auto
    then have "load32 m3 (fld p j) = load32 m1 (fld p j)" unfolding m3_def by (intro changes_only_load [OF m2(2)] pf(6))
    moreover have "load32 m4 (fld p j) = load32 m3 (fld p j)" unfolding m4_def using that by (simp add: ps)
    ultimately show ?thesis by simp
  qed
  from this [of 0] this [of 1] have far: "load32 m4 (fld p 0) = bin_head s1 ! k" "load32 m4 (fld p 1) = cell_at p k 0"
    using base by (simp_all add: fields cell_at_def) (simp add: m1_def)
  have "load32 m4 c = load32 m3 c" if "c \<in> set (map (cell_at p k) [0..<ncells k])" for c
  proof -
    have c: "c \<in> cells p k" using that cell_in by auto
    then show ?thesis unfolding m4_def using pf(5) [OF c, of 2] pf(7) [OF c] pf(6) by (subst load32_store32_aligned) auto
  qed
  then have "linked_list m4 (cell_at p k 0) (map (cell_at p k) [0..<ncells k])"
    using m2(3) linked_list_cong unfolding m3_def by blast
  then show ?thesis using run ch far by (intro exI [of _ m4]) (simp add: m4_def pf(1))
qed

end
