(* ===== verification/Heap_Ops.thy ===== *)
theory Heap_Ops
  imports Heap_Small
begin

text \<open>
  The allocator against its contract: \<open>klmalloc\<close> and \<open>klfree\<close> keep the heap well formed, move one block
  into or out of the live set and leave the bytes of the others alone.
\<close>

section \<open>The live blocks\<close>

text \<open>Each live block lies behind the header of its page.\<close>

lemma live_where:
  assumes "heap_ok s B" and "(a, n) \<in> live B"
  obtains p b where "B p = Some b" "area a n \<subseteq> area p (extent b)" "aligned4 a" "n mod 4 = 0" "a \<in> area a n"
    "\<And>w. w \<in> area a n \<Longrightarrow> unat p + 12 \<le> unat w" "\<And>w z f. w \<in> area a n \<Longrightarrow> b = Big z f \<Longrightarrow> unat p + 44 \<le> unat w \<and> f = False \<and> n = z \<and> a = p + 44"
    "\<And>k cs. b = Small k cs \<Longrightarrow> a \<in> cells p k - set cs \<and> n = class_bytes k"
    "unat a + n \<le> 4294967296"
proof -
  consider (small) p k cs where "B p = Some (Small k cs)" "a \<in> cells p k - set cs" "n = class_bytes k"
    | (big) p where "B p = Some (Big n False)" "a = p + 44"
    using assms(2) unfolding live_def by blast
  then show thesis
  proof cases
    case small
    note pg = small_page [OF assms(1) small(1)]
    have p: "unat p + 4096 \<le> 4294967296" "unat p mod 4096 = 0" using pg by simp_all
    have a: "a \<in> cells p k" using small(2) by simp
    note ca = cells_area [OF a p(1)]
    have "a \<in> area a n" using class_bytes_pos [of k] small(3) by (simp add: area_def)
    moreover have "unat p + 12 \<le> unat w" if "w \<in> area a n" for w using that ca(2) by (simp add: area_def)
    moreover have "unat a + n \<le> 4294967296" using ca(3) p(1) small(3) by simp
    ultimately show ?thesis
      using small ca(1) cells_aligned [OF a p(2,1)] by (intro that [OF small(1)]) (auto simp: class_bytes_div4)
  next
    case big
    note hb = heap_bounds [OF assms(1) big(1)]
    have "unat p + (n + 44) \<le> 4294967296" "0 < n" "(n + 44) mod 4096 = 0" using hb(4,6) by simp_all
    moreover from this have u: "unat a = unat p + 44" using big(2) unat_off [of p 44] by simp
    moreover have "n mod 4 = 0"
    proof -
      have "(n + 44) mod 4096 mod 4 = (n + 44) mod 4" by (rule mod_mod_cancel) simp
      moreover have "(n + 4 * 11) mod 4 = n mod 4" by (rule mod_mult_self2)
      ultimately show ?thesis using \<open>(n + 44) mod 4096 = 0\<close> by simp
    qed
    moreover have "aligned4 a"
    proof -
      have "(unat p + 4 * 11) mod 4 = unat p mod 4" by (rule mod_mult_self2)
      then show ?thesis using hb(7) u by (simp add: aligned4_def)
    qed
    ultimately show ?thesis using big(2) by (intro that [OF big(1)]) (auto simp: area_def)
  qed
qed

lemma live_disjoint:
  assumes "heap_ok s B" and "(a, n) \<in> live B" and "(b, m) \<in> live B" and "(a, n) \<noteq> (b, m)"
  shows "area a n \<inter> area b m = {}"
proof -
  obtain p x where p: "B p = Some x" "area a n \<subseteq> area p (extent x)"
    "\<And>z f. x = Big z f \<Longrightarrow> n = z \<and> a = p + 44" "\<And>k cs. x = Small k cs \<Longrightarrow> a \<in> cells p k - set cs \<and> n = class_bytes k"
    using live_where [OF assms(1,2)] by metis
  obtain q y where q: "B q = Some y" "area b m \<subseteq> area q (extent y)"
    "\<And>z f. y = Big z f \<Longrightarrow> m = z \<and> b = q + 44" "\<And>k cs. y = Small k cs \<Longrightarrow> b \<in> cells q k - set cs \<and> m = class_bytes k"
    using live_where [OF assms(1,3)] by metis
  show ?thesis
  proof (cases "p = q")
    case False
    then show ?thesis using heap_disjoint [OF assms(1) p(1) q(1)] p(2) q(2) by blast
  next
    case True
    then have xy: "x = y" using p(1) q(1) by simp
    show ?thesis
    proof (cases x)
      case (Small k cs)
      then have ab: "a \<in> cells p k" "b \<in> cells p k" "n = class_bytes k" "m = class_bytes k"
        using p(4) q(4) True xy by auto
      moreover have "unat p + 4096 \<le> 4294967296" using small_page [OF assms(1)] p(1) Small by auto
      ultimately show ?thesis using page_cells_apart [of a p k b] assms(4) by auto
    next
      case (Big z f)
      then show ?thesis using p(3) q(3) True xy assms(4) by auto
    qed
  qed
qed

section \<open>Bytes left alone\<close>

text \<open>\<open>keeps L m m'\<close>: no byte of a block in \<open>L\<close> differs.\<close>

definition keeps :: "(u32 \<times> nat) set \<Rightarrow> mem \<Rightarrow> mem \<Rightarrow> bool" where
  "keeps L m m' \<longleftrightarrow> (\<forall>a n. (a, n) \<in> L \<longrightarrow> (\<forall>x \<in> area a n. m' x = m x))"

lemma keeps_changes:
  assumes "changes_only A m m'"
    and "\<And>a n. (a, n) \<in> L \<Longrightarrow> aligned4 a \<and> n mod 4 = 0 \<and> unat a + n \<le> 4294967296 \<and> A \<inter> area a n = {}"
  shows "keeps L m m'"
  unfolding keeps_def
proof clarify
  fix a n x assume l: "(a, n) \<in> L" and x: "x \<in> area a n"
  note an = assms(2) [OF l]
  define d where "d = unat x - unat a"
  have d: "unat x = unat a + d" "d < n" using x by (auto simp: area_def d_def)
  define w :: u32 where "w = a + of_nat (d div 4 * 4)"
  have le: "d div 4 * 4 \<le> d" by simp
  have u: "unat w = unat a + d div 4 * 4" unfolding w_def using an d le by (intro unat_off) linarith
  have "w \<in> area a n" using u d(2) le by (simp add: area_def)
  then have "w \<notin> A" using an by blast
  moreover have "aligned4 w" using an u by (simp add: aligned4_def)
  ultimately have sw: "same_word m m' w" using assms(1) by (simp add: changes_only_def)
  have "x = w + of_nat (d mod 4)"
  proof -
    have "unat (w + of_nat (d mod 4)) = unat w + d mod 4" using unat_u32_bound [of x] u d(1) by (intro unat_off) simp
    then show ?thesis using u d(1) by (simp add: word_unat_eq_iff)
  qed
  then show "m' x = m x" using sw by (simp add: same_word_def)
qed

lemma keeps_live:
  assumes "heap_ok s B" and "changes_only A (mem s) m'" and "L \<subseteq> live B"
    and "\<And>a n. (a, n) \<in> L \<Longrightarrow> A \<inter> area a n = {}"
  shows "keeps L (mem s) m'"
proof (rule keeps_changes [OF assms(2)])
  fix a n assume l: "(a, n) \<in> L"
  then have "(a, n) \<in> live B" using assms(3) by blast
  then show "aligned4 a \<and> n mod 4 = 0 \<and> unat a + n \<le> 4294967296 \<and> A \<inter> area a n = {}"
    using live_where [OF assms(1)] assms(4) [OF l] by metis
qed

lemma keeps_mono: "keeps L m m' \<Longrightarrow> K \<subseteq> L \<Longrightarrow> keeps K m m'"
  by (auto simp: keeps_def)

lemma keeps_trans: "keeps L m m' \<Longrightarrow> keeps L m' m'' \<Longrightarrow> keeps L m m''"
  by (auto simp: keeps_def)

lemma live_low:
  assumes "heap_ok s B" and "B p = Some b" and "(a, n) \<in> live B" and "w \<in> area p (extent b)" and "unat w < unat p + 12"
  shows "w \<notin> area a n"
proof
  assume w: "w \<in> area a n"
  obtain q c where q: "B q = Some c" "area a n \<subseteq> area q (extent c)" "unat q + 12 \<le> unat w"
    using live_where [OF assms(1,3)] w by metis
  have "q = p" using heap_disjoint [OF assms(1) q(1) assms(2)] q(2) w assms(4) by blast
  then show False using q(3) assms(5) by simp
qed

lemma live_no_header:
  assumes "heap_ok s B" and "B p = Some b" and "(a, n) \<in> live B" and "j < 3"
  shows "fld p j \<notin> area a n"
proof (rule live_low [OF assms(1-3)])
  have "12 \<le> extent b" using heap_bounds(6) [OF assms(1,2)] by (cases b) auto
  then have "4 * j < extent b" using assms(4) by linarith
  then show "fld p j \<in> area p (extent b)" using heap_bounds(4) [OF assms(1,2)] by (intro fld_area) simp_all
  show "unat (fld p j) < unat p + 12"
    using heap_bounds(4) [OF assms(1,2)] \<open>4 * j < extent b\<close> assms(4) by (subst unat_fld) simp_all
qed

lemma live_update_small:
  assumes "heap_ok s B" and "B p = Some (Small k (c # cs))"
  shows "live (B(p \<mapsto> Small k cs)) = insert (c, class_bytes k) (live B)" "(c, n) \<notin> live B"
proof -
  have c: "c \<in> cells p k" "c \<notin> set cs" using heap_bounds(6) [OF assms] by auto
  have "(B(p \<mapsto> Small k cs)) q = Some (Big m f) \<longleftrightarrow> B q = Some (Big m f)" for q m f using assms(2) by auto
  moreover have "(\<exists>q ds. (B(p \<mapsto> Small k cs)) q = Some (Small j ds) \<and> x \<in> cells q j - set ds) \<longleftrightarrow>
      (x = c \<and> j = k) \<or> (\<exists>q ds. B q = Some (Small j ds) \<and> x \<in> cells q j - set ds)" for j x
  proof
    assume "\<exists>q ds. (B(p \<mapsto> Small k cs)) q = Some (Small j ds) \<and> x \<in> cells q j - set ds"
    then obtain q ds where q: "(B(p \<mapsto> Small k cs)) q = Some (Small j ds)" "x \<in> cells q j - set ds" by blast
    show "(x = c \<and> j = k) \<or> (\<exists>q ds. B q = Some (Small j ds) \<and> x \<in> cells q j - set ds)"
    proof (cases "q = p")
      case True
      then have "k = j" "cs = ds" using q(1) by auto
      then show ?thesis using q(2) True assms(2) by (cases "x = c") (auto intro!: exI [of _ p] exI [of _ "c # cs"])
    qed (use q in auto)
  next
    assume "(x = c \<and> j = k) \<or> (\<exists>q ds. B q = Some (Small j ds) \<and> x \<in> cells q j - set ds)"
    then show "\<exists>q ds. (B(p \<mapsto> Small k cs)) q = Some (Small j ds) \<and> x \<in> cells q j - set ds"
    proof
      assume "x = c \<and> j = k"
      then show ?thesis using c by (intro exI [of _ p] exI [of _ cs]) simp
    next
      assume "\<exists>q ds. B q = Some (Small j ds) \<and> x \<in> cells q j - set ds"
      then obtain q ds where q: "B q = Some (Small j ds)" "x \<in> cells q j - set ds" by blast
      show ?thesis
      proof (cases "q = p")
        case True
        then show ?thesis using q assms(2) by (intro exI [of _ p] exI [of _ cs]) auto
      qed (use q in auto)
    qed
  qed
  ultimately show "live (B(p \<mapsto> Small k cs)) = insert (c, class_bytes k) (live B)"
    unfolding live_def by (auto simp del: fun_upd_apply)
  show "(c, n) \<notin> live B"
  proof
    assume l: "(c, n) \<in> live B"
    obtain q b where q: "B q = Some b" "area c n \<subseteq> area q (extent b)" "c \<in> area c n"
      "\<And>k cs. b = Small k cs \<Longrightarrow> c \<in> cells q k - set cs"
      using live_where [OF assms(1) l] by metis
    have "c \<in> area p 4096" using cells_in_area [OF c(1)] small_page [OF assms] by blast
    then have "q = p" using heap_disjoint [OF assms(1) q(1) assms(2)] q(2,3) by fastforce
    then show False using q(1,4) assms(2) by auto
  qed
qed


section \<open>Growing the heap\<close>

text \<open>The words \<open>sbrk\<close> may change when it maps \<open>n\<close> pages, and the condition under which it succeeds without
  touching the blocks: the pages have tables and frames, and those tables are not among the blocks.\<close>

definition table_words :: "'a heap_scheme \<Rightarrow> nat \<Rightarrow> u32 set" where
  "table_words s n = {w. aligned4 w \<and> (w \<in> set (range_entries s (unat (heap_end s)) n) \<or> in_bitmap s w)}"

definition can_grow :: "'a heap_scheme \<Rightarrow> (u32 \<rightharpoonup> blk) \<Rightarrow> nat \<Rightarrow> bool" where
  "can_grow s B n \<longleftrightarrow> unmapped_range s (unat (heap_end s)) n \<and> unat (heap_end s) mod 4096 = 0 \<and> heap_end s \<noteq> 0 \<and>
     card (used s) + n \<le> capacity s \<and>
     table_words s n \<inter> area (big_head s) 44 = {} \<and> area (heap_end s) (4096 * n) \<inter> area (big_head s) 44 = {} \<and>
     (\<forall>p b. B p = Some b \<longrightarrow> table_words s n \<inter> area p (extent b) = {})"

lemma sbrk_grow:
  assumes "can_grow s B n"
  shows "\<exists>m. sbrk (of_nat (4096 * n)) s =
      Inr (heap_end s, s\<lparr>heap_end := of_nat (unat (heap_end s) + 4096 * n), mem := m\<rparr>) \<and>
    changes_only (table_words s n) (mem s) m \<and>
    unat (of_nat (unat (heap_end s) + 4096 * n) :: u32) = unat (heap_end s) + 4096 * n \<and>
    unat (heap_end s) + 4096 * n < 4294967296"
proof -
  have g: "unmapped_range s (unat (heap_end s)) n" "card (used s) + n \<le> capacity s" using assms by (simp_all add: can_grow_def)
  have e: "heap_end s = of_nat (unat (heap_end s))" by simp
  obtain m where m: "sbrk (of_nat (4096 * n)) s = Inr (of_nat (unat (heap_end s)),
      s\<lparr>heap_end := of_nat (unat (heap_end s) + 4096 * n), mem := m\<rparr>)"
    "\<forall>w. aligned4 w \<and> w \<notin> set (range_entries s (unat (heap_end s)) n) \<and> \<not> in_bitmap s w \<longrightarrow> same_word (mem s) m w"
    using sbrk_frame [OF g(1) e g(2)] by blast
  have b: "unat (heap_end s) + 4096 * n < 4294967296" using g(1) by (simp add: unmapped_range_def)
  have "changes_only (table_words s n) (mem s) m" using m(2) by (auto simp: changes_only_def table_words_def)
  moreover have "unat (of_nat (unat (heap_end s) + 4096 * n) :: u32) = unat (heap_end s) + 4096 * n"
    using b by (rule unat_of_nat32)
  ultimately show ?thesis using m(1) b by (intro exI [of _ m]) (simp del: of_nat_add of_nat_mult)
qed

lemma fresh_area:
  assumes "heap_ok s B" and "heap_end s \<noteq> 0"
  shows "B (heap_end s) = None" "B q = Some b \<Longrightarrow> area (heap_end s) n \<inter> area q (extent b) = {}"
proof -
  show "B (heap_end s) = None"
  proof (cases "B (heap_end s)")
    case (Some b)
    from heap_bounds(3,6) [OF assms(1) this] show ?thesis by (cases b) auto
  qed
  show "area (heap_end s) n \<inter> area q (extent b) = {}" if "B q = Some b"
    using heap_bounds(3) [OF assms(1) that] by (auto simp: area_def)
qed

text \<open>A page just carved: all its cells are free, and it is the only page of its list.\<close>

lemma carved_block:
  assumes "unat p + 4096 \<le> 4294967296" and "k < 10" and "size_of (mem s) p = of_nat k" and "head_of (mem s) p = cell_at p k 0"
    and "linked_list (mem s) (cell_at p k 0) (map (cell_at p k) [0..<ncells k])"
  shows "block_ok s p (Small k (map (cell_at p k) [0..<ncells k]))"
proof -
  have "distinct (map (cell_at p k) [0..<ncells k])" by (auto simp: distinct_map inj_on_def cell_eq_iff [OF assms(1)])
  moreover have "set (map (cell_at p k) [0..<ncells k]) \<subseteq> cells p k" by (auto simp: cell_in)
  ultimately show ?thesis using assms by simp
qed

lemma carved_list:
  assumes "heap_ok s B" and "k < 10" and "bin_head s ! k = 0" and "p \<noteq> 0" and "load32 m p = 0"
  shows "\<exists>ps. linked_list m p ps \<and> distinct ps \<and>
    set ps = {q. \<exists>d ds. (B(p \<mapsto> Small k (map (cell_at p k) [0..<ncells k]))) q = Some (Small k (d # ds))}"
proof -
  obtain ps where ps: "linked_list (mem s) (bin_head s ! k) ps" "distinct ps" "set ps = {q. \<exists>d ds. B q = Some (Small k (d # ds))}"
    by (rule small_lists [OF assms(1,2)])
  then have "ps = []" using assms(3) by (cases ps) auto
  then have "{q. \<exists>d ds. B q = Some (Small k (d # ds))} = {}" using ps(3) by simp
  moreover obtain d ds where "map (cell_at p k) [0..<ncells k] = d # ds"
    using cells_available(3) [OF assms(2)] by (cases "map (cell_at p k) [0..<ncells k]") auto
  ultimately have "{q. \<exists>d ds. (B(p \<mapsto> Small k (map (cell_at p k) [0..<ncells k]))) q = Some (Small k (d # ds))} = {p}" by auto
  then show ?thesis using assms(4,5) by (intro exI [of _ "[p]"]) simp
qed

lemma new_bin_ok:
  assumes "heap_ok s B" and "can_grow s B 1" and "k < 10" and "bin_head s ! k = 0"
    and "p = heap_end s" and "B' = B(p \<mapsto> Small k (map (cell_at p k) [0..<ncells k]))"
  shows "\<exists>s'. new_bin k s = Inr (p, s') \<and> heap_ok s' B' \<and> bin_head s' ! k = p \<and>
    changes_only (table_words s 1 \<union> area p 4096) (mem s) (mem s') \<and> grows s B s' B'"
proof -
  note g = assms(2) [unfolded can_grow_def, folded assms(5)]
  have al: "unat p mod 4096 = 0" and p0: "p \<noteq> 0" using g by blast+
  obtain m where m: "sbrk (of_nat (4096 * 1)) s = Inr (p, s\<lparr>heap_end := of_nat (unat p + 4096 * 1), mem := m\<rparr>)"
    "changes_only (table_words s 1) (mem s) m" "unat (of_nat (unat p + 4096 * 1) :: u32) = unat p + 4096 * 1"
    "unat p + 4096 * 1 < 4294967296"
    using sbrk_grow [OF assms(2), folded assms(5)] by blast
  define s1 where "s1 = s\<lparr>heap_end := of_nat (unat p + 4096 * 1), mem := m\<rparr>"
  have "(of_nat (4096 * 1) :: u32) = PAGE_SIZE" by (simp add: PAGE_SIZE_def)
  then have sb: "sbrk PAGE_SIZE s = Inr (p, s1)" using m(1) unfolding s1_def by (simp only:)
  have le: "unat p + 4096 \<le> 4294967296" using m(4) by simp
  have len: "length (bin_head s1) = 10" using assms(1) by (simp add: s1_def heap_ok_def bins_ok_def)
  obtain m2 where m2: "new_bin k s = Inr (p, s1\<lparr>bin_head := (bin_head s1)[k := p], mem := m2\<rparr>)"
    "changes_only (area p 4096) (mem s1) m2" "load32 m2 p = bin_head s1 ! k" "load32 m2 (fld p 2) = of_nat k"
    "load32 m2 (fld p 1) = cell_at p k 0" "linked_list m2 (cell_at p k 0) (map (cell_at p k) [0..<ncells k])"
    using new_bin_run [OF sb al le p0 assms(3) len] by blast
  define s2 where "s2 = s1\<lparr>bin_head := (bin_head s1)[k := p], mem := m2\<rparr>"
  let ?A = "table_words s 1 \<union> area p 4096"
  have ch: "changes_only ?A (mem s) (mem s2)"
  proof (rule changes_only_trans)
    show "changes_only ?A (mem s) m" by (rule changes_only_mono [OF m(2)]) simp
    show "changes_only ?A m (mem s2)" using changes_only_mono [OF m2(2), of ?A] by (simp add: s1_def s2_def)
  qed
  have "?A \<inter> area q (extent b) = {} \<and> area p 4096 \<inter> area q (extent b) = {}" if "B q = Some b" for q b
    using fresh_area(2) [OF assms(1) p0 [unfolded assms(5)] that, folded assms(5)] g that by blast
  note other = this and none = fresh_area(1) [OF assms(1) p0 [unfolded assms(5)], folded assms(5)]
  have block: "block_ok s2 p (Small k (map (cell_at p k) [0..<ncells k]))"
    by (rule carved_block [OF le assms(3)]) (use m2(4-6) in \<open>simp_all add: s2_def fields\<close>)
  have bh: "bin_head s2 ! k = p" using assms(3) len by (simp add: s2_def)
  have "load32 (mem s2) p = 0" using m2(3) assms(4) by (simp add: s2_def s1_def)
  from carved_list [OF assms(1,3,4) p0 this]
  have lst: "\<exists>ps. linked_list (mem s2) (bin_head s2 ! k) ps \<and> distinct ps \<and>
      set ps = {q. \<exists>d ds. (B(p \<mapsto> Small k (map (cell_at p k) [0..<ncells k]))) q = Some (Small k (d # ds))}"
    unfolding bh .
  have hd: "?A \<inter> area (big_head s) 44 = {}" "area p 4096 \<inter> area (big_head s) 44 = {}" using g by auto
  have he: "unat (heap_end s2) = unat p + 4096" using m(3) by (simp add: s2_def s1_def)
  have "heap_ok s2 B'" unfolding assms(6)
    by (rule small_update [OF assms(1) ch _ hd _ p0 al _ _ block _ _ _ _ _ lst])
      (use other none he len assms(5) in \<open>auto simp: s2_def s1_def nth_list_update\<close>)
  moreover have "grows s B s2 B'"
    by (rule growsI) (use he assms(5,6) in \<open>auto simp: s2_def s1_def\<close>)
  ultimately show ?thesis using m2(1) ch bh unfolding s2_def by blast
qed


section \<open>Small requests\<close>

lemma live_new_page:
  assumes "B p = None"
  shows "live (B(p \<mapsto> Small k (map (cell_at p k) [0..<ncells k]))) = live B"
proof -
  have "cells p k - set (map (cell_at p k) [0..<ncells k]) = {}" by (auto simp: cells_def)
  then have "(\<exists>q ds. (B(p \<mapsto> Small k (map (cell_at p k) [0..<ncells k]))) q = Some (Small j ds) \<and> x \<in> cells q j - set ds) \<longleftrightarrow>
      (\<exists>q ds. B q = Some (Small j ds) \<and> x \<in> cells q j - set ds)" for x j
    using assms by (auto split: if_splits) (metis option.distinct(1))
  moreover have "(B(p \<mapsto> Small k (map (cell_at p k) [0..<ncells k]))) q = Some (Big m False) \<longleftrightarrow> B q = Some (Big m False)" for q m
    using assms by auto
  ultimately show ?thesis unfolding live_def by (auto simp del: fun_upd_apply)
qed

lemma take_cell_keeps:
  assumes "heap_ok s B" and "B p = Some (Small k (c # cs))" and "bin_head s ! k = p"
  shows "keeps (live B) (mem s) (mem (take_cell k p s))"
proof (rule keeps_live [OF assms(1) take_cell_ok(2) [OF assms] order_refl])
  fix a n assume l: "(a, n) \<in> live B"
  have "fld p 0 \<notin> area a n" "fld p 1 \<notin> area a n" by (rule live_no_header [OF assms(1,2) l]; simp)+
  then show "{fld p 0, fld p 1} \<inter> area a n = {}" by simp
qed

lemma klmalloc_from_page:
  assumes "heap_ok s B" and "B p = Some (Small k (c # cs))" and "bin_head s ! k = p"
  shows "res_bind (klmalloc_stack_pop p s) (\<lambda>(item, s2).
      Inr (item, if klmalloc_stack_empty p s2 then klmalloc_list_decouple k p s2 else s2)) = Inr (c, take_cell k p s)"
proof -
  have "p \<noteq> 0" "head_of (mem s) p = c" "c \<noteq> 0" using heap_bounds(1,6) [OF assms(1,2)] by auto
  then show ?thesis by (simp add: klmalloc_stack_pop_def take_cell_def Let_def)
qed

text \<open>The page the request is served from: the first of its list, or a new one.\<close>

lemma page_to_serve:
  assumes "heap_ok s B" and "k < 10" and "bin_head s ! k = 0 \<Longrightarrow> can_grow s B 1"
  shows "\<exists>p c cs s1 B1. (if bin_head s ! k = 0 then new_bin k s else Inr (bin_head s ! k, s)) = Inr (p, s1) \<and>
    heap_ok s1 B1 \<and> B1 p = Some (Small k (c # cs)) \<and> bin_head s1 ! k = p \<and> live B1 = live B \<and>
    keeps (live B) (mem s) (mem s1) \<and> grows s B s1 B1"
proof (cases "bin_head s ! k = 0")
  case False
  obtain ps where ps: "linked_list (mem s) (bin_head s ! k) ps" "distinct ps" "set ps = {q. \<exists>d ds. B q = Some (Small k (d # ds))}"
    by (rule small_lists [OF assms(1,2)])
  then obtain qs where "ps = bin_head s ! k # qs" using False by (cases ps) auto
  then have "bin_head s ! k \<in> set ps" by simp
  then obtain c cs where "B (bin_head s ! k) = Some (Small k (c # cs))" using ps(3) by blast
  moreover have "keeps (live B) (mem s) (mem s)" by (simp add: keeps_def)
  ultimately show ?thesis using False assms(1) grows_refl by (intro exI) auto
next
  case True
  let ?p = "heap_end s"
  define B1 where "B1 = B(?p \<mapsto> Small k (map (cell_at ?p k) [0..<ncells k]))"
  have g: "can_grow s B 1" by (rule assms(3) [OF True])
  then have p0: "?p \<noteq> 0" by (simp add: can_grow_def)
  obtain s1 where s1: "new_bin k s = Inr (?p, s1)" "heap_ok s1 B1" "bin_head s1 ! k = ?p"
    "changes_only (table_words s 1 \<union> area ?p 4096) (mem s) (mem s1)" "grows s B s1 B1"
    using new_bin_ok [OF assms(1) g assms(2) True refl B1_def] by blast
  have "keeps (live B) (mem s) (mem s1)"
  proof (rule keeps_live [OF assms(1) s1(4) order_refl])
    fix a n assume l: "(a, n) \<in> live B"
    obtain q b where q: "B q = Some b" "area a n \<subseteq> area q (extent b)" using live_where [OF assms(1) l] by metis
    then show "(table_words s 1 \<union> area ?p 4096) \<inter> area a n = {}"
      using g fresh_area(2) [OF assms(1) p0 q(1), of 4096] unfolding can_grow_def by blast
  qed
  moreover obtain c cs where "map (cell_at ?p k) [0..<ncells k] = c # cs"
    using cells_available(3) [OF assms(2)] by (cases "map (cell_at ?p k) [0..<ncells k]") auto
  then have "B1 ?p = Some (Small k (c # cs))" by (simp add: B1_def)
  moreover have "live B1 = live B" unfolding B1_def using fresh_area(1) [OF assms(1) p0] by (rule live_new_page)
  ultimately show ?thesis using True s1 by auto
qed

lemma klmalloc_small_ok:
  assumes "heap_ok s B" and "sz \<noteq> 0" and "unat sz \<le> 2048" and "k < 10" and "klmalloc_bin_size sz = of_nat k"
    and "bin_head s ! k = 0 \<Longrightarrow> can_grow s B 1"
  shows "\<exists>c s' B'. klmalloc sz s = Inr (c, s') \<and> heap_ok s' B' \<and> (c, class_bytes k) \<notin> live B \<and>
    live B' = insert (c, class_bytes k) (live B) \<and> keeps (live B) (mem s) (mem s') \<and> grows s B s' B'"
proof -
  have uk: "unat (of_nat k :: u32) = k" using assms(4) by (intro unat_of_nat32) simp
  then have lt: "(of_nat k :: u32) < BIG_BIN"
    using assms(4) by (simp add: word_less_nat_alt BIG_BIN_def NUM_BINS_def)
  obtain p c cs s1 B1 where r: "(if bin_head s ! k = 0 then new_bin k s else Inr (bin_head s ! k, s)) = Inr (p, s1)"
    "heap_ok s1 B1" "B1 p = Some (Small k (c # cs))" "bin_head s1 ! k = p" "live B1 = live B"
    "keeps (live B) (mem s) (mem s1)" "grows s B s1 B1"
    using page_to_serve [OF assms(1,4,6)] by blast
  have "klmalloc sz s = Inr (c, take_cell k p s1)"
    unfolding klmalloc_def Let_def klmalloc_list_head_def assms(5) uk
    by (simp only: assms(2) lt if_False if_True r(1) res_bind_simps prod.case klmalloc_from_page [OF r(2-4)])
  moreover have "keeps (live B) (mem s) (mem (take_cell k p s1))"
    using keeps_trans [OF r(6)] take_cell_keeps [OF r(2-4)] r(5) by simp
  moreover note take_cell_ok(1) [OF r(2-4)] grows_trans [OF r(7) take_cell_ok(3) [OF r(2-4)]]
  moreover note live_update_small [OF r(2,3), unfolded r(5)]
  ultimately show ?thesis by blast
qed

lemma klfree_small_ok:
  assumes "heap_ok s B" and "B p = Some (Small k cs)" and "c \<in> cells p k" and "c \<notin> set cs"
  shows "\<exists>s' B'. klfree c s = Inr ((), s') \<and> heap_ok s' B' \<and> live B' = live B - {(c, class_bytes k)} \<and>
    keeps (live B - {(c, class_bytes k)}) (mem s) (mem s') \<and> grows s B s' B'"
proof -
  note pg = small_page [OF assms(1,2)] and hb = heap_bounds [OF assms(1,2)]
  note pf = page_words [OF conjunct1 [OF pg] conjunct2 [OF pg]] and gc = give_cell_ok [OF assms]
  have k: "k < 10" "size_of (mem s) p = of_nat k" using hb(6) by simp_all
  have uk: "unat (of_nat k :: u32) = k" using k by (intro unat_of_nat32) simp
  have hd: "header_of c = p" by (rule page_of_cell [OF assms(3)]) (use pg in auto)
  have c: "c \<noteq> 0" "c \<in> area p 4096" using pf(7) [OF assms(3)] by blast+
  have "\<not> NUM_BINS < (of_nat k :: u32)" using k(1) uk by (simp add: word_less_nat_alt NUM_BINS_def)
  moreover have "p mod PAGE_SIZE = 0" using pg by (intro page_mod) simp
  moreover have "length (bin_head s) = 10" using assms(1) by (simp add: heap_ok_def bins_ok_def)
  ultimately have run: "klfree c s = Inr ((), give_cell k p c s)"
    using c(1) k hd
    by (cases "klmalloc_stack_empty p s")
      (simp_all add: klfree_def Let_def uk klmalloc_list_insert_def klmalloc_stack_push_def give_cell_def put_word_def)
  let ?B = "B(p \<mapsto> Small k (c # cs))"
  have "(?B(p \<mapsto> Small k cs)) = B" using assms(2) by auto
  then have lv: "live B = insert (c, class_bytes k) (live ?B)" "(c, class_bytes k) \<notin> live ?B"
    using live_update_small [OF gc(1), of p k c cs] by simp_all
  have lc: "(c, class_bytes k) \<in> live B" using lv(1) by blast
  have "keeps (live B - {(c, class_bytes k)}) (mem s) (mem (give_cell k p c s))"
  proof (rule keeps_live [OF assms(1) gc(2)])
    fix a n assume l: "(a, n) \<in> live B - {(c, class_bytes k)}"
    then have l': "(a, n) \<in> live B" by simp
    have "fld p 0 \<notin> area a n" "fld p 1 \<notin> area a n" by (rule live_no_header [OF assms(1,2) l']; simp)+
    moreover have "c \<in> area c (class_bytes k)" using class_bytes_pos [of k] by (simp add: area_def)
    then have "c \<notin> area a n" using live_disjoint [OF assms(1) lc, of a n] l by auto
    ultimately show "{fld p 0, fld p 1, c} \<inter> area a n = {}" by simp
  qed blast
  then show ?thesis using run gc(1,3) lv by (intro exI [of _ "give_cell k p c s"] exI [of _ ?B]) auto
qed

end
