(* ===== verification/Heap_Big.thy ===== *)
theory Heap_Big
  imports Heap_Ops
begin

text \<open>
  Big blocks: taking one from the skip list, giving one back, and making a new one from fresh pages.
\<close>

section \<open>Headers of big blocks\<close>

lemma area_apart:
  assumes "area a 44 \<inter> area b 44 = {}" and "unat a + 44 \<le> 4294967296" and "unat b + 44 \<le> 4294967296"
  shows "apart a 44 b 44"
proof -
  have "a \<notin> area b 44 \<and> b \<notin> area a 44" using assms(1) by (auto simp: area_def)
  then have "unat a + 44 \<le> unat b \<or> unat b + 44 \<le> unat a" by (auto simp: area_def not_less)
  moreover have "44 \<le> unat (y - x) \<and> 44 \<le> unat (x - y)" if "unat x + 44 \<le> unat y" "unat y + 44 \<le> 4294967296" for x y :: u32
  proof -
    have "x \<le> y" using that(1) by (simp add: word_le_nat_alt)
    then have "unat (y - x) = unat y - unat x" by (rule unat_sub)
    moreover have "unat (x - y) = (unat x + (4294967296 - unat y)) mod 4294967296" by (rule unat_sub_mod)
    moreover have "unat x + (4294967296 - unat y) < 4294967296" using that by linarith
    ultimately have "unat (y - x) = unat y - unat x" "unat (x - y) = unat x + (4294967296 - unat y)" by simp_all
    moreover have "44 \<le> unat y - unat x" "44 \<le> unat x + (4294967296 - unat y)" using that by linarith+
    ultimately show ?thesis by (simp only:)
  qed
  ultimately show ?thesis using assms(2,3) unfolding apart_def by blast
qed

abbreviation bigs :: "(u32 \<rightharpoonup> blk) \<Rightarrow> u32 set" where
  "bigs B \<equiv> {q. \<exists>n f. B q = Some (Big n f)}"

lemma big_headers:
  assumes "heap_ok s B" and "P \<subseteq> bigs B"
  shows "headers (insert (big_head s) P)"
proof -
  have h: "aligned4 (big_head s)" "unat (big_head s) + 44 \<le> 4294967296" using assms(1) by (simp_all add: heap_ok_def blocks_ok_def)
  have sub: "area q 44 \<subseteq> area q (extent (Big n f))" for q n f by (auto simp: area_def)
  have q: "aligned4 q" "unat q + 44 \<le> 4294967296" "area q 44 \<inter> area (big_head s) 44 = {}" if "q \<in> P" for q
  proof -
    obtain n f where b: "B q = Some (Big n f)" using \<open>q \<in> P\<close> assms(2) by blast
    note hb = heap_bounds [OF assms(1) b]
    show "aligned4 q" "unat q + 44 \<le> 4294967296" "area q 44 \<inter> area (big_head s) 44 = {}"
      using hb(4,5,7) sub [of q n f] by auto
  qed
  have two: "apart q 44 r 44" if "q \<in> P" "r \<in> P" "q \<noteq> r" for q r
  proof (rule area_apart [OF _ q(2) [OF that(1)] q(2) [OF that(2)]])
    obtain n f m g where "B q = Some (Big n f)" "B r = Some (Big m g)" using \<open>q \<in> P\<close> \<open>r \<in> P\<close> assms(2) by blast
    then show "area q 44 \<inter> area r 44 = {}" using heap_disjoint [OF assms(1) _ _ \<open>q \<noteq> r\<close>] sub by blast
  qed
  have "apart q 44 (big_head s) 44" "apart (big_head s) 44 q 44" if "q \<in> P" for q
    using area_apart [OF q(3) [OF that] q(2) [OF that] h(2)] by (simp_all add: apart_def)
  then show ?thesis unfolding headers_def using h q(1) two by blast
qed

lemma links_where:
  assumes "w \<in> links H {..6}"
  obtains q j where "q \<in> H" "w = fld q j" "4 \<le> j" "j < 11"
proof -
  obtain q i where "w = fld q (4 + i)" "q \<in> H" "i \<le> 6" using assms by (auto simp: links_def)
  then show thesis using that [of q "4 + i"] by simp
qed

lemma unat_big_fld:
  assumes "heap_ok s B" and "B p = Some (Big n f)" and "j < 12"
  shows "unat (fld p j) = unat p + 4 * j"
  using heap_bounds(4,6) [OF assms(1,2)] assms(3) by (intro unat_fld) simp_all

text \<open>The forward links are not among what the blocks' own data, or the clients', occupy.\<close>

lemma links_own:
  assumes "heap_ok s B" and "H \<subseteq> insert (big_head s) (bigs B)" and "B p = Some b"
  shows "links H {..6} \<inter> own p b = {}"
proof (rule equals0I)
  fix w assume "w \<in> links H {..6} \<inter> own p b"
  then have w: "w \<in> links H {..6}" "w \<in> own p b" by simp_all
  obtain q j where q: "q \<in> H" "w = fld q j" "4 \<le> j" "j < 11" using links_where [OF w(1)] by metis
  note hb = heap_bounds [OF assms(1,3)]
  have wp: "w \<in> area p (extent b)" using own_area [OF hb(4,6)] w(2) by blast
  show False
  proof (cases "q = big_head s")
    case True
    then show False using head_fields [OF assms(1) q(4)] q(2) wp hb(5) by blast
  next
    case False
    then obtain n f where b: "B q = Some (Big n f)" using q(1) assms(2) by blast
    have "fld q j \<in> area q (extent (Big n f))" using big_fields [OF assms(1) b] q(4) by simp
    then have qp: "q = p" using heap_disjoint [OF assms(1) b assms(3)] wp q(2) by blast
    then have "own p b = {fld p 1, fld p 2, fld p 11}" using b assms(3) by simp
    then obtain i where "w = fld p i" "i = 1 \<or> i = 2 \<or> i = 11" using w(2) by auto
    then have "fld p i = fld p j" "i < 12" "j < 12" using q qp by auto
    moreover from this have "unat (fld p i) = unat p + 4 * i" "unat (fld p j) = unat p + 4 * j"
      using unat_big_fld [OF assms(1) b [unfolded qp]] by blast+
    ultimately have "unat p + 4 * i = unat p + 4 * j" by (simp only:)
    then show False using q(3,4) \<open>i = 1 \<or> i = 2 \<or> i = 11\<close> by auto
  qed
qed

lemma links_live:
  assumes "heap_ok s B" and "H \<subseteq> insert (big_head s) (bigs B)" and "(a, n) \<in> live B"
  shows "links H {..6} \<inter> area a n = {}"
proof (rule equals0I)
  fix w assume "w \<in> links H {..6} \<inter> area a n"
  then have w: "w \<in> links H {..6}" "w \<in> area a n" by simp_all
  obtain q j where q: "q \<in> H" "w = fld q j" "4 \<le> j" "j < 11" using links_where [OF w(1)] by metis
  obtain p b where p: "B p = Some b" "area a n \<subseteq> area p (extent b)" "\<And>z f. b = Big z f \<Longrightarrow> unat p + 44 \<le> unat w"
    using live_where [OF assms(1,3)] w(2) by metis
  show False
  proof (cases "q = big_head s")
    case True
    then show False using head_fields [OF assms(1) q(4)] q(2) w(2) p(2) heap_bounds(5) [OF assms(1) p(1)] by blast
  next
    case False
    then obtain m f where b: "B q = Some (Big m f)" using q(1) assms(2) by blast
    have "fld q j \<in> area q (extent (Big m f))" using big_fields [OF assms(1) b] q(4) by simp
    then have "q = p" using heap_disjoint [OF assms(1) b p(1)] w(2) p(2) q(2) by blast
    then have "unat p + 44 \<le> unat (fld p j)" using p(1,3) b q(2) by auto
    then show False using unat_big_fld [OF assms(1) b, of j] q(4) \<open>q = p\<close> by simp
  qed
qed

section \<open>Changing one big block\<close>

lemma big_update:
  assumes "heap_ok s B" and "changes_only A (mem s) (mem s')"
    and "\<And>q c. B q = Some c \<Longrightarrow> q \<noteq> p \<Longrightarrow> A \<inter> own q c = {} \<and> area p (n + 44) \<inter> area q (extent c) = {}"
    and "area p (n + 44) \<inter> area (big_head s) 44 = {}"
    and "B p = None \<or> (\<exists>m g. B p = Some (Big m g))"
    and "p \<noteq> 0" "unat p mod 4096 = 0" "unat p + (n + 44) \<le> unat (heap_end s')" "unat (heap_end s) \<le> unat (heap_end s')"
    and "block_ok s' p (Big n f)" and "big_head s' = big_head s" "bin_head s' = bin_head s"
    and "free_list s' xs" and "set xs = {q. \<exists>m. (B(p \<mapsto> Big n f)) q = Some (Big m True)}"
    and "newest_big s' = 0 \<or> (\<exists>m g. (B(p \<mapsto> Big n f)) (newest_big s') = Some (Big m g))"
  shows "heap_ok s' (B(p \<mapsto> Big n f))"
proof -
  have "blocks_ok s' (B(p \<mapsto> Big n f))"
    by (rule blocks_ok_update [OF _ assms(2)]) (use assms in \<open>simp_all add: heap_ok_def\<close>)
  moreover have "bins_ok s' (B(p \<mapsto> Big n f))"
    unfolding bins_ok_def
  proof (intro conjI allI impI)
    show "length (bin_head s') = 10" using assms(1,12) by (simp add: heap_ok_def bins_ok_def)
    fix j :: nat assume j: "j < 10"
    show "\<exists>ps. linked_list (mem s') (bin_head s' ! j) ps \<and> distinct ps \<and>
      set ps = {q. \<exists>d ds. (B(p \<mapsto> Big n f)) q = Some (Small j (d # ds))}"
    proof (rule bins_frame [OF assms(1,2) j, where p = p])
      show "A \<inter> area q 4096 = {}" if "B q = Some (Small i ds)" "q \<noteq> p" for q i ds
        using assms(3) [OF that] by simp
    qed (use assms(5,12) in auto)
  qed
  moreover have "bigs_ok s' (B(p \<mapsto> Big n f))" unfolding bigs_ok_def using assms(13-15) by blast
  ultimately show ?thesis by (simp add: heap_ok_def)
qed

lemma live_iff:
  "(a, n) \<in> live B \<longleftrightarrow>
    (\<exists>k. n = class_bytes k \<and> (\<exists>q cs. B q = Some (Small k cs) \<and> a \<in> cells q k - set cs)) \<or>
    (\<exists>q. a = q + 44 \<and> B q = Some (Big n False))"
  unfolding live_def by blast

lemma live_update_big:
  assumes "heap_ok s B" and "B p = Some (Big n True) \<or> B p = None"
    and "area p 48 \<inter> \<Union> ((\<lambda>(q, b). area q (extent b)) ` {(q, b). B q = Some b \<and> q \<noteq> p}) = {}"
    and "unat p + 48 \<le> 4294967296"
  shows "live (B(p \<mapsto> Big n False)) = insert (p + 44, n) (live B)" "(p + 44, m) \<notin> live B"
proof -
  have "(\<exists>q cs. (B(p \<mapsto> Big n False)) q = Some (Small k cs) \<and> c \<in> cells q k - set cs) \<longleftrightarrow>
      (\<exists>q cs. B q = Some (Small k cs) \<and> c \<in> cells q k - set cs)" for k c
    using assms(2) by (auto split: if_splits) (metis blk.distinct(1) option.distinct(1) option.inject)+
  moreover have "(\<exists>q. a = q + 44 \<and> (B(p \<mapsto> Big n False)) q = Some (Big z False)) \<longleftrightarrow>
      (a = p + 44 \<and> z = n) \<or> (\<exists>q. a = q + 44 \<and> B q = Some (Big z False))" for a z
    using assms(2) by (auto split: if_splits)
  ultimately have "(a, z) \<in> live (B(p \<mapsto> Big n False)) \<longleftrightarrow> (a, z) \<in> insert (p + 44, n) (live B)" for a z
    unfolding live_iff insert_iff prod.inject by blast
  then show "live (B(p \<mapsto> Big n False)) = insert (p + 44, n) (live B)" by auto
  show "(p + 44, m) \<notin> live B"
  proof
    assume l: "(p + 44, m) \<in> live B"
    obtain q b where q: "B q = Some b" "area (p + 44) m \<subseteq> area q (extent b)" "p + 44 \<in> area (p + 44) m"
      "\<And>z f. b = Big z f \<Longrightarrow> f = False"
      using live_where [OF assms(1) l] by metis
    have "unat (p + 44) = unat p + 44" using unat_off [of p 44] assms(4) by simp
    then have "p + 44 \<in> area p 48" by (simp add: area_def)
    then have "q = p" using assms(3) q(1-3) by blast
    then show False using q(1,4) assms(2) by auto
  qed
qed


section \<open>Taking a free block\<close>

lemma free_blocks:
  assumes "heap_ok s B"
  obtains xs where "free_list s xs" "set xs = {q. \<exists>n. B q = Some (Big n True)}" "distinct xs"
proof -
  obtain xs where xs: "free_list s xs" "set xs = {q. \<exists>n. B q = Some (Big n True)}"
    using assms unfolding heap_ok_def bigs_ok_def by blast
  moreover have "distinct xs" using xs(1) by (auto simp: free_list_def skip_ok_def)
  ultimately show thesis using that by blast
qed

lemma big_alone:
  assumes "heap_ok s B" and "B p = Some (Big n f)"
  shows "area p 48 \<inter> \<Union> ((\<lambda>(q, b). area q (extent b)) ` {(q, b). B q = Some b \<and> q \<noteq> p}) = {}"
    "unat p + 48 \<le> 4294967296" "fld p 11 = p + 44" "fld p 1 = p + 4" "unat p + 4096 \<le> 4294967296"
proof -
  have n: "2048 < n" "unat p + (n + 44) \<le> 4294967296" using heap_bounds(4,6) [OF assms] by simp_all
  then show "unat p + 48 \<le> 4294967296" by simp
  have "\<not> n + 44 < 4096"
  proof
    assume "n + 44 < 4096"
    then have "(n + 44) mod 4096 = n + 44" by simp
    then show False using heap_bounds(6) [OF assms] by simp
  qed
  then show "unat p + 4096 \<le> 4294967296" using n(2) by linarith
  have "area p 48 \<subseteq> area p (n + 44)" using n(1) by (auto simp: area_def)
  moreover have "area p (n + 44) \<inter> area q (extent b) = {}" if "B q = Some b" "q \<noteq> p" for q b
    using heap_disjoint [OF assms that(1)] that(2) by simp
  ultimately show "area p 48 \<inter> \<Union> ((\<lambda>(q, b). area q (extent b)) ` {(q, b). B q = Some b \<and> q \<noteq> p}) = {}" by blast
  show "fld p 11 = p + 44" "fld p 1 = p + 4" by (simp_all add: fld_def)
qed

lemma big_own_other:
  assumes "heap_ok s B" and "B p = Some (Big n f)" and "B q = Some c" and "q \<noteq> p" and "j < 12"
  shows "fld p j \<notin> own q c" "area p (n + 44) \<inter> area q (extent c) = {}"
proof -
  show d: "area p (n + 44) \<inter> area q (extent c) = {}" using heap_disjoint [OF assms(1,2,3)] assms(4) by simp
  have "fld p j \<in> area p (n + 44)" using big_fields [OF assms(1,2,5)] by simp
  then show "fld p j \<notin> own q c" using d own_area [OF heap_bounds(4,6) [OF assms(1,3)]] by blast
qed

text \<open>Words of one big block are not among the links of the others, so changing them leaves the free list as it is.\<close>

lemma free_list_other:
  assumes "heap_ok s B" and "B p = Some (Big n f)" and "free_list t xs" and "set xs \<subseteq> bigs B - {p}" and "big_head t = big_head s"
    and "changes_only {fld p 1, fld p 11} (mem t) (mem u)" and "big_head u = big_head t" and "big_level u = big_level t"
  shows "free_list u xs"
proof (rule free_list_frame [OF assms(3,6) _ assms(7,8)])
  fix q j assume q: "q \<in> insert (big_head t) (set xs)" and j: "j < 11" "j \<noteq> 0" "j \<noteq> (3 :: nat)"
  have own: "{fld p 1, fld p 11} \<subseteq> area p (extent (Big n f))"
    using big_fields [OF assms(1,2), of 1] big_fields [OF assms(1,2), of 11] by simp
  show "fld q j \<notin> {fld p 1, fld p 11}"
  proof (cases "q = big_head s")
    case True
    then show ?thesis using own head_fields [OF assms(1) j(1)] heap_bounds(5) [OF assms(1,2)] by blast
  next
    case False
    then obtain z g where z: "B q = Some (Big z g)" "q \<noteq> p" using q assms(4,5) by blast
    have "fld q j \<in> area q (extent (Big z g))" by (rule big_fields [OF assms(1) z(1)]) (use j in simp)
    then show ?thesis using own heap_disjoint [OF assms(1) z(1) assms(2) z(2)] by blast
  qed
qed

text \<open>A block in use is what is left of a free one when its stack is popped.\<close>

lemma pop_big:
  assumes "heap_ok s B" and "B p = Some (Big n True)" and "H \<subseteq> insert (big_head s) (bigs B)"
    and "changes_only (links H {..6}) (mem s) (mem s1)" and "m2 = store32 (mem s1) (fld p 1) 0"
  shows "klmalloc_stack_pop p s1 = Inr (p + 44, s1\<lparr>mem := m2\<rparr>)" "block_ok (s1\<lparr>mem := m2\<rparr>) p (Big n False)"
proof -
  note hb = heap_bounds [OF assms(1,2)] and al = big_alone [OF assms(1,2)]
  have keep: "load32 (mem s1) (fld p j) = load32 (mem s) (fld p j)" if "j \<in> {1, 2, 11}" for j
  proof (rule changes_only_load [OF assms(4) aligned4_fld [OF hb(7)]])
    show "fld p j \<notin> links H {..6}" using links_own [OF assms(1,3,2)] that by auto
  qed
  have old: "load32 (mem s) (fld p 1) = p + 44" "load32 (mem s) (fld p 11) = 0" "unat (load32 (mem s) (fld p 2)) = n"
    using hb(6) by (simp_all add: fields al(3) bytes_def)
  have "p + 44 \<noteq> 0" using hb(1) al(2) unat_off [of p 44] by (auto simp: unat_eq_zero)
  moreover have "head_of (mem s1) p = p + 44" "load32 (mem s1) (p + 44) = 0"
    using keep [of 1] keep [of 11] old by (simp_all add: fields al(3))
  ultimately show "klmalloc_stack_pop p s1 = Inr (p + 44, s1\<lparr>mem := m2\<rparr>)"
    using hb(1) unfolding assms(5) by (simp add: klmalloc_stack_pop_def put_word_def al(4) [unfolded One_nat_def])
  have "load32 m2 (fld p 2) = load32 (mem s1) (fld p 2)"
    unfolding assms(5) by (rule page_words_store [OF hb(2) al(5), THEN trans]) simp_all
  then show "block_ok (s1\<lparr>mem := m2\<rparr>) p (Big n False)"
    using hb(6) old keep [of 2] by (simp add: fields bytes_def assms(5))
qed

lemma big_take:
  assumes "heap_ok s B" and "klmalloc_skip_list_findbest sz s = Inr (p, s)" and "p \<noteq> 0" and "unat sz < 2147483648"
  shows "\<exists>n s' B'. B p = Some (Big n True) \<and> unat sz \<le> n \<and>
    res_bind (klmalloc_skip_list_delete p s) (\<lambda>(_, s2). klmalloc_stack_pop p s2) = Inr (p + 44, s') \<and>
    heap_ok s' B' \<and> (p + 44, n) \<notin> live B \<and> live B' = insert (p + 44, n) (live B) \<and> keeps (live B) (mem s) (mem s') \<and>
    grows s B s' B'"
proof -
  obtain xs where xs: "free_list s xs" "set xs = {q. \<exists>n. B q = Some (Big n True)}" "distinct xs"
    by (rule free_blocks [OF assms(1)])
  have best: "skip_best (unat sz) s = Some p" using assms(2,3) by (simp add: skip_best_def)
  note bs = big_blocks.best_Some [OF xs(1) assms(4) best]
  obtain n where n: "B p = Some (Big n True)" using bs(1) xs(2) by blast
  note hb = heap_bounds [OF assms(1) n] and al = big_alone [OF assms(1) n]
  have sz: "unat sz \<le> n" using bs(2) hb(6) by simp
  let ?H = "insert (big_head s) (set xs)" and ?B = "B(p \<mapsto> Big n False)"
  have H: "?H \<subseteq> insert (big_head s) (bigs B)" using xs(2) by blast
  obtain s1 where s1: "klmalloc_skip_list_delete p s = Inr ((), s1)" "free_list s1 (remove1 p xs)"
    "s1 = s\<lparr>mem := mem s1, big_level := big_level s1\<rparr>" "changes_only (links ?H {..6}) (mem s) (mem s1)"
    using free_list_withdraw [OF xs(1) assms(4) best] by blast
  define s2 where "s2 = s1\<lparr>mem := store32 (mem s1) (fld p 1) 0\<rparr>"
  note pop = pop_big [OF assms(1) n H s1(4) refl, folded s2_def]
  have same: "s2 = s\<lparr>mem := mem s2, big_level := big_level s2\<rparr>" unfolding s2_def by (subst s1(3)) simp
  have ch1: "changes_only {fld p 1} (mem s1) (mem s2)"
    unfolding s2_def by (simp, rule changes_only_store [OF aligned4_fld [OF hb(7)]]) simp
  let ?A = "links ?H {..6} \<union> {fld p 1}"
  have ch: "changes_only ?A (mem s) (mem s2)"
    by (rule changes_only_trans [OF changes_only_mono [OF s1(4)] changes_only_mono [OF ch1]]) auto
  have fl: "free_list s2 (remove1 p xs)"
    by (rule free_list_other [OF assms(1) n s1(2) _ _ changes_only_mono [OF ch1]])
      (use xs(2,3) in \<open>auto simp: s2_def arg_cong [OF s1(3), of big_head]\<close>)
  have nw: "newest_big s2 = 0 \<or> (\<exists>m g. ?B (newest_big s2) = Some (Big m g))"
    using assms(1) unfolding heap_ok_def bigs_ok_def by (subst (1 2) same) auto
  have own: "?A \<inter> own q c = {} \<and> area p (n + 44) \<inter> area q (extent c) = {}" if "B q = Some c" "q \<noteq> p" for q c
    using links_own [OF assms(1) H that(1)] big_own_other [OF assms(1) n that, of 1] by auto
  have heads: "big_head s2 = big_head s" "bin_head s2 = bin_head s" "heap_end s2 = heap_end s" by (subst same, simp)+
  have "heap_ok s2 ?B"
  proof (rule big_update [OF assms(1) ch own _ _ hb(1,2) _ _ pop(2) heads(1,2) fl _ nw])
    show "set (remove1 p xs) = {q. \<exists>m. ?B q = Some (Big m True)}" using xs(2,3) by auto
  qed (use hb n heads in auto)
  moreover have "keeps (live B) (mem s) (mem s2)"
  proof (rule keeps_live [OF assms(1) ch order_refl])
    fix a z assume l: "(a, z) \<in> live B"
    show "?A \<inter> area a z = {}" using links_live [OF assms(1) H l] live_no_header [OF assms(1) n l, of 1] by simp
  qed
  moreover have "s2 = s\<lparr>mem := mem s2, big_level := big_level s2, skip_rng := skip_rng s\<rparr>" by (subst same) simp
  then have "grows s B s2 ?B" by (rule grows_lists) (use n in auto)
  moreover have "B p = Some (Big n True) \<or> B p = None" using n ..
  note live_update_big [OF assms(1) this al(1,2)]
  ultimately show ?thesis using n sz s1(1) pop(1) by fastforce
qed


section \<open>Giving a block back\<close>

lemma page_sized_bytes:
  assumes "(bytes m p + 44) mod 4096 = 0" and "bytes m p + 44 < 4294967296"
  shows "page_sized m p"
proof -
  have "unat (size_of m p + 44) = bytes m p + 44"
    using assms(2) unat_off [of "size_of m p" 44] by (simp add: bytes_def)
  then have "unat ((size_of m p + 44) mod 0x1000) = 0" using assms(1) by (simp add: unat_mod_distrib)
  then have "(size_of m p + 44) mod 0x1000 = 0" by (simp only: unat_eq_0)
  then show ?thesis by (simp only: page_sized_def sizeof_big_bin_header_def PAGE_SIZE_def)
qed

text \<open>The payload goes onto the block's empty stack; then the block can enter the free list.\<close>

lemma push_big:
  assumes "heap_ok s B" and "B p = Some (Big n False)" and "m1 = store32 (store32 (mem s) (fld p 11) 0) (fld p 1) (p + 44)"
  shows "klmalloc_stack_push p (p + 44) s = Inr ((), s\<lparr>mem := m1\<rparr>)" "changes_only {fld p 1, fld p 11} (mem s) m1"
    "head_of m1 p = p + 44" "load32 m1 (p + 44) = 0" "size_of m1 p = size_of (mem s) p" "p + 44 \<noteq> 0"
proof -
  note hb = heap_bounds [OF assms(1,2)] and al = big_alone [OF assms(1,2)]
  have al4: "aligned4 (fld p j)" for j by (rule aligned4_fld [OF hb(7)])
  have st: "load32 (store32 m (fld p i) v) (fld p j) = (if i = j then v else load32 m (fld p j))" if "i < 1024" "j < 1024" for m v i j
    by (rule page_words_store [OF hb(2) al(5) that])
  have "unat (p + 44) = unat p + 44" using al(2) unat_off [of p 44] by simp
  then show p44: "p + 44 \<noteq> 0" by (metis add_is_0 unsigned_0 zero_neq_numeral)
  show "changes_only {fld p 1, fld p 11} (mem s) m1"
    unfolding assms(3) by (rule changes_only_trans [OF changes_only_store [OF al4] changes_only_store [OF al4]]) auto
  show "klmalloc_stack_push p (p + 44) s = Inr ((), s\<lparr>mem := m1\<rparr>)"
    using p44 hb(6) by (simp add: klmalloc_stack_push_def put_word_def assms(3) al(3) al(4) [unfolded One_nat_def])
  show "head_of m1 p = p + 44" "load32 m1 (p + 44) = 0" "size_of m1 p = size_of (mem s) p"
    unfolding assms(3) fields al(3) [symmetric] by (simp_all add: st)
qed

lemma klfree_big_run:
  assumes "heap_ok s B" and "B p = Some (Big n False)" and "s1 = s\<lparr>mem := store32 (store32 (mem s) (fld p 11) 0) (fld p 1) (p + 44)\<rparr>"
    and "klmalloc_skip_list_insert p s1 = Inr ((), s2)"
  shows "klfree (p + 44) s = Inr ((), s2)"
proof -
  note hb = heap_bounds [OF assms(1,2)] and al = big_alone [OF assms(1,2)] and push = push_big [OF assms(1,2) refl, folded assms(3)]
  have b: "bytes (mem s) p = n" "head_of (mem s) p = 0" "2048 < n" "n < 2147483648" "(n + 44) mod 4096 = 0" using hb(6) by simp_all
  have "NUM_BINS < size_of (mem s) p" using b(1,3) by (simp add: word_less_nat_alt NUM_BINS_def bytes_def)
  moreover have "page_sized (mem s) p" using b by (intro page_sized_bytes) simp_all
  moreover have "header_of (p + 44) = p" by (rule page_of_big [OF hb(2) al(5)])
  moreover have "head_of (mem s1) p = p + 44" using push(3) by (simp add: assms(3))
  ultimately show ?thesis
    using push(1,6) hb(1) page_mod [OF hb(2)] b(2) assms(4) unfolding klfree_def Let_def sizeof_big_bin_header_def by simp
qed

lemma given_block:
  assumes "heap_ok s B" and "B p = Some (Big n False)" and "set xs = {q. \<exists>n. B q = Some (Big n True)}"
    and "s1 = s\<lparr>mem := store32 (store32 (mem s) (fld p 11) 0) (fld p 1) (p + 44)\<rparr>"
  shows "free_block s1 xs p" "bytes (mem s1) p = n"
proof -
  note hb = heap_bounds [OF assms(1,2)] and push = push_big [OF assms(1,2) refl]
  have ms: "mem s1 = store32 (store32 (mem s) (fld p 11) 0) (fld p 1) (p + 44)" "big_head s1 = big_head s" by (simp_all add: assms(4))
  have "bytes (mem s) p = n" "2048 < n" "n < 2147483648" "(n + 44) mod 4096 = 0" using hb(6) by simp_all
  then show b1: "bytes (mem s1) p = n" using push(5) by (simp add: ms bytes_def)
  with \<open>n < 2147483648\<close> \<open>(n + 44) mod 4096 = 0\<close> have "skip_node (mem s1) p"
    unfolding skip_node_def using hb(1) page_mod [OF hb(2)] by (auto intro: page_sized_bytes)
  moreover have "p \<noteq> big_head s"
  proof
    assume "p = big_head s"
    then have "p \<in> area p (extent (Big n False)) \<inter> area (big_head s) 44" by (simp add: area_def)
    then show False using hb(5) by blast
  qed
  moreover have "headers (insert (big_head s) (insert p (set xs)))" by (rule big_headers [OF assms(1)]) (use assms(2,3) in auto)
  moreover have "insert p (insert (big_head s) (set xs)) = insert (big_head s) (insert p (set xs))" by auto
  moreover have "size_of (mem s1) p \<noteq> 0" using b1 \<open>2048 < n\<close> by (auto simp: bytes_def)
  moreover have "p \<notin> set xs" using assms(2,3) by auto
  ultimately show "free_block s1 xs p" unfolding free_block_def using push(3,6) by (simp add: ms)
qed

lemma big_give:
  assumes "heap_ok s B" and "B p = Some (Big n False)"
  shows "\<exists>s' B'. klfree (p + 44) s = Inr ((), s') \<and> heap_ok s' B' \<and> live B' = live B - {(p + 44, n)} \<and>
    keeps (live B - {(p + 44, n)}) (mem s) (mem s') \<and> grows s B s' B'"
proof -
  obtain xs where xs: "free_list s xs" "set xs = {q. \<exists>n. B q = Some (Big n True)}" "distinct xs"
    by (rule free_blocks [OF assms(1)])
  note hb = heap_bounds [OF assms] and al = big_alone [OF assms]
  define s1 where "s1 = s\<lparr>mem := store32 (store32 (mem s) (fld p 11) 0) (fld p 1) (p + 44)\<rparr>"
  note push = push_big [OF assms refl] and fb = given_block [OF assms xs(2) s1_def]
  let ?A1 = "{fld p 1, fld p 11}" and ?B = "B(p \<mapsto> Big n True)"
  have ch1: "changes_only ?A1 (mem s) (mem s1)" using push(2) by (simp add: s1_def)
  have fl1: "free_list s1 xs"
    by (rule free_list_other [OF assms xs(1) _ refl ch1]) (use xs(2) assms(2) in \<open>auto simp: s1_def\<close>)
  let ?H = "insert p (insert (big_head s) (set xs))"
  obtain s2 where s2: "klmalloc_skip_list_insert p s1 = Inr ((), s2)" "free_list s2 (insort_key (bytes (mem s1)) p xs)"
    "s2 = s1\<lparr>skip_rng := skip_rng s2, big_level := big_level s2, mem := mem s2\<rparr>"
    "changes_only (links ?H {..6}) (mem s1) (mem s2)"
    using free_list_give [OF fl1 fb(1)] by (auto simp: s1_def)
  let ?A = "links ?H {..6} \<union> ?A1"
  have ch: "changes_only ?A (mem s) (mem s2)"
    by (rule changes_only_trans [OF changes_only_mono [OF ch1] changes_only_mono [OF s2(4)]]) auto
  have H: "?H \<subseteq> insert (big_head s) (bigs B)" using xs(2) assms(2) by blast
  have keep: "load32 (mem s2) (fld p j) = load32 (mem s1) (fld p j)" if "j \<in> {1, 2, 11}" for j
  proof (rule changes_only_load [OF s2(4) aligned4_fld [OF hb(7)]])
    show "fld p j \<notin> links ?H {..6}" using links_own [OF assms(1) H assms(2)] that by auto
  qed
  have block: "block_ok s2 p (Big n True)"
    using keep [of 1] keep [of 2] keep [of 11] push(3,4) fb(2) hb(6) by (simp add: fields bytes_def s1_def al(3))
  have same: "s2 = s\<lparr>mem := mem s2, big_level := big_level s2, skip_rng := skip_rng s2\<rparr>" by (subst s2(3)) (simp add: s1_def)
  have heads: "big_head s2 = big_head s" "bin_head s2 = bin_head s" "heap_end s2 = heap_end s" by (subst same, simp)+
  have nw: "newest_big s2 = 0 \<or> (\<exists>m g. ?B (newest_big s2) = Some (Big m g))"
    using assms(1) unfolding heap_ok_def bigs_ok_def by (subst (1 2) same) auto
  have own: "?A \<inter> own q c = {} \<and> area p (n + 44) \<inter> area q (extent c) = {}" if "B q = Some c" "q \<noteq> p" for q c
    using links_own [OF assms(1) H that(1)] big_own_other [OF assms that, of 1] big_own_other [OF assms that, of 11] by auto
  have ok: "heap_ok s2 ?B"
  proof (rule big_update [OF assms(1) ch own _ _ hb(1,2) _ _ block heads(1,2) s2(2) _ nw])
    show "set (insort_key (bytes (mem s1)) p xs) = {q. \<exists>m. ?B q = Some (Big m True)}"
      using xs(2) by (auto simp: set_insort_key)
  qed (use hb assms heads in auto)
  have B: "?B(p \<mapsto> Big n False) = B" and pe: "?B p = Some (Big n True)" using assms(2) by auto
  note alt = big_alone(1,2) [OF ok pe]
  have lv: "live B = insert (p + 44, n) (live ?B)" "(p + 44, n) \<notin> live ?B"
    using live_update_big(1) [OF ok disjI1 [OF pe] alt] live_update_big(2) [OF ok disjI1 [OF pe] alt] unfolding B by blast+
  have "keeps (live B - {(p + 44, n)}) (mem s) (mem s2)"
  proof (rule keeps_live [OF assms(1) ch])
    fix a z assume l: "(a, z) \<in> live B - {(p + 44, n)}"
    then have l': "(a, z) \<in> live B" by simp
    have "(p + 44, n) \<in> live B" using lv(1) by blast
    then have "area (p + 44) n \<inter> area a z = {}" using live_disjoint [OF assms(1)] l by blast
    moreover have "fld p 11 \<in> area (p + 44) n" using hb(6) by (simp add: area_def al(3))
    ultimately have "fld p 11 \<notin> area a z" by blast
    then show "?A \<inter> area a z = {}" using links_live [OF assms(1) H l'] live_no_header [OF assms l', of 1] by simp
  qed blast
  moreover have "grows s B s2 ?B" by (rule grows_lists [OF same]) (use assms(2) in auto)
  ultimately show ?thesis
    using klfree_big_run [OF assms s1_def s2(1)] ok lv by (intro exI [of _ s2] exI [of _ ?B]) auto
qed


section \<open>Making a new block\<close>

lemma big_pages:
  assumes "2048 < unat sz" and "unat sz + 44 < 2147483648" and "pages = (unat sz + 44) div 4096 + 1" and "n = 4096 * pages - 44"
  shows "n + 44 = 4096 * pages" "unat sz \<le> n" "2048 < n" "n < 2147483648" "(n + 44) mod 4096 = 0" "0 < pages"
    "(sz + sizeof_big_bin_header) div PAGE_SIZE + 1 = of_nat pages" "PAGE_SIZE * of_nat pages = of_nat (4096 * pages)"
    "of_nat pages * PAGE_SIZE - sizeof_big_bin_header = of_nat n"
proof -
  show "0 < pages" by (simp add: assms(3))
  have "(unat sz + 44) div 4096 < 524288" using assms(2) by (simp add: less_mult_imp_div_less)
  then have "4096 * pages \<le> 2147483648" by (simp add: assms(3))
  moreover have "unat sz + 44 < 4096 * pages" unfolding assms(3) by (simp add: dividend_less_times_div)
  ultimately show n: "n + 44 = 4096 * pages" "unat sz \<le> n" "2048 < n" "n < 2147483648" "(n + 44) mod 4096 = 0"
    using assms(1,4) by simp_all
  have "unat (sz + 44) = unat sz + 44" using assms(2) unat_off [of sz 44] by simp
  then have "unat ((sz + 44) div 0x1000) = (unat sz + 44) div 4096" by (simp add: unat_div_distrib)
  then have "(sz + 44) div 0x1000 = of_nat ((unat sz + 44) div 4096)" by (metis of_nat_unat ucast_id)
  then show "(sz + sizeof_big_bin_header) div PAGE_SIZE + 1 = of_nat pages"
    by (simp only: assms(3) sizeof_big_bin_header_def PAGE_SIZE_def of_nat_add of_nat_1)
  show "PAGE_SIZE * of_nat pages = of_nat (4096 * pages)" by (simp add: PAGE_SIZE_def)
  have "(of_nat (n + 44) :: u32) = of_nat pages * PAGE_SIZE" unfolding n(1) by (simp add: PAGE_SIZE_def)
  then have "of_nat pages * PAGE_SIZE = of_nat n + (44 :: u32)" by simp
  then show "of_nat pages * PAGE_SIZE - sizeof_big_bin_header = of_nat n"
    by (simp only: sizeof_big_bin_header_def) simp
qed

text \<open>The header of the new block is written into its first page, and the word its predecessor points with.\<close>

abbreviation newest_word :: "'a heap_scheme \<Rightarrow> u32 set" where
  "newest_word s \<equiv> (if newest_big s = 0 then {} else {newest_big s})"

lemma new_big_run:
  assumes "2048 < unat sz" and "unat sz + 44 < 2147483648" and "pages = (unat sz + 44) div 4096 + 1" and "n = 4096 * pages - 44"
    and "sbrk (of_nat (4096 * pages)) s = Inr (p, s1)" and "unat p mod 4096 = 0" and "unat p + 4096 \<le> 4294967296"
    and "newest_big s1 \<noteq> 0 \<Longrightarrow> aligned4 (newest_big s1) \<and> (\<forall>j < 12. fld p j \<noteq> newest_big s1)"
  shows "\<exists>m. new_big sz s = Inr (p + 44, s1\<lparr>newest_big := p, mem := m\<rparr>) \<and>
    changes_only (area p (n + 44) \<union> newest_word s1) (mem s1) m \<and> block_ok (s1\<lparr>newest_big := p, mem := m\<rparr>) p (Big n False)"
proof -
  note n = big_pages [OF assms(1-4)] and pf = page_words [OF assms(6,7)] and st = page_words_store [OF assms(6,7)]
  let ?nw = "newest_big s1" and ?A = "area p (n + 44) \<union> newest_word s1"
  have f: "p + 8 = fld p 2" "p + 12 = fld p 3" "p + 4 = fld p 1" "p = fld p 0" by (simp_all add: fld_def)
  define m1 where "m1 = store32 (mem s1) (fld p 2) (of_nat n)"
  define m2 where "m2 = store32 m1 (fld p 3) ?nw"
  define m3 where "m3 = (if ?nw \<noteq> 0 then store32 m2 ?nw p else m2)"
  define m4 where "m4 = store32 (store32 m3 (fld p 0) 0) (fld p 1) 0"
  have un: "unat (of_nat n :: u32) = n" using n(4) by (intro unat_of_nat32) simp
  have sz1: "size_of m1 p = of_nat n" by (simp add: m1_def fields)
  have "page_sized m1 p" by (rule page_sized_bytes) (use n un sz1 in \<open>simp_all add: bytes_def\<close>)
  moreover have "prev_of (store32 m1 (fld p 3) ?nw) p = ?nw" by (simp add: fields)
  moreover have "p mod PAGE_SIZE = 0" by (rule page_mod [OF assms(6)])
  ultimately have "new_big sz s = Inr (p + 44, s1\<lparr>newest_big := p, mem := m4\<rparr>)"
    unfolding new_big_def Let_def n(7-9) assms(5) res_bind_simps prod.case f(1-3)
    by (simp add: put_word_def m1_def [symmetric] m2_def m4_def m3_def f(4) [symmetric] sizeof_big_bin_header_def)
  moreover have "changes_only ?A (mem s1) m4"
  proof -
    have "fld p j \<in> area p (n + 44)" if "j < 12" for j
      using that n(3) assms(7) by (simp add: area_def unat_fld)
    then have a: "changes_only ?A x (store32 x (fld p j) v)" if "j < 12" for x j v
      using that by (intro changes_only_store [OF pf(6)]) blast
    have "changes_only ?A (mem s1) m1" "changes_only ?A m1 m2" unfolding m1_def m2_def by (rule a, simp)+
    moreover have "changes_only ?A m2 m3" using assms(8) unfolding m3_def by (auto intro!: changes_only_store)
    moreover have "changes_only ?A m3 (store32 m3 (fld p 0) 0)" "changes_only ?A (store32 m3 (fld p 0) 0) m4"
      unfolding m4_def by (rule a, simp)+
    ultimately show ?thesis by (meson changes_only_trans)
  qed
  moreover have "load32 m3 (fld p j) = load32 m2 (fld p j)" if "j < 12" for j
    using assms(8) that by (auto simp: m3_def load32_store32_aligned pf(6))
  from this [of 2] have "load32 m4 (fld p 2) = of_nat n" "load32 m4 (fld p 1) = 0"
    unfolding m4_def by (simp_all add: st m2_def m1_def)
  then have "block_ok (s1\<lparr>newest_big := p, mem := m4\<rparr>) p (Big n False)" using n(3-5) un by (simp add: fields bytes_def)
  ultimately show ?thesis by blast
qed

text \<open>That word belongs to a big block, and is none that another part of the heap looks at.\<close>

lemma newest_block:
  assumes "heap_ok s B" and "newest_big s \<noteq> 0"
  obtains z g where "B (newest_big s) = Some (Big z g)" "newest_big s = fld (newest_big s) 0" "aligned4 (newest_big s)"
    "newest_big s \<in> area (newest_big s) (extent (Big z g))"
proof -
  obtain z g where z: "B (newest_big s) = Some (Big z g)" using assms by (auto simp: heap_ok_def bigs_ok_def)
  show thesis by (rule that [OF z _ heap_bounds(7) [OF assms(1) z]]) (simp_all add: fld_def area_def)
qed

lemma newest_own:
  assumes "heap_ok s B" and "B q = Some c"
  shows "newest_word s \<inter> own q c = {}"
proof (cases "newest_big s = 0")
  case nz: False
  obtain z g where z: "B (newest_big s) = Some (Big z g)" "newest_big s = fld (newest_big s) 0" by (rule newest_block [OF assms(1) nz])
  have "newest_big s \<notin> own q c"
  proof (cases "q = newest_big s")
    case True
    then have "own q c = {fld q 1, fld q 2, fld q 11}" using z(1) assms(2) by auto
    then show ?thesis
      using True unat_big_fld [OF assms(1) z(1), of 1] unat_big_fld [OF assms(1) z(1), of 2] unat_big_fld [OF assms(1) z(1), of 11]
      by auto
  next
    case False
    then show ?thesis using big_own_other(1) [OF assms(1) z(1) assms(2), of 0] z(2) by simp
  qed
  then show ?thesis using nz by simp
qed simp

lemma newest_link:
  assumes "heap_ok s B" and "q \<in> insert (big_head s) (bigs B)" and "0 < j" and "j < 11"
  shows "fld q j \<notin> newest_word s"
proof (cases "newest_big s = 0")
  case nz: False
  obtain z g where z: "B (newest_big s) = Some (Big z g)" "newest_big s \<in> area (newest_big s) (extent (Big z g))"
    by (rule newest_block [OF assms(1) nz])
  consider "q = big_head s" | y f where "B q = Some (Big y f)" "q \<noteq> newest_big s" | y f where "B q = Some (Big y f)" "q = newest_big s"
    using assms(2) by blast
  then have "fld q j \<noteq> newest_big s"
  proof cases
    case 1
    then show ?thesis using head_fields [OF assms(1,4)] heap_bounds(5) [OF assms(1) z(1)] z(2) by auto
  next
    case 2
    have "fld q j \<in> area q (extent (Big y f))" using big_fields [OF assms(1) 2(1), of j] assms(4) by simp
    then show ?thesis using heap_disjoint [OF assms(1) z(1) 2(1)] z(2) 2(2) by auto
  next
    case 3
    then show ?thesis using unat_big_fld [OF assms(1) 3(1), of j] assms(3,4) by auto
  qed
  then show ?thesis using nz by simp
qed simp

lemma newest_live:
  assumes "heap_ok s B" and "(a, n) \<in> live B"
  shows "newest_word s \<inter> area a n = {}"
proof (cases "newest_big s = 0")
  case nz: False
  obtain z g where "B (newest_big s) = Some (Big z g)" "newest_big s = fld (newest_big s) 0" by (rule newest_block [OF assms(1) nz])
  then show ?thesis using live_no_header [OF assms(1) _ assms(2), of "newest_big s" _ 0] nz by simp
qed simp

lemma new_big_ok:
  assumes "heap_ok s B" and "2048 < unat sz" and "unat sz + 44 < 2147483648"
    and "pages = (unat sz + 44) div 4096 + 1" and "can_grow s B pages" and "p = heap_end s" and "n = 4096 * pages - 44"
  shows "\<exists>s' B'. new_big sz s = Inr (p + 44, s') \<and> unat sz \<le> n \<and> heap_ok s' B' \<and> (p + 44, n) \<notin> live B \<and>
    live B' = insert (p + 44, n) (live B) \<and> keeps (live B) (mem s) (mem s') \<and> grows s B s' B'"
proof -
  note g = assms(5) [unfolded can_grow_def, folded assms(6)] and n = big_pages [OF assms(2-4,7)]
  have al: "unat p mod 4096 = 0" and p0: "p \<noteq> 0" using g by blast+
  note fresh = fresh_area [OF assms(1) p0 [unfolded assms(6)], folded assms(6)]
  obtain m where m: "sbrk (of_nat (4096 * pages)) s = Inr (p, s\<lparr>heap_end := of_nat (unat p + 4096 * pages), mem := m\<rparr>)"
    "changes_only (table_words s pages) (mem s) m" "unat (of_nat (unat p + 4096 * pages) :: u32) = unat p + 4096 * pages"
    "unat p + 4096 * pages < 4294967296"
    using sbrk_grow [OF assms(5), folded assms(6)] by blast
  define s1 where "s1 = s\<lparr>heap_end := of_nat (unat p + 4096 * pages), mem := m\<rparr>"
  have le: "unat p + 4096 \<le> 4294967296" using m(4) n(6) by simp
  have nws: "newest_big s1 = newest_big s" "mem s1 = m" by (simp_all add: s1_def)
  have "aligned4 (newest_big s) \<and> (\<forall>j < 12. fld p j \<noteq> newest_big s)" if nz: "newest_big s \<noteq> 0"
  proof -
    obtain z y where z: "B (newest_big s) = Some (Big z y)" "aligned4 (newest_big s)" using newest_block [OF assms(1) nz] by metis
    have "unat (newest_big s) < unat p" using heap_bounds(3) [OF assms(1) z(1)] assms(6) by simp
    moreover have "unat p \<le> unat (fld p j)" if "j < 12" for j using le that by (simp add: unat_fld)
    ultimately show ?thesis using z(2) by (metis leD)
  qed
  then obtain m4 where m4: "new_big sz s = Inr (p + 44, s1\<lparr>newest_big := p, mem := m4\<rparr>)"
    "changes_only (area p (n + 44) \<union> newest_word s) m m4" "block_ok (s1\<lparr>newest_big := p, mem := m4\<rparr>) p (Big n False)"
    using new_big_run [OF assms(2-4,7) m(1) [folded s1_def] al le] unfolding nws by blast
  define s2 where "s2 = s1\<lparr>newest_big := p, mem := m4\<rparr>"
  let ?A = "table_words s pages \<union> area p (n + 44) \<union> newest_word s" and ?B = "B(p \<mapsto> Big n False)"
  have ch: "changes_only ?A (mem s) (mem s2)"
  proof (rule changes_only_trans)
    show "changes_only ?A (mem s) m" by (rule changes_only_mono [OF m(2)]) blast
    have ms: "mem s2 = m4" by (simp add: s2_def)
    show "changes_only ?A m (mem s2)" unfolding ms by (rule changes_only_mono [OF m4(2)]) (simp only: Un_assoc Un_upper2)
  qed
  have hd: "(table_words s pages \<union> area p (n + 44)) \<inter> area (big_head s) 44 = {}" using g n(1) by auto
  have far: "(table_words s pages \<union> area p (n + 44)) \<inter> area q (extent c) = {}" if "B q = Some c" for q c
    using fresh(2) [OF that] g that by blast
  have own: "?A \<inter> own q c = {} \<and> area p (n + 44) \<inter> area q (extent c) = {}" if "B q = Some c" for q c
    using own_area [OF heap_bounds(4,6) [OF assms(1) that]] far [OF that] newest_own [OF assms(1) that] by blast
  obtain xs where xs: "free_list s xs" "set xs = {q. \<exists>n. B q = Some (Big n True)}" "distinct xs"
    by (rule free_blocks [OF assms(1)])
  have fl: "free_list s2 xs"
  proof (rule free_list_frame [OF xs(1) ch])
    fix q j assume q: "q \<in> insert (big_head s) (set xs)" and j: "j < 11" "j \<noteq> 0" "j \<noteq> (3 :: nat)"
    have "fld q j \<notin> newest_word s" by (rule newest_link [OF assms(1)]) (use q xs(2) j in auto)
    moreover have "fld q j \<notin> table_words s pages \<union> area p (n + 44)"
    proof (cases "q = big_head s")
      case True
      then show ?thesis using head_fields [OF assms(1) j(1)] hd by blast
    next
      case False
      then obtain z where z: "B q = Some (Big z True)" using q xs(2) by blast
      then show ?thesis using big_fields [OF assms(1) z, of j] far [OF z] j(1) by fastforce
    qed
    ultimately show "fld q j \<notin> ?A" by blast
  qed (simp_all add: s2_def s1_def)
  have same: "big_head s2 = big_head s" "bin_head s2 = bin_head s" "newest_big s2 = p" "unat (heap_end s2) = unat p + (n + 44)"
    using m(3) n(1) by (simp_all add: s2_def s1_def)
  have ok: "heap_ok s2 ?B"
  proof (rule big_update [OF assms(1) ch own _ _ p0 al _ _ m4(3) [folded s2_def] same(1,2) fl])
    show "set xs = {q. \<exists>m. ?B q = Some (Big m True)}" using xs(2) fresh(1) by auto
  qed (use fresh(1) same assms(6) hd in auto)
  have "keeps (live B) (mem s) (mem s2)"
  proof (rule keeps_live [OF assms(1) ch order_refl])
    fix a z assume l: "(a, z) \<in> live B"
    obtain q b where q: "B q = Some b" "area a z \<subseteq> area q (extent b)" using live_where [OF assms(1) l] by metis
    then show "?A \<inter> area a z = {}" using far [OF q(1)] newest_live [OF assms(1) l] by blast
  qed
  moreover have "area p 48 \<inter> \<Union> ((\<lambda>(q, b). area q (extent b)) ` {(q, b). B q = Some b \<and> q \<noteq> p}) = {}"
    using fresh(2) by blast
  moreover have "unat p + 48 \<le> 4294967296" using le by simp
  moreover have "grows s B s2 ?B" by (rule growsI) (use same assms(6) in \<open>auto simp: s2_def s1_def\<close>)
  ultimately show ?thesis
    using m4(1) [folded s2_def] n(2) ok live_update_big [OF assms(1) disjI2 [OF fresh(1)], of n] by blast
qed

end
