(* ===== verification/Heap.thy ===== *)
theory Heap
  imports Heap_Big
begin

text \<open>
  What \<open>klmalloc\<close> and \<open>klfree\<close> promise to their clients: every operation keeps \<open>heap_ok\<close> and changes
  the set of live blocks as it should; the clients may write into their own blocks. The promises are the
  laws of the locale \<open>allocator\<close>, which the model of the code satisfies.
\<close>

section \<open>Serving a request\<close>

definition pages_for :: "u32 \<Rightarrow> nat" where
  "pages_for sz = (unat sz + 44) div 4096 + 1"

definition has_fit :: "(u32 \<rightharpoonup> blk) \<Rightarrow> u32 \<Rightarrow> bool" where
  "has_fit B sz \<longleftrightarrow> (if unat sz \<le> 2048
     then \<exists>p k c cs. B p = Some (Small k (c # cs)) \<and> klmalloc_bin_size sz = of_nat k
     else \<exists>p n. B p = Some (Big n True) \<and> unat sz \<le> n)"

text \<open>\<open>ready s B sz\<close>: a request of \<open>sz\<close> bytes can be served, from a free cell or block or from new pages.\<close>

definition ready :: "'a heap_scheme \<Rightarrow> (u32 \<rightharpoonup> blk) \<Rightarrow> u32 \<Rightarrow> bool" where
  "ready s B sz \<longleftrightarrow> sz \<noteq> 0 \<and> unat sz + 44 < 2147483648 \<and> (has_fit B sz \<or> can_grow s B (pages_for sz))"

lemma bin_in_list:
  assumes "heap_ok s B" and "B p = Some (Small k (c # cs))"
  shows "bin_head s ! k \<noteq> 0"
proof -
  have k: "k < 10" using heap_bounds(6) [OF assms] by simp
  obtain ps where ps: "linked_list (mem s) (bin_head s ! k) ps" "distinct ps"
    "set ps = {q. \<exists>d ds. B q = Some (Small k (d # ds))}"
    by (rule small_lists [OF assms(1) k])
  then have "p \<in> set ps" using assms(2) by blast
  then show ?thesis using ps(1) by (cases ps) auto
qed

text \<open>The lists the code looks at are empty only when nothing fits.\<close>

lemma empty_bin_no_fit:
  assumes "heap_ok s B" and "unat sz \<le> 2048" and "k < 10" and "klmalloc_bin_size sz = of_nat k" and "bin_head s ! k = 0"
  shows "\<not> has_fit B sz"
proof
  have uk: "unat (of_nat j :: u32) = j" if "j < 10" for j using that by (intro unat_of_nat32) simp
  assume "has_fit B sz"
  then obtain p j c cs where p: "B p = Some (Small j (c # cs))" "klmalloc_bin_size sz = of_nat j"
    using assms(2) unfolding has_fit_def by auto
  have "j < 10" using heap_bounds(6) [OF assms(1) p(1)] by simp
  then have "j = k" using p(2) assms(3,4) uk by metis
  then show False using bin_in_list [OF assms(1) p(1)] assms(5) by simp
qed

lemma no_block_no_fit:
  assumes "heap_ok s B" and "2048 < unat sz" and "unat sz < 2147483648" and "klmalloc_skip_list_findbest sz s = Inr (0, s)"
  shows "\<not> has_fit B sz"
proof
  obtain xs where xs: "free_list s xs" "set xs = {q. \<exists>n. B q = Some (Big n True)}" "distinct xs"
    by (rule free_blocks [OF assms(1)])
  then obtain lev where lev: "skip_ok s xs lev" by (auto simp: free_list_def)
  have f: "first_or_null (at_least (mem s) (unat sz) xs) = 0" using findbest_run [OF lev assms(3)] assms(4) by simp
  assume "has_fit B sz"
  then obtain q n where q: "B q = Some (Big n True)" "unat sz \<le> n" using assms(2) unfolding has_fit_def by auto
  then have "q \<in> set (at_least (mem s) (unat sz) xs)" using xs(2) heap_bounds(6) [OF assms(1) q(1)] by (auto simp: at_least_def)
  then obtain y ys where y: "at_least (mem s) (unat sz) xs = y # ys" by (cases "at_least (mem s) (unat sz) xs") auto
  then have "y \<in> set (at_least (mem s) (unat sz) xs)" by simp
  then have "y \<in> set xs" by (simp add: at_least_def)
  then have "y \<noteq> 0" using lev by (auto simp: skip_ok_def skip_node_def)
  then show False using f y by simp
qed

lemma klmalloc_big_ok:
  assumes "heap_ok s B" and "ready s B sz" and "2048 < unat sz"
  shows "\<exists>p n s' B'. klmalloc sz s = Inr (p, s') \<and> unat sz \<le> n \<and> heap_ok s' B' \<and> (p, n) \<notin> live B \<and>
    live B' = insert (p, n) (live B) \<and> keeps (live B) (mem s) (mem s') \<and> grows s B s' B'"
proof -
  have sz: "sz \<noteq> 0" "unat sz + 44 < 2147483648" "unat sz < 2147483648" using assms(2) by (simp_all add: ready_def)
  have big: "klmalloc_bin_size sz = 10" using assms(3) by (intro bin_size_big) simp
  have nb: "\<not> (10 :: u32) < BIG_BIN" by (simp add: BIG_BIN_def NUM_BINS_def)
  obtain xs lev where "skip_ok s xs lev" using free_blocks [OF assms(1)] by (metis free_list_def)
  then obtain p where fb: "klmalloc_skip_list_findbest sz s = Inr (p, s)" using findbest_run sz(3) by blast
  show ?thesis
  proof (cases "p = 0")
    case False
    then obtain n s' B' where "unat sz \<le> n"
      "res_bind (klmalloc_skip_list_delete p s) (\<lambda>(_, s2). klmalloc_stack_pop p s2) = Inr (p + 44, s')"
      "heap_ok s' B'" "(p + 44, n) \<notin> live B" "live B' = insert (p + 44, n) (live B)" "keeps (live B) (mem s) (mem s')"
      "grows s B s' B'"
      using big_take [OF assms(1) fb False sz(3)] by blast
    moreover from this have "klmalloc sz s = Inr (p + 44, s')" using sz(1) big nb fb False by (simp add: klmalloc_def)
    ultimately show ?thesis by blast
  next
    case True
    have run: "klmalloc sz s = new_big sz s" using sz(1) big nb fb True by (simp add: klmalloc_def)
    have "\<not> has_fit B sz" by (rule no_block_no_fit [OF assms(1,3) sz(3) fb [unfolded True]])
    then have g: "can_grow s B (pages_for sz)" using assms(2) by (simp add: ready_def)
    from new_big_ok [OF assms(1,3) sz(2) pages_for_def g refl refl] show ?thesis unfolding run by blast
  qed
qed

lemma klmalloc_ok:
  assumes "heap_ok s B" and "ready s B sz"
  shows "\<exists>p n s' B'. klmalloc sz s = Inr (p, s') \<and> unat sz \<le> n \<and> heap_ok s' B' \<and> (p, n) \<notin> live B \<and>
    live B' = insert (p, n) (live B) \<and> keeps (live B) (mem s) (mem s') \<and> grows s B s' B'"
proof (cases "unat sz \<le> 2048")
  case True
  have sz: "sz \<noteq> 0" using assms(2) by (simp add: ready_def)
  obtain k where k: "k < 10" "klmalloc_bin_size sz = of_nat k" "unat sz \<le> class_bytes k"
    using bin_size_class [OF sz True] by blast
  have "pages_for sz = 1" using True by (simp add: pages_for_def)
  then have "can_grow s B 1" if "bin_head s ! k = 0"
    using empty_bin_no_fit [OF assms(1) True k(1,2) that] assms(2) by (simp add: ready_def)
  from klmalloc_small_ok [OF assms(1) sz True k(1,2) this] k(3) show ?thesis by blast
next
  case False
  then show ?thesis using klmalloc_big_ok [OF assms] by simp
qed

lemma klfree_ok:
  assumes "heap_ok s B" and "(p, n) \<in> live B"
  shows "\<exists>s' B'. klfree p s = Inr ((), s') \<and> heap_ok s' B' \<and> live B' = live B - {(p, n)} \<and>
    keeps (live B - {(p, n)}) (mem s) (mem s') \<and> grows s B s' B'"
proof -
  consider (small) q k cs where "B q = Some (Small k cs)" "p \<in> cells q k - set cs" "n = class_bytes k"
    | (big) q where "B q = Some (Big n False)" "p = q + 44"
    using assms(2) unfolding live_def by blast
  then show ?thesis
  proof cases
    case small
    then show ?thesis using klfree_small_ok [OF assms(1) small(1)] by blast
  next
    case big
    then show ?thesis using big_give [OF assms(1) big(1)] by blast
  qed
qed


section \<open>Clients write into their blocks\<close>

definition live_bytes :: "(u32 \<rightharpoonup> blk) \<Rightarrow> u32 set" where
  "live_bytes B = (\<Union>(a, n) \<in> live B. area a n)"

lemma live_bytes_iff: "w \<in> live_bytes B \<longleftrightarrow> (\<exists>a n. (a, n) \<in> live B \<and> w \<in> area a n)"
  by (auto simp: live_bytes_def)

lemma not_live_words:
  assumes "heap_ok s B" and "B p = Some b"
  shows "j < 3 \<Longrightarrow> fld p j \<notin> live_bytes B" "b = Big n f \<Longrightarrow> j < 11 \<Longrightarrow> fld p j \<notin> live_bytes B"
    "b = Big n True \<Longrightarrow> fld p 11 \<notin> live_bytes B" "b = Small k cs \<Longrightarrow> c \<in> set cs \<Longrightarrow> c \<notin> live_bytes B"
proof -
  show "fld p j \<notin> live_bytes B" if "j < 3"
    using live_no_header [OF assms _ that] by (auto simp: live_bytes_iff)
  have big: "f = False \<and> unat p + 44 \<le> unat (fld p i)" if b: "b = Big n f" and i: "i < 12" and l: "fld p i \<in> live_bytes B" for n f i
  proof -
    obtain a z where az: "(a, z) \<in> live B" "fld p i \<in> area a z" using l by (auto simp: live_bytes_iff)
    obtain q c where q: "B q = Some c" "area a z \<subseteq> area q (extent c)"
      "\<And>w y f. w \<in> area a z \<Longrightarrow> c = Big y f \<Longrightarrow> unat q + 44 \<le> unat w \<and> f = False \<and> z = y \<and> a = q + 44"
      using live_where [OF assms(1) az(1)] by metis
    have "fld p i \<in> area p (extent b)" using big_fields [OF assms(1) _ i] assms(2) b by blast
    then have "q = p" using heap_disjoint [OF assms(1) q(1) assms(2)] az(2) q(2) by blast
    then show ?thesis using q(1,3) az(2) assms(2) b by auto
  qed
  show "fld p j \<notin> live_bytes B" if b: "b = Big n f" and j: "j < 11"
  proof
    assume l: "fld p j \<in> live_bytes B"
    have "unat (fld p j) = unat p + 4 * j" using unat_big_fld [OF assms(1), of p n f j] assms(2) b j by simp
    then show False using big [OF b _ l] j by simp
  qed
  show "fld p 11 \<notin> live_bytes B" if b: "b = Big n True"
    using big [OF b, of 11] by auto
  show "c \<notin> live_bytes B" if b: "b = Small k cs" and c: "c \<in> set cs"
  proof
    assume "c \<in> live_bytes B"
    then obtain a z where az: "(a, z) \<in> live B" "c \<in> area a z" by (auto simp: live_bytes_iff)
    obtain q d where q: "B q = Some d" "area a z \<subseteq> area q (extent d)"
      "\<And>k cs. d = Small k cs \<Longrightarrow> a \<in> cells q k - set cs \<and> z = class_bytes k"
      using live_where [OF assms(1) az(1)] by metis
    have p: "B p = Some (Small k cs)" using assms(2) b by simp
    note pg = small_page [OF assms(1) p]
    have cc: "c \<in> cells p k" using heap_bounds(6) [OF assms(1) p] c by auto
    then have "c \<in> area p (extent (Small k cs))" using cells_in_area pg by simp
    then have "q = p" using heap_disjoint [OF assms(1) q(1) p] az(2) q(2) by blast
    then have a: "a \<in> cells p k" "a \<notin> set cs" "z = class_bytes k" using q(1,3) p by auto
    have "area a z \<inter> area c (class_bytes k) = {}" unfolding a(3) by (rule page_cells_apart [OF a(1) cc]) (use a(2) c pg in auto)
    moreover have "c \<in> area c (class_bytes k)" using class_bytes_pos [of k] by (simp add: area_def)
    ultimately show False using az(2) by blast
  qed
qed

lemma live_changes:
  assumes "heap_ok s B" and "\<And>x. x \<notin> live_bytes B \<Longrightarrow> m' x = mem s x"
  shows "changes_only (live_bytes B) (mem s) m'"
  unfolding changes_only_def same_word_def
proof (intro allI impI)
  fix w :: u32 and j :: nat
  assume w: "aligned4 w \<and> w \<notin> live_bytes B" and j: "j < 4"
  have "w + of_nat j \<notin> live_bytes B"
  proof
    assume "w + of_nat j \<in> live_bytes B"
    then obtain a n where an: "(a, n) \<in> live B" "w + of_nat j \<in> area a n" by (auto simp: live_bytes_iff)
    have al: "aligned4 a" "n mod 4 = 0" using live_where [OF assms(1) an(1)] by metis+
    obtain v where v: "unat w = 4 * v" using w by (auto simp: aligned4_def mod_eq_0_iff_dvd)
    obtain x where x: "unat a = 4 * x" using al(1) by (auto simp: aligned4_def mod_eq_0_iff_dvd)
    obtain y where y: "n = 4 * y" using al(2) by (auto simp: mod_eq_0_iff_dvd)
    have "4 * v < 4294967296" using v unat_u32_bound [of w] by simp
    then have "v < 1073741824" by simp
    then have "unat (w + of_nat j) = 4 * v + j" using v j by (subst unat_off) simp_all
    then have "4 * x \<le> 4 * v + j" "4 * v + j < 4 * x + 4 * y" using an(2) x y by (simp_all add: area_def)
    then have "x \<le> v" "v < x + y" using j by simp_all
    then have "w \<in> area a n" using v x y by (simp add: area_def)
    then show False using an(1) w by (auto simp: live_bytes_iff)
  qed
  then show "m' (w + of_nat j) = mem s (w + of_nat j)" by (rule assms(2))
qed

lemma live_word_keeps:
  assumes "heap_ok s B" and "\<And>x. x \<notin> live_bytes B \<Longrightarrow> m' x = mem s x" and "aligned4 w" and "w \<notin> live_bytes B"
  shows "load32 m' w = load32 (mem s) w"
  by (rule changes_only_load [OF live_changes [OF assms(1,2)] assms(3,4)])

lemma client_block_ok:
  assumes "heap_ok s B" and "\<And>x. x \<notin> live_bytes B \<Longrightarrow> m' x = mem s x" and "B p = Some b"
  shows "block_ok (s\<lparr>mem := m'\<rparr>) p b"
proof -
  note keep = live_word_keeps [OF assms(1,2)] and hb = heap_bounds [OF assms(1,3)] and nl = not_live_words [OF assms(1,3)]
  have al: "aligned4 (fld p j)" for j by (rule aligned4_fld [OF hb(7)])
  have f: "load32 m' (fld p j) = load32 (mem s) (fld p j)" if "j < 3" for j by (rule keep [OF _ al nl(1) [OF that]])
  show ?thesis
  proof (cases b)
    case (Small k cs)
    note pg = small_page [OF assms(1) assms(3) [unfolded Small]]
    have "load32 m' c = load32 (mem s) c" if c: "c \<in> set cs" for c
    proof (rule keep)
      have "c \<in> cells p k" using hb(6) Small c by auto
      then show "aligned4 c" by (rule cells_aligned) (use pg in auto)
      show "c \<notin> live_bytes B" by (rule nl(4) [OF Small c])
    qed
    then have "linked_list m' a cs = linked_list (mem s) a cs" for a by (rule linked_list_cong)
    then show ?thesis using hb(6) Small f [of 1] f [of 2] by (simp add: fields)
  next
    case (Big n f')
    have "load32 m' (fld p 11) = load32 (mem s) (fld p 11)" if "f'"
      using keep [OF _ al nl(3)] Big that by blast
    moreover have "p + 44 = fld p 11" by (simp add: fld_def)
    ultimately show ?thesis using hb(6) Big f [of 1] f [of 2] by (auto simp: fields bytes_def)
  qed
qed

lemma client_bins_ok:
  assumes "heap_ok s B" and "\<And>x. x \<notin> live_bytes B \<Longrightarrow> m' x = mem s x"
  shows "bins_ok (s\<lparr>mem := m'\<rparr>) B"
  unfolding bins_ok_def
proof (intro conjI allI impI)
  let ?s = "s\<lparr>mem := m'\<rparr>"
  show "length (bin_head ?s) = 10" using assms(1) by (simp add: heap_ok_def bins_ok_def)
  fix k :: nat assume k: "k < 10"
  obtain ps where ps: "linked_list (mem s) (bin_head s ! k) ps" "distinct ps"
    "set ps = {q. \<exists>d ds. B q = Some (Small k (d # ds))}"
    by (rule small_lists [OF assms(1) k])
  have "load32 m' p = load32 (mem s) p" if "p \<in> set ps" for p
  proof (rule live_word_keeps [OF assms])
    obtain d ds where b: "B p = Some (Small k (d # ds))" using \<open>p \<in> set ps\<close> ps(3) by blast
    show "aligned4 p" by (rule heap_bounds(7) [OF assms(1) b])
    show "p \<notin> live_bytes B" using not_live_words(1) [OF assms(1) b, of 0] by (simp add: fld_def)
  qed
  then have "linked_list m' (bin_head s ! k) ps = linked_list (mem s) (bin_head s ! k) ps" by (rule linked_list_cong)
  then show "\<exists>ps. linked_list (mem ?s) (bin_head ?s ! k) ps \<and> distinct ps \<and>
      set ps = {q. \<exists>c cs. B q = Some (Small k (c # cs))}" using ps by auto
qed

lemma client_bigs_ok:
  assumes "heap_ok s B" and "\<And>x. x \<notin> live_bytes B \<Longrightarrow> m' x = mem s x"
  shows "bigs_ok (s\<lparr>mem := m'\<rparr>) B"
proof -
  have ch: "changes_only (live_bytes B) (mem s) (mem (s\<lparr>mem := m'\<rparr>))" using live_changes [OF assms] by simp
  obtain xs where xs: "free_list s xs" "set xs = {q. \<exists>n. B q = Some (Big n True)}" "distinct xs"
    by (rule free_blocks [OF assms(1)])
  have "free_list (s\<lparr>mem := m'\<rparr>) xs"
  proof (rule free_list_frame [OF xs(1) ch])
    fix q j assume q: "q \<in> insert (big_head s) (set xs)" and j: "j < 11" "j \<noteq> 0" "j \<noteq> (3 :: nat)"
    show "fld q j \<notin> live_bytes B"
    proof (cases "q = big_head s")
      case True
      show ?thesis
      proof
        assume "fld q j \<in> live_bytes B"
        then obtain a n where an: "(a, n) \<in> live B" "fld q j \<in> area a n" by (auto simp: live_bytes_iff)
        obtain p b where p: "B p = Some b" "area a n \<subseteq> area p (extent b)" using live_where [OF assms(1) an(1)] by metis
        then show False using head_fields [OF assms(1) j(1)] heap_bounds(5) [OF assms(1) p(1)] True an(2) by blast
      qed
    next
      case False
      then obtain n where "B q = Some (Big n True)" using q xs(2) by blast
      then show ?thesis using not_live_words(2) [OF assms(1) _ refl j(1)] by blast
    qed
  qed simp_all
  then show ?thesis using assms(1) xs(2) by (auto simp: heap_ok_def bigs_ok_def)
qed

lemma client_write_ok:
  assumes "heap_ok s B" and "\<And>x. x \<notin> live_bytes B \<Longrightarrow> m' x = mem s x"
  shows "heap_ok (s\<lparr>mem := m'\<rparr>) B"
proof -
  have "blocks_ok (s\<lparr>mem := m'\<rparr>) B" using assms(1) client_block_ok [OF assms] by (simp add: heap_ok_def blocks_ok_def)
  then show ?thesis using client_bins_ok [OF assms] client_bigs_ok [OF assms] by (simp add: heap_ok_def)
qed


section \<open>The contract\<close>

lemma area_apart_all:
  assumes "area a n \<inter> area b m = {}" and "unat a + n \<le> 4294967296" and "unat b + m \<le> 4294967296" and "k \<le> n" and "k \<le> m"
  shows "apart a k b k"
proof (cases "k = 0")
  case False
  have "unat a + n \<le> unat b \<or> unat b + m \<le> unat a"
  proof (rule ccontr)
    assume "\<not> ?thesis"
    then have "b \<in> area a n \<and> b \<in> area b m \<or> a \<in> area a n \<and> a \<in> area b m"
      using False assms(4,5) unfolding area_def by auto
    then show False using assms(1) by blast
  qed
  moreover have far: "k \<le> unat (y - x) \<and> k \<le> unat (x - y)" if "unat x + k \<le> unat y" "unat y + k \<le> 4294967296" for x y :: u32
  proof -
    have "x \<le> y" using that(1) by (simp add: word_le_nat_alt)
    then have "unat (y - x) = unat y - unat x" by (rule unat_sub)
    moreover have "unat (x - y) = (unat x + (4294967296 - unat y)) mod 4294967296" by (rule unat_sub_mod)
    moreover have "unat x + (4294967296 - unat y) < 4294967296" using that False by linarith
    ultimately have "unat (y - x) = unat y - unat x" "unat (x - y) = unat x + (4294967296 - unat y)" by simp_all
    moreover have "k \<le> unat y - unat x" "k \<le> unat x + (4294967296 - unat y)" using that by linarith+
    ultimately show ?thesis by (simp only:)
  qed
  ultimately consider "unat a + n \<le> unat b" | "unat b + m \<le> unat a" by blast
  then show ?thesis
  proof cases
    case 1
    then show ?thesis using far [of a b] assms(3-5) by (simp add: apart_def)
  next
    case 2
    then show ?thesis using far [of b a] assms(2,4,5) by (simp add: apart_def)
  qed
qed (simp add: apart_def)

text \<open>
  What the clients of the allocator rely on: \<open>held g\<close> are the blocks they have; \<open>get\<close> adds one, \<open>put\<close>
  takes one away, both leave the bytes of the others alone, and the clients may write into what they hold.
\<close>

locale allocator =
  fixes inv :: "'s \<Rightarrow> 'g \<Rightarrow> bool"
    and held :: "'g \<Rightarrow> (u32 \<times> nat) set"
    and serves :: "'s \<Rightarrow> 'g \<Rightarrow> u32 \<Rightarrow> bool"
    and ram :: "'s \<Rightarrow> mem"
    and set_ram :: "mem \<Rightarrow> 's \<Rightarrow> 's"
    and get :: "u32 \<Rightarrow> 's \<Rightarrow> (u32 \<times> 's) option"
    and put :: "u32 \<Rightarrow> 's \<Rightarrow> 's option"
  assumes held_apart: "inv s g \<Longrightarrow> (a, n) \<in> held g \<Longrightarrow> (b, m) \<in> held g \<Longrightarrow> (a, n) \<noteq> (b, m) \<Longrightarrow> area a n \<inter> area b m = {}"
    and held_bound: "inv s g \<Longrightarrow> (a, n) \<in> held g \<Longrightarrow> unat a + n \<le> 4294967296"
    and get_block: "inv s g \<Longrightarrow> serves s g sz \<Longrightarrow>
      \<exists>p n s' g'. get sz s = Some (p, s') \<and> unat sz \<le> n \<and> inv s' g' \<and> (p, n) \<notin> held g \<and>
        held g' = insert (p, n) (held g) \<and> keeps (held g) (ram s) (ram s')"
    and put_block: "inv s g \<Longrightarrow> (p, n) \<in> held g \<Longrightarrow>
      \<exists>s' g'. put p s = Some s' \<and> inv s' g' \<and> held g' = held g - {(p, n)} \<and> keeps (held g - {(p, n)}) (ram s) (ram s')"
    and write_held: "inv s g \<Longrightarrow> (\<And>x. \<forall>(a, n) \<in> held g. x \<notin> area a n \<Longrightarrow> c x = ram s x) \<Longrightarrow> inv (set_ram c s) g"
    and ram_set: "ram (set_ram c s) = c"
begin

text \<open>Copying from one held block into another.\<close>

lemma copy_held:
  assumes "inv s g" and "(p, n) \<in> held g" and "(q, m) \<in> held g" and "(q, m) \<noteq> (p, n)" and "k \<le> n" and "k \<le> m" and "k < 2147483648"
    and "r = memcpy (ram s) q p (of_nat k)"
  shows "inv (set_ram r s) g" "x \<notin> area q m \<Longrightarrow> r x = ram s x"
    "i < k \<Longrightarrow> q + of_nat i \<in> area q m \<and> p + of_nat i \<in> area p n \<and> r (q + of_nat i) = ram s (p + of_nat i)"
proof -
  have uk: "nat (sint (of_nat k :: u32)) = k" using assms(7) unat_of_nat32 [of k] by (simp add: sint_small)
  note bq = held_bound [OF assms(1,3)] and bp = held_bound [OF assms(1,2)]
  have ap: "apart q k p k"
    by (rule area_apart_all [OF held_apart [OF assms(1,3,2,4)] bq bp assms(6,5)])
  have r: "r x = (if unat (x - q) < k then ram s (p + (x - q)) else ram s x)" for x
    using memcpy_byte [of q "of_nat k" p "ram s" x] ap unfolding uk assms(8) by simp
  have inq: "x \<in> area q m" if "unat (x - q) < k" for x
  proof -
    have "unat (q + (x - q)) = unat q + unat (x - q)" using that bq assms(6) by (intro unat_add_small) simp
    then show ?thesis using that assms(6) by (simp add: area_def)
  qed
  show out: "r x = ram s x" if "x \<notin> area q m" for x using r inq that by metis
  have "r x = ram s x" if "\<forall>(a, z) \<in> held g. x \<notin> area a z" for x using that assms(3) by (intro out) auto
  then show "inv (set_ram r s) g" by (rule write_held [OF assms(1)])
  show "q + of_nat i \<in> area q m \<and> p + of_nat i \<in> area p n \<and> r (q + of_nat i) = ram s (p + of_nat i)" if i: "i < k"
  proof -
    have ui: "unat (of_nat i :: u32) = i" using i assms(7) by (intro unat_of_nat32) simp
    have "unat (p + of_nat i) = unat p + i" using bp i assms(5) by (intro unat_off) simp
    then have "p + of_nat i \<in> area p n" using i assms(5) by (simp add: area_def)
    then show ?thesis using r [of "q + of_nat i"] inq [of "q + of_nat i"] ui i by simp
  qed
qed

text \<open>Moving the contents of a block into a new one.\<close>

lemma move_block:
  assumes "inv s g" and "(p, n) \<in> held g" and "serves s g sz" and "k \<le> n" and "k \<le> unat sz" and "k < 2147483648"
  shows "\<exists>q m s1 g1 s2 g2. get sz s = Some (q, s1) \<and> unat sz \<le> m \<and> inv s1 g1 \<and> held g1 = insert (q, m) (held g) \<and>
    put p (set_ram (memcpy (ram s1) q p (of_nat k)) s1) = Some s2 \<and> inv s2 g2 \<and>
    held g2 = insert (q, m) (held g - {(p, n)}) \<and>
    (\<forall>i < k. ram s2 (q + of_nat i) = ram s (p + of_nat i)) \<and> keeps (held g - {(p, n)}) (ram s) (ram s2)"
proof -
  obtain q m s1 g1 where g1: "get sz s = Some (q, s1)" "unat sz \<le> m" "inv s1 g1" "(q, m) \<notin> held g"
    "held g1 = insert (q, m) (held g)" "keeps (held g) (ram s) (ram s1)"
    using get_block [OF assms(1,3)] by blast
  have hp: "(p, n) \<in> held g1" "(q, m) \<in> held g1" "(q, m) \<noteq> (p, n)" using g1(4,5) assms(2) by auto
  define r where "r = memcpy (ram s1) q p (of_nat k)"
  note cp = copy_held [OF g1(3) hp assms(4) order_trans [OF assms(5) g1(2)] assms(6) r_def]
  obtain s2 g2 where s2: "put p (set_ram r s1) = Some s2" "inv s2 g2" "held g2 = held g1 - {(p, n)}"
    "keeps (held g1 - {(p, n)}) r (ram s2)"
    using put_block [OF cp(1) hp(1)] unfolding ram_set by blast
  have hg2: "held g2 = insert (q, m) (held g - {(p, n)})" using s2(3) g1(5) hp(3) by auto
  have "ram s2 (q + of_nat i) = ram s (p + of_nat i)" if i: "i < k" for i
  proof -
    have "ram s2 (q + of_nat i) = r (q + of_nat i)" using s2(4) hp(2,3) cp(3) [OF i] unfolding keeps_def by blast
    also have "\<dots> = ram s1 (p + of_nat i)" using cp(3) [OF i] by blast
    also have "\<dots> = ram s (p + of_nat i)" using g1(6) assms(2) cp(3) [OF i] unfolding keeps_def by blast
    finally show ?thesis .
  qed
  moreover have "keeps (held g - {(p, n)}) (ram s) (ram s2)"
  proof (rule keeps_trans [OF keeps_trans])
    show "keeps (held g - {(p, n)}) (ram s) (ram s1)" by (rule keeps_mono [OF g1(6)]) blast
    show "keeps (held g - {(p, n)}) (ram s1) r"
      unfolding keeps_def
    proof (intro allI impI ballI)
      fix a z x assume az: "(a, z) \<in> held g - {(p, n)}" and x: "x \<in> area a z"
      have "area a z \<inter> area q m = {}" by (rule held_apart [OF g1(3)]) (use az g1(4,5) in auto)
      then show "r x = ram s1 x" using x by (intro cp(2)) blast
    qed
    show "keeps (held g - {(p, n)}) r (ram s2)" by (rule keeps_mono [OF s2(4)]) (use g1(5) in blast)
  qed
  ultimately show ?thesis using g1(1-3,5) s2(1,2) hg2 unfolding r_def by blast
qed

text \<open>A block got and put back leaves everything as it was for the others.\<close>

lemma get_put:
  assumes "inv s g" and "serves s g sz"
  shows "\<exists>p s1 s2 g2. get sz s = Some (p, s1) \<and> put p s1 = Some s2 \<and> inv s2 g2 \<and> held g2 = held g \<and>
    keeps (held g) (ram s) (ram s2)"
proof -
  obtain p n s1 g1 where g1: "get sz s = Some (p, s1)" "inv s1 g1" "(p, n) \<notin> held g"
    "held g1 = insert (p, n) (held g)" "keeps (held g) (ram s) (ram s1)"
    using get_block [OF assms] by blast
  obtain s2 g2 where s2: "put p s1 = Some s2" "inv s2 g2" "held g2 = held g1 - {(p, n)}"
    "keeps (held g1 - {(p, n)}) (ram s1) (ram s2)"
    using put_block [OF g1(2), of p n] g1(4) by blast
  have "held g1 - {(p, n)} = held g" using g1(3,4) by blast
  then show ?thesis using g1(1) s2 keeps_trans [OF g1(5)] by metis
qed

end

definition val_state :: "('a, 's) result \<Rightarrow> ('a \<times> 's) option" where
  "val_state r = (case r of Inl _ \<Rightarrow> None | Inr x \<Rightarrow> Some x)"

lemma val_state_simps [simp]: "val_state (Inr x) = Some x" "val_state r = Some x \<longleftrightarrow> r = Inr x"
  by (auto simp: val_state_def split: sum.splits)

lemma ok_state_simps [simp]: "ok_state (Inr ((), s)) = Some s" "ok_state r = Some s \<longleftrightarrow> r = Inr ((), s)"
  by (auto simp: ok_state_def split: sum.splits)

interpretation heap: allocator heap_ok live ready mem "\<lambda>m s. s\<lparr>mem := m\<rparr>"
  "\<lambda>sz s. val_state (klmalloc sz s)" "\<lambda>p s. ok_state (klfree p s)"
proof unfold_locales
  fix s :: "'a heap_scheme" and g p n
  assume "heap_ok s g" "(p, n) \<in> live g"
  then show "\<exists>s' g'. ok_state (klfree p s) = Some s' \<and> heap_ok s' g' \<and> live g' = live g - {(p, n)} \<and>
      keeps (live g - {(p, n)}) (mem s) (mem s')"
    using klfree_ok by fastforce
  show "unat p + n \<le> 4294967296" using live_where [OF \<open>heap_ok s g\<close> \<open>(p, n) \<in> live g\<close>] by metis
next
  fix s :: "'a heap_scheme" and g sz
  assume "heap_ok s g" "ready s g sz"
  then show "\<exists>p n s' g'. val_state (klmalloc sz s) = Some (p, s') \<and> unat sz \<le> n \<and> heap_ok s' g' \<and> (p, n) \<notin> live g \<and>
        live g' = insert (p, n) (live g) \<and> keeps (live g) (mem s) (mem s')"
    using klmalloc_ok by fastforce
next
  fix s :: "'a heap_scheme" and g m
  assume "heap_ok s g" and m: "\<And>x. \<forall>(a, n) \<in> live g. x \<notin> area a n \<Longrightarrow> m x = mem s x"
  then show "heap_ok (s\<lparr>mem := m\<rparr>) g" by (intro client_write_ok m) (auto simp: live_bytes_def)
qed (auto dest: live_disjoint)

end
