(* ===== verification/Heap_Api.thy ===== *)
theory Heap_Api
  imports Heap
begin

text \<open>
  The properties of \<open>malloc\<close>, \<open>free\<close>, \<open>realloc\<close> and \<open>calloc\<close> (\<open>core/alloc.c\<close>), from the contract of the
  locale \<open>allocator\<close>, and of any sequence of uses of the heap by its clients.
\<close>

section \<open>Reallocation\<close>

text \<open>What the header of a live block tells \<open>klrealloc\<close> about its size.\<close>

definition block_bytes :: "mem \<Rightarrow> u32 \<Rightarrow> u32" where
  "block_bytes m p =
     (let old_size = size_of m (header_of p) in
      if old_size < BIG_BIN then push_bit (unat (SMALLEST_BIN_LOG + old_size)) 1 else old_size)"

lemma class_index_le: "k \<le> class_bytes k"
  using less_exp [of "k + 2"] by (simp add: class_bytes_def)

lemma cell_header:
  assumes "heap_ok s B" and "B q = Some (Small j cs)" and "p \<in> cells q j" and "n = class_bytes j"
  shows "p \<noteq> 0" "block_bytes (mem s) p = of_nat n" "n < 2147483648" "header_of p = q" "size_of (mem s) q = of_nat j" "j < 10" "j \<le> n"
proof -
  note pg = small_page [OF assms(1,2)]
  show j: "j < 10" "size_of (mem s) q = of_nat j" using heap_bounds(6) [OF assms(1,2)] by simp_all
  show hd: "header_of p = q" by (rule page_of_cell [OF assms(3)]) (use pg in auto)
  have uj: "unat (of_nat j :: u32) = j" using j(1) by (intro unat_of_nat32) simp
  have "class_bytes j \<le> 2 ^ 11" unfolding class_bytes_def using j(1) by (intro power_increasing) simp_all
  then show "n < 2147483648" by (simp add: assms(4))
  have ju: "unat (SMALLEST_BIN_LOG + of_nat j) = 2 + j"
    unfolding SMALLEST_BIN_LOG_def using uj j(1) by (subst unat_add_small) simp_all
  have "push_bit (2 + j) (1 :: u32) = of_nat (class_bytes j)"
    by (simp add: push_bit_eq_mult class_bytes_def power_add)
  moreover have "(of_nat j :: u32) < BIG_BIN" using j(1) uj by (simp add: word_less_nat_alt BIG_BIN_def NUM_BINS_def)
  ultimately show "block_bytes (mem s) p = of_nat n"
    unfolding block_bytes_def hd j(2) Let_def ju assms(4) by simp
  show "p \<noteq> 0" using page_words(7) [OF conjunct1 [OF pg] conjunct2 [OF pg] assms(3)] by blast
  show "j \<le> n" using class_index_le [of j] assms(4) by simp
qed

lemma big_header:
  assumes "heap_ok s B" and "B q = Some (Big n False)" and "p = q + 44"
  shows "p \<noteq> 0" "block_bytes (mem s) p = of_nat n" "n < 2147483648" "header_of p = q" "unat (size_of (mem s) q) = n" "2048 < n"
proof -
  note hb = heap_bounds [OF assms(1,2)] and al = big_alone [OF assms(1,2)]
  show hd: "header_of p = q" unfolding assms(3) by (rule page_of_big [OF hb(2) al(5)])
  show sz: "unat (size_of (mem s) q) = n" "2048 < n" "n < 2147483648" using hb(6) by (simp_all add: bytes_def)
  then have "\<not> size_of (mem s) q < BIG_BIN" by (simp add: word_less_nat_alt BIG_BIN_def NUM_BINS_def)
  then show "block_bytes (mem s) p = of_nat n" unfolding block_bytes_def hd Let_def using sz(1) by auto
  have "unat p = unat q + 44" unfolding assms(3) using unat_off [of q 44] al(2) by simp
  then show "p \<noteq> 0" by auto
qed

lemma live_header:
  assumes "heap_ok s B" and "(p, n) \<in> live B"
  shows "p \<noteq> 0" "block_bytes (mem s) p = of_nat n" "n < 2147483648"
    "unat (size_of (mem s) (header_of p)) \<le> n" "size_of (mem s) (header_of p) = of_nat k \<Longrightarrow> k < 10 \<Longrightarrow> n = class_bytes k"
proof -
  have u: "unat (of_nat i :: u32) = i" if "i < 10" for i using that by (intro unat_of_nat32) simp
  consider (small) q j cs where "B q = Some (Small j cs)" "p \<in> cells q j" "n = class_bytes j"
    | (big) q where "B q = Some (Big n False)" "p = q + 44"
    using assms(2) unfolding live_def by blast
  then have "p \<noteq> 0 \<and> block_bytes (mem s) p = of_nat n \<and> n < 2147483648 \<and> unat (size_of (mem s) (header_of p)) \<le> n \<and>
      (size_of (mem s) (header_of p) = of_nat k \<longrightarrow> k < 10 \<longrightarrow> n = class_bytes k)"
  proof cases
    case small
    note h = cell_header [OF assms(1) small]
    have "n = class_bytes k" if "(of_nat j :: u32) = of_nat k" "k < 10" using u [OF h(6)] u [OF that(2)] that(1) small(3) by metis
    then show ?thesis unfolding h(4,5) u [OF h(6)] using h(1-3,7) by blast
  next
    case big
    note h = big_header [OF assms(1) big]
    have "\<not> (size_of (mem s) q = of_nat k \<and> k < 10)"
    proof
      assume "size_of (mem s) q = of_nat k \<and> k < 10"
      then have "unat (size_of (mem s) q) = k" "k < 10" using u by metis+
      then show False using h(5,6) by linarith
    qed
    then show ?thesis unfolding h(4) using h(1-3,5) by blast
  qed
  then show "p \<noteq> 0" "block_bytes (mem s) p = of_nat n" "n < 2147483648"
    "unat (size_of (mem s) (header_of p)) \<le> n" "size_of (mem s) (header_of p) = of_nat k \<Longrightarrow> k < 10 \<Longrightarrow> n = class_bytes k"
    by blast+
qed

lemma live_class_header:
  assumes "heap_ok s B" and "(p, class_bytes k) \<in> live B" and "k < 10"
  shows "size_of (mem s) (header_of p) = of_nat k"
proof -
  have cb: "class_bytes k \<le> 2 ^ 11" unfolding class_bytes_def using assms(3) by (intro power_increasing) simp_all
  consider (small) q j cs where "B q = Some (Small j cs)" "p \<in> cells q j" "class_bytes k = class_bytes j"
    | (big) q where "B q = Some (Big (class_bytes k) False)" "p = q + 44"
    using assms(2) unfolding live_def by blast
  then show ?thesis
  proof cases
    case small
    note pg = small_page [OF assms(1) small(1)]
    have "header_of p = q" by (rule page_of_cell [OF small(2)]) (use pg in auto)
    moreover have "j = k" using small(3) by (simp add: class_bytes_def)
    ultimately show ?thesis using heap_bounds(6) [OF assms(1) small(1)] by simp
  next
    case big
    then show ?thesis using heap_bounds(6) [OF assms(1) big(1)] cb by simp
  qed
qed

text \<open>When the size field of the header is below the request, a new block is got, as many bytes copied as the
  old block has, and the old block freed.\<close>

lemma klrealloc_moves:
  assumes "heap_ok s B" and "(p, n) \<in> live B" and "unat (size_of (mem s) (header_of p)) < unat sz"
    and "unat sz < 2147483648" and "klmalloc sz s = Inr (q, s1)" and "heap_ok s1 B1" and "(p, n) \<in> live B1" and "(q, m) \<in> live B1"
  shows "klrealloc p sz s =
    res_bind (klfree p (s1\<lparr>mem := memcpy (mem s1) q p (of_nat n)\<rparr>)) (\<lambda>(_, s3). Inr (q, s3))"
proof -
  have "sz \<noteq> 0" using assms(3) by auto
  moreover have "p \<noteq> 0" "q \<noteq> 0" using live_header(1) [OF assms(1,2)] live_header(1) [OF assms(6,8)] .
  moreover have "\<not> sz <=s size_of (mem s) (header_of p)"
    using sle_small [OF assms(4)] assms(3,4) by (simp add: not_le)
  moreover have "block_bytes (mem s1) p = of_nat n" by (rule live_header(2) [OF assms(6,7)])
  ultimately show ?thesis
    using assms(5) by (simp add: klrealloc_def Let_def block_bytes_def)
qed

lemma klmalloc_class:
  assumes "heap_ok s B" and "ready s B sz" and "unat sz \<le> class_bytes b" and "b < 10"
  shows "\<exists>q m s1 B1. klmalloc sz s = Inr (q, s1) \<and> heap_ok s1 B1 \<and> live B1 = insert (q, m) (live B) \<and> m \<le> class_bytes b"
proof -
  have sz: "sz \<noteq> 0" using assms(2) by (simp add: ready_def)
  obtain e where e: "klmalloc_bin_size sz = of_nat (min 10 (e - 2))" "\<And>k. unat sz \<le> class_bytes k \<longleftrightarrow> e \<le> k + 2"
    using bin_size_log [OF sz] by blast
  define k where "k = e - 2"
  have k: "k \<le> b" "k < 10" "klmalloc_bin_size sz = of_nat k" using e assms(3,4) by (auto simp: k_def min_def)
  have mono: "class_bytes k \<le> class_bytes b" unfolding class_bytes_def using k(1) by (intro power_increasing) simp_all
  have "class_bytes b \<le> 2 ^ 11" unfolding class_bytes_def using assms(4) by (intro power_increasing) simp_all
  then have small: "unat sz \<le> 2048" using assms(3) by simp
  have uk: "unat (of_nat j :: u32) = j" if "j < 10" for j using that by (intro unat_of_nat32) simp
  have "can_grow s B 1" if z: "bin_head s ! k = 0"
  proof -
    have "\<not> has_fit B sz"
    proof
      assume "has_fit B sz"
      then obtain p j c cs where p: "B p = Some (Small j (c # cs))" "klmalloc_bin_size sz = of_nat j"
        using small unfolding has_fit_def by auto
      have "j < 10" using heap_bounds(6) [OF assms(1) p(1)] by simp
      then have "j = k" using p(2) k(2,3) uk by metis
      then show False using bin_in_list [OF assms(1) p(1)] z by simp
    qed
    moreover have "pages_for sz = 1" using small by (simp add: pages_for_def)
    ultimately show ?thesis using assms(2) by (simp add: ready_def)
  qed
  from klmalloc_small_ok [OF assms(1) sz small k(2,3) this] mono show ?thesis by blast
qed

section \<open>Examples\<close>

lemma heap0_ok: "heap_ok heap0 Map.empty"
proof -
  have "linked_list (mem heap0) (bin_head heap0 ! k) []" if "k < 10" for k using that by simp
  then have "bins_ok heap0 Map.empty" unfolding bins_ok_def by (auto intro!: exI [of _ "[]"])
  moreover have "blocks_ok heap0 Map.empty" by (simp add: blocks_ok_def aligned4_def)
  moreover have "bigs_ok heap0 Map.empty" using heap0_empty by (auto simp: bigs_ok_def)
  ultimately show ?thesis by (simp add: heap_ok_def)
qed

lemma extend_view:
  "unmapped_range (mm.extend s x) a n = unmapped_range s a n" "range_entries (mm.extend s x) a n = range_entries s a n"
  "in_bitmap (mm.extend s x) w = in_bitmap s w" "used (mm.extend s x) = used s" "capacity (mm.extend s x) = capacity s"
  by (simp_all add: unmapped_range_def range_entries_def in_bitmap_def used_def capacity_def frames_ok_def
      range_slots_def fresh_page_def mm.defs)


text \<open>Three pages of cells: one of class 9 in use, one of class 2 and one of class 9 with a free cell each.\<close>

definition heap2 :: heap where
  "heap2 = put_word 0x12004 0x1200C (put_word 0x12008 9 (put_word 0x11004 0x1100C (put_word 0x11008 2 (put_word 0x10008 9
     (heap0\<lparr>heap_end := 0x20000, bin_head := [0, 0, 0x11000, 0, 0, 0, 0, 0, 0, 0x12000]\<rparr>)))))"

definition blocks2 :: "u32 \<rightharpoonup> blk" where
  "blocks2 = [0x10000 \<mapsto> Small 9 [], 0x11000 \<mapsto> Small 2 [0x1100C], 0x12000 \<mapsto> Small 9 [0x1200C]]"

lemma heap2_fields: "big_head heap2 = 0x100000" "heap_end heap2 = 0x20000" "newest_big heap2 = 0" "big_level heap2 = 0"
  "bin_head heap2 = [0, 0, 0x11000, 0, 0, 0, 0, 0, 0, 0x12000]"
  by (simp_all add: heap2_def put_word_def)

lemma heap2_load:
  "aligned4 a \<Longrightarrow> load32 (mem heap2) a =
    (if a = 0x12004 then 0x1200C else if a = 0x12008 then 9 else if a = 0x11004 then 0x1100C
     else if a = 0x11008 then 2 else if a = 0x10008 then 9 else load32 (mem pg0) a)"
  by (simp add: heap2_def put_word_def load32_store32_aligned aligned4_def)

lemma heap2_blocks:
  assumes "blocks2 p = Some b"
  shows "(p = 0x10000 \<and> b = Small 9 []) \<or> (p = 0x11000 \<and> b = Small 2 [0x1100C]) \<or> (p = 0x12000 \<and> b = Small 9 [0x1200C])"
  using assms by (simp add: blocks2_def split: if_splits)

lemma heap2_block_ok:
  assumes "blocks2 p = Some b"
  shows "block_ok heap2 p b"
proof -
  have c: "cell_at p k 0 = p + 12" "0 < ncells 9" "0 < ncells 2" for p k by (simp_all add: cell_at_def ncells_def class_bytes_def)
  have "0x1100C \<in> cells 0x11000 2" "0x1200C \<in> cells 0x12000 9"
    unfolding cells_def using c(1) [of "0x11000" 2] c(1) [of "0x12000" 9] c(2,3) by (auto intro!: image_eqI [of _ _ 0])
  then show ?thesis
    using heap2_blocks [OF assms] by (auto simp: fields fld_def heap2_load aligned4_def pg0_load)
qed


lemma heap2_ok: "heap_ok heap2 blocks2"
proof -
  have blk: "p \<noteq> 0 \<and> unat p mod 4096 = 0 \<and> unat p + extent b \<le> unat (heap_end heap2) \<and>
      area p (extent b) \<inter> area (big_head heap2) 44 = {} \<and> block_ok heap2 p b" if "blocks2 p = Some b" for p b
    using heap2_blocks [OF that] heap2_block_ok [OF that] by (auto simp: heap2_fields area_def)
  have "area p (extent b) \<inter> area q (extent c) = {}" if "blocks2 p = Some b" "blocks2 q = Some c" "p \<noteq> q" for p q b c
    using heap2_blocks [OF that(1)] heap2_blocks [OF that(2)] that(3) by (auto simp: area_def)
  then have "blocks_ok heap2 blocks2" using blk by (simp add: blocks_ok_def heap2_fields aligned4_def)
  moreover have "bins_ok heap2 blocks2"
    unfolding bins_ok_def
  proof (intro conjI allI impI)
    show "length (bin_head heap2) = 10" by (simp add: heap2_fields)
    fix k :: nat assume k: "k < 10"
    let ?ps = "if k = 2 then [0x11000] else if k = 9 then [0x12000 :: u32] else []"
    have "k \<in> {0, 1, 2, 3, 4, 5, 6, 7, 8, 9}" using k by auto
    then have "linked_list (mem heap2) (bin_head heap2 ! k) ?ps"
      by (auto simp: heap2_fields heap2_load aligned4_def pg0_load)
    moreover have "{p. \<exists>c cs. blocks2 p = Some (Small k (c # cs))} = set ?ps"
      using heap2_blocks by (auto simp: blocks2_def split: if_splits)
    ultimately show "\<exists>ps. linked_list (mem heap2) (bin_head heap2 ! k) ps \<and> distinct ps \<and>
        set ps = {p. \<exists>c cs. blocks2 p = Some (Small k (c # cs))}" by (intro exI [of _ ?ps]) auto
  qed
  moreover have "bigs_ok heap2 blocks2"
  proof -
    have ne: "{p. \<exists>n. blocks2 p = Some (Big n True)} = {}" using heap2_blocks by blast
    obtain lev where lev: "skip_ok heap0 [] lev" using heap0_empty by (auto simp: free_list_def)
    have al: "aligned4 (fld 0x100000 (4 + i))" for i :: nat by (rule aligned4_fld) (simp add: aligned4_def)
    have "forward_of (mem heap2) 0x100000 i = forward_of (mem heap0) 0x100000 i" if "i \<le> SKIP_MAX_LEVEL" for i
    proof -
      have "unat (fld 0x100000 (4 + i) :: u32) = 0x100000 + 4 * (4 + i)"
        using that by (subst unat_fld) (simp_all add: SKIP_MAX_LEVEL_def)
      then have "fld 0x100000 (4 + i) \<notin> {0x12004, 0x12008, 0x11004, 0x11008, 0x10008 :: u32}" by auto
      then show ?thesis using heap2_load [OF al, of i] by (simp add: fields)
    qed
    then have "skip_ok heap2 [] lev" using lev by (simp add: skip_ok_def heap2_fields at_level_def)
    then show ?thesis unfolding bigs_ok_def ne by (auto simp: free_list_def heap2_fields)
  qed
  ultimately show ?thesis by (simp add: heap_ok_def)
qed

lemma heap2_live: "(0x1000C, 2048) \<in> live blocks2" "(0x1101C, 16) \<in> live blocks2"
proof -
  have "cell_at 0x10000 9 0 \<in> cells 0x10000 9 - set []" "cell_at 0x11000 2 1 \<in> cells 0x11000 2 - set [0x1100C]"
    by (auto simp: cells_def ncells_def class_bytes_def) (simp add: cell_at_def push_bit_eq_mult)
  moreover have "cell_at 0x10000 9 0 = 0x1000C" "cell_at 0x11000 2 1 = 0x1101C" by (simp_all add: cell_at_def push_bit_eq_mult)
  moreover have "blocks2 0x10000 = Some (Small 9 [])" "blocks2 0x11000 = Some (Small 2 [0x1100C])" by (simp_all add: blocks2_def)
  moreover have "class_bytes 9 = 2048" "class_bytes 2 = 16" by (simp_all add: class_bytes_def)
  ultimately show "(0x1000C, 2048) \<in> live blocks2" "(0x1101C, 16) \<in> live blocks2" unfolding live_def by force+
qed

lemma has_fit_small:
  "B p = Some (Small k (c # cs)) \<Longrightarrow> klmalloc_bin_size sz = of_nat k \<Longrightarrow> unat sz \<le> 2048 \<Longrightarrow> has_fit B sz"
  by (auto simp: has_fit_def)

lemma heap2_ready: "ready heap2 blocks2 2000" "ready heap2 blocks2 10"
proof -
  have bins: "klmalloc_bin_size 2000 = 9" "klmalloc_bin_size 10 = 2" by code_simp+
  have b: "blocks2 0x12000 = Some (Small 9 [0x1200C])" "blocks2 0x11000 = Some (Small 2 [0x1100C])"
    by (simp_all add: blocks2_def)
  have "has_fit blocks2 2000" "has_fit blocks2 10"
    by (rule has_fit_small [where B = blocks2, OF b(1)]; simp add: bins)
      (rule has_fit_small [where B = blocks2, OF b(2)]; simp add: bins)
  then show "ready heap2 blocks2 2000" "ready heap2 blocks2 10" by (simp_all add: ready_def)
qed

lemma heap0_ready: "ready heap0 Map.empty 5000"
proof -
  have e: "range_entries heap0 0x5000 2 = [0x400014, 0x400018]"
  proof -
    have "[0..<2] = [0, 1 :: nat]" by (simp add: numeral_2_eq_2)
    moreover have "drop_bit 12 (0x5000 :: u32) = 5" "drop_bit 12 (0x6000 :: u32) = 6"
      by (simp_all add: word_unat_eq_iff unat_drop_bit_word)
    ultimately show ?thesis
      using pg0_table(3) [of "0x5000"] pg0_table(3) [of "0x6000"] unfolding heap0_def extend_view
      by (simp add: range_entries_def pg0_fields)
  qed
  have "table_words heap0 2 \<subseteq> {0x400014, 0x400018, 0x200000, 0x200004}"
    using e by (auto simp: table_words_def pg0_fields) (auto simp: heap0_def extend_view pg0_bitmap)
  moreover have "{0x400014, 0x400018, 0x200000, 0x200004} \<inter> area 0x100000 44 = {}" by (auto simp: area_def)
  ultimately have tw: "table_words heap0 2 \<inter> area (big_head heap0) 44 = {}" by auto
  have "unmapped_range heap0 0x5000 2" "card (used heap0) = 0" "capacity heap0 = 64"
    using pg0_range by (simp_all add: heap0_def extend_view pg0_pool pg0_fields)
  moreover have "area 0x5000 (4096 * 2) \<inter> area 0x100000 44 = {}" by (auto simp: area_def)
  ultimately have "can_grow heap0 Map.empty 2" using tw by (simp add: can_grow_def pg0_fields)
  moreover have "pages_for 5000 = 2" by (simp add: pages_for_def)
  ultimately show ?thesis by (simp add: ready_def)
qed


section \<open>Sessions\<close>

text \<open>
  What clients may do with the heap, \<open>L\<close> being the blocks they hold: ask for a block when the request can
  be served, its size being the one the header records; return a block they hold; write into their blocks.
\<close>

definition serveable :: "'a heap_scheme \<Rightarrow> (u32 \<times> nat) set \<Rightarrow> u32 \<Rightarrow> bool" where
  "serveable s L sz \<longleftrightarrow> (\<exists>B. heap_ok s B \<and> live B = L \<and> ready s B sz)"

inductive client_step :: "'a heap_scheme \<times> (u32 \<times> nat) set \<Rightarrow> 'a heap_scheme \<times> (u32 \<times> nat) set \<Rightarrow> bool" where
  take_block: "client_step (s, L) (s', insert (p, unat (block_bytes (mem s') p)) L)"
    if "serveable s L sz" and "malloc sz s = Inr (p, s')"
| return_block: "client_step (s, L) (s', L - {(p, n)})"
    if "(p, n) \<in> L" and "free p s = Inr ((), s')"
| write_block: "client_step (s, L) (s\<lparr>mem := m\<rparr>, L)"
    if "\<And>x. \<forall>(a, n) \<in> L. x \<notin> area a n \<Longrightarrow> m x = mem s x"

inductive_cases client_stepE: "client_step (s, L) (s', L')"

definition sound :: "'a heap_scheme \<times> (u32 \<times> nat) set \<Rightarrow> bool" where
  "sound = (\<lambda>(s, L). \<exists>B. heap_ok s B \<and> live B = L)"

lemma client_step_sound:
  assumes "client_step x y" and "sound x"
  shows "sound y"
  using assms
proof (induction rule: client_step.induct)
  case (take_block s L sz p s')
  then obtain B where B: "heap_ok s B" "live B = L" "ready s B sz" by (auto simp: serveable_def)
  obtain n B' where B': "heap_ok s' B'" "live B' = insert (p, n) (live B)"
    using klmalloc_ok [OF B(1,3)] take_block(2) by (auto simp: malloc_def)
  then have "(p, n) \<in> live B'" by simp
  from live_header(2,3) [OF B'(1) this] have "unat (block_bytes (mem s') p) = n" using unat_of_nat32 [of n] by simp
  then show ?case using B B' by (auto simp: sound_def)
next
  case (return_block p n L s s')
  then obtain B where B: "heap_ok s B" "live B = L" by (auto simp: sound_def)
  then show ?case using klfree_ok [OF B(1), of p n] return_block(1,2) by (auto simp: sound_def free_def)
next
  case (write_block L m s)
  then obtain B where B: "heap_ok s B" "live B = L" by (auto simp: sound_def)
  have "heap_ok (s\<lparr>mem := m\<rparr>) B" using B write_block(1) by (intro client_write_ok) (auto simp: live_bytes_def)
  then show ?case using B(2) by (auto simp: sound_def)
qed

lemma session_sound: "client_step\<^sup>*\<^sup>* x y \<Longrightarrow> sound x \<Longrightarrow> sound y"
  by (induction rule: rtranclp_induct) (auto intro: client_step_sound)

section \<open>Properties\<close>

text \<open>C5. A request that can be served gets a block of at least its size, disjoint from every block in use;
  the heap stays well formed, and no byte of a block in use changes.\<close>

theorem malloc_serves:
  assumes "heap_ok s B" and "ready s B sz"
  shows "\<exists>p n s' B'. malloc sz s = Inr (p, s') \<and> p \<noteq> 0 \<and> unat sz \<le> n \<and> heap_ok s' B' \<and>
    live B' = insert (p, n) (live B) \<and> (p, n) \<notin> live B \<and> (\<forall>(a, m) \<in> live B. area p n \<inter> area a m = {}) \<and>
    keeps (live B) (mem s) (mem s')"
proof -
  obtain p n s' B' where r: "klmalloc sz s = Inr (p, s')" "unat sz \<le> n" "heap_ok s' B'" "(p, n) \<notin> live B"
    "live B' = insert (p, n) (live B)" "keeps (live B) (mem s) (mem s')"
    using klmalloc_ok [OF assms] by blast
  have in': "(p, n) \<in> live B'" using r(5) by simp
  have "area p n \<inter> area a m = {}" if "(a, m) \<in> live B" for a m
    by (rule heap.held_apart [OF r(3) in']) (use that r(4,5) in auto)
  then have "\<forall>(a, m) \<in> live B. area p n \<inter> area a m = {}" by blast
  with r live_header(1) [OF r(3) in'] show ?thesis unfolding malloc_def by blast
qed

theorem malloc_serves_witness:
  "\<exists>p n s' B'. malloc 5000 heap0 = Inr (p, s') \<and> 5000 \<le> n \<and> heap_ok s' B' \<and> live B' = {(p, n)}"
  using malloc_serves [OF heap0_ok heap0_ready] by (auto simp: live_def)

text \<open>C6. Freeing a block in use takes exactly that one out of use; the heap stays well formed, and no byte of
  another block in use changes.\<close>

theorem free_returns:
  assumes "heap_ok s B" and "(p, n) \<in> live B"
  shows "\<exists>s' B'. free p s = Inr ((), s') \<and> heap_ok s' B' \<and> live B' = live B - {(p, n)} \<and>
    keeps (live B - {(p, n)}) (mem s) (mem s')"
  unfolding free_def using klfree_ok [OF assms] by blast

theorem free_returns_witness:
  "\<exists>s' B'. free 0x1000C heap2 = Inr ((), s') \<and> heap_ok s' B' \<and> live B' = live blocks2 - {(0x1000C, 2048)}"
  using free_returns [OF heap2_ok heap2_live(1)] by blast

text \<open>C2. Whatever clients do - requests that can be served, frees of blocks they hold, writes into them, in
  any order - the blocks they hold are pairwise disjoint, lie in the address space and are not the NULL
  pointer, and each of them can be freed.\<close>

theorem sessions_sound:
  assumes "heap_ok s B" and "client_step\<^sup>*\<^sup>* (s, live B) (t, L)"
  shows "(\<forall>(a, n) \<in> L. a \<noteq> 0 \<and> unat a + n \<le> 4294967296 \<and> (\<exists>t'. free a t = Inr ((), t'))) \<and>
    (\<forall>(a, n) \<in> L. \<forall>(b, m) \<in> L. (a, n) \<noteq> (b, m) \<longrightarrow> area a n \<inter> area b m = {})"
proof -
  have "sound (s, live B)" using assms(1) by (auto simp: sound_def)
  then have "sound (t, L)" by (rule session_sound [OF assms(2)])
  then obtain C where C: "heap_ok t C" "live C = L" by (auto simp: sound_def)
  show ?thesis
    using heap.held_apart [OF C(1)] heap.held_bound [OF C(1)] live_header(1) [OF C(1)] klfree_ok [OF C(1)]
    unfolding C(2) free_def by blast
qed


theorem sessions_sound_witness:
  "\<exists>t p n. client_step\<^sup>*\<^sup>* (heap0, {}) (t, {(p, n)}) \<and> p \<noteq> 0 \<and> (\<exists>t'. free p t = Inr ((), t'))"
proof -
  have e: "live Map.empty = {}" by (auto simp: live_def)
  obtain p s' where m: "malloc 5000 heap0 = Inr (p, s')"
    using klmalloc_ok [OF heap0_ok heap0_ready] by (auto simp: malloc_def)
  have "serveable heap0 {} 5000" using heap0_ok heap0_ready e by (auto simp: serveable_def)
  then have "client_step (heap0, {}) (s', {(p, unat (block_bytes (mem s') p))})" by (rule client_step.take_block [OF _ m])
  then have r: "client_step\<^sup>*\<^sup>* (heap0, live Map.empty) (s', {(p, unat (block_bytes (mem s') p))})"
    unfolding e by (rule r_into_rtranclp)
  from sessions_sound [OF heap0_ok this] have "p \<noteq> 0 \<and> (\<exists>t'. free p s' = Inr ((), t'))" by blast
  with r [unfolded e] show ?thesis by blast
qed

text \<open>A block got and at once freed leaves the heap as it was for its clients: the same blocks are in use,
  with the same contents.\<close>

theorem malloc_free_neutral:
  assumes "heap_ok s B" and "ready s B sz"
  shows "\<exists>p s1 s2 B2. malloc sz s = Inr (p, s1) \<and> free p s1 = Inr ((), s2) \<and> heap_ok s2 B2 \<and> live B2 = live B \<and>
    keeps (live B) (mem s) (mem s2)"
  using heap.get_put [OF assms] by (simp add: malloc_def free_def)

theorem malloc_free_neutral_witness:
  "\<exists>p s1 s2 B2. malloc 2000 heap2 = Inr (p, s1) \<and> free p s1 = Inr ((), s2) \<and> heap_ok s2 B2 \<and> live B2 = live blocks2"
  using malloc_free_neutral [OF heap2_ok heap2_ready(1)] by blast

text \<open>C17. Reallocating a block for more bytes than it has moves its contents, all of them, into a new block of
  at least that size; the old one is no longer in use, and all others keep their contents.\<close>

theorem realloc_moves:
  assumes "heap_ok s B" and "(p, n) \<in> live B" and "n < unat sz" and "ready s B sz"
  shows "\<exists>q m s' B'. realloc p sz s = Inr (q, s') \<and> unat sz \<le> m \<and> heap_ok s' B' \<and>
    live B' = insert (q, m) (live B - {(p, n)}) \<and> (\<forall>i < n. mem s' (q + of_nat i) = mem s (p + of_nat i)) \<and>
    keeps (live B - {(p, n)}) (mem s) (mem s')"
proof -
  note h = live_header [OF assms(1,2)]
  have "n \<le> unat sz" using assms(3) by simp
  from heap.move_block [OF assms(1,2,4) order_refl this h(3)] obtain q m s1 B1 s2 B2 where
    mv: "klmalloc sz s = Inr (q, s1)" "unat sz \<le> m" "heap_ok s1 B1" "live B1 = insert (q, m) (live B)"
      "klfree p (s1\<lparr>mem := memcpy (mem s1) q p (of_nat n)\<rparr>) = Inr ((), s2)" "heap_ok s2 B2"
      "live B2 = insert (q, m) (live B - {(p, n)})" "\<forall>i < n. mem s2 (q + of_nat i) = mem s (p + of_nat i)"
      "keeps (live B - {(p, n)}) (mem s) (mem s2)"
    by (simp only: val_state_simps ok_state_simps) blast
  have "unat (size_of (mem s) (header_of p)) < unat sz" using h(4) assms(3) by simp
  moreover have "unat sz < 2147483648" using assms(4) by (simp add: ready_def)
  moreover have "(p, n) \<in> live B1" "(q, m) \<in> live B1" using mv(4) assms(2) by auto
  ultimately have "klrealloc p sz s =
      res_bind (klfree p (s1\<lparr>mem := memcpy (mem s1) q p (of_nat n)\<rparr>)) (\<lambda>(_, s3). Inr (q, s3))"
    by (intro klrealloc_moves [OF assms(1,2) _ _ mv(1,3)])
  then have "realloc p sz s = Inr (q, s2)" using mv(5) by (simp add: realloc_def)
  with mv show ?thesis by blast
qed

theorem realloc_moves_witness:
  "\<exists>q m s' B'. realloc 0x1101C 2000 heap2 = Inr (q, s') \<and> 2000 \<le> m \<and> heap_ok s' B' \<and> (q, m) \<in> live B'"
proof -
  have "16 < unat (2000 :: u32)" by simp
  from realloc_moves [OF heap2_ok heap2_live(2) this heap2_ready(1)] obtain q m s' B' where
    "realloc 0x1101C 2000 heap2 = Inr (q, s')" "unat (2000 :: u32) \<le> m" "heap_ok s' B'"
    "live B' = insert (q, m) (live blocks2 - {(0x1101C, 16)})"
    by blast
  moreover from this have "2000 \<le> m" "(q, m) \<in> live B'" by simp_all
  ultimately show ?thesis by blast
qed

text \<open>\<open>klfree\<close> takes a header whose number is 10 or 11 for one of a small page, but the array of the small classes has 10
  elements. No block the heap handed out has such a header; where a client has written one, \<open>klfree\<close> leaves the array.\<close>

lemma header_of_page: "header_of p mod PAGE_SIZE = 0"
proof (rule page_mod)
  have "unat (header_of p) = 4096 * (unat p div 4096)"
    using unat_and_not_mask [of 12 p] by (simp add: header_of_def PAGE_MASK_def PAGE_SIZE_def mask_eq_exp_minus_1)
  then show "unat (header_of p) mod 4096 = 0" by simp
qed

lemma klfree_class_bound:
  assumes "p \<noteq> 0" and "BIG_BIN \<le> size_of (mem s) (header_of p)" and "size_of (mem s) (header_of p) \<le> NUM_BINS"
    and "klmalloc_stack_empty (header_of p) s" and "length (bin_head s) = 10"
  shows "klfree p s = Inl Buffer_overflow"
proof -
  have "\<not> unat (size_of (mem s) (header_of p)) < 10" using assms(2) by (simp add: word_le_nat_alt BIG_BIN_def NUM_BINS_def)
  moreover have "\<not> NUM_BINS < size_of (mem s) (header_of p)" using assms(3) by (rule leD)
  ultimately show ?thesis using assms by (simp add: klfree_def Let_def header_of_page klmalloc_list_insert_def)
qed

text \<open>C30. Reallocating a small block to a smaller class copies as many bytes as the old block has into a new
  block that has fewer: the class index in the header, not the size of the block, is compared with the request.\<close>

theorem realloc_shrink_overflows:
  assumes "heap_ok s B" and "(p, class_bytes k) \<in> live B" and "b < k" and "k < 10" and "unat sz \<le> class_bytes b"
    and "k < unat sz" and "ready s B sz"
  shows "\<exists>q m s1 B1. klmalloc sz s = Inr (q, s1) \<and> heap_ok s1 B1 \<and> (q, m) \<in> live B1 \<and> m < class_bytes k \<and>
    realloc p sz s = res_bind (klfree p (s1\<lparr>mem := memcpy (mem s1) q p (of_nat (class_bytes k))\<rparr>))
      (\<lambda>(_, s3). Inr (q, s3))"
proof -
  have "b < 10" using assms(3,4) by simp
  from klmalloc_class [OF assms(1,7,5) this] obtain q m s1 B1 where
    r: "klmalloc sz s = Inr (q, s1)" "heap_ok s1 B1" "live B1 = insert (q, m) (live B)" "m \<le> class_bytes b" by blast
  have "class_bytes b < class_bytes k" unfolding class_bytes_def using assms(3) by (intro power_strict_increasing) simp_all
  then have m: "m < class_bytes k" using r(4) by simp
  have "size_of (mem s) (header_of p) = of_nat k" by (rule live_class_header [OF assms(1,2,4)])
  then have "unat (size_of (mem s) (header_of p)) < unat sz" using assms(4,6) unat_of_nat32 [of k] by simp
  moreover have "unat sz < 2147483648" using assms(7) by (simp add: ready_def)
  moreover have l: "(p, class_bytes k) \<in> live B1" "(q, m) \<in> live B1" using r(3) assms(2) by auto
  ultimately have "realloc p sz s = res_bind (klfree p (s1\<lparr>mem := memcpy (mem s1) q p (of_nat (class_bytes k))\<rparr>))
      (\<lambda>(_, s3). Inr (q, s3))"
    unfolding realloc_def by (intro klrealloc_moves [OF assms(1,2) _ _ r(1,2)])
  with r(1,2) l(2) m show ?thesis by blast
qed

theorem realloc_shrink_overflows_witness:
  "\<exists>q m s1 B1. klmalloc 10 heap2 = Inr (q, s1) \<and> heap_ok s1 B1 \<and> (q, m) \<in> live B1 \<and> m < 2048 \<and>
    realloc 0x1000C 10 heap2 = res_bind (klfree 0x1000C (s1\<lparr>mem := memcpy (mem s1) q 0x1000C 2048\<rparr>)) (\<lambda>(_, s3). Inr (q, s3))"
proof -
  have c: "class_bytes 9 = 2048" by (simp add: class_bytes_def)
  have "(0x1000C, class_bytes 9) \<in> live blocks2" "(2 :: nat) < 9" "(9 :: nat) < 10" "unat (10 :: u32) \<le> class_bytes 2"
    "9 < unat (10 :: u32)"
    using heap2_live(1) c by (simp_all add: class_bytes_def)
  from realloc_shrink_overflows [OF heap2_ok this heap2_ready(2)] show ?thesis by (simp only: c of_nat_numeral)
qed

text \<open>C18. \<open>calloc\<close> gets a block like \<open>malloc\<close> for the product of its arguments and zeroes that many bytes. The
  product \<open>k * sz\<close> is the one the code computes, in 32 bits: when it wraps around, the block and what is
  zeroed are smaller than \<open>k\<close> elements of size \<open>sz\<close>.\<close>

theorem calloc_zeroes:
  assumes "heap_ok s B" and "ready s B (k * sz)"
  shows "\<exists>p n s' B'. calloc k sz s = Inr (p, s') \<and> unat (k * sz) \<le> n \<and> heap_ok s' B' \<and> (p, n) \<notin> live B \<and>
    live B' = insert (p, n) (live B) \<and> keeps (live B) (mem s) (mem s') \<and>
    (\<forall>i < unat (k * sz). mem s' (p + of_nat i) = 0)"
proof -
  obtain p n s1 B' where r: "klmalloc (k * sz) s = Inr (p, s1)" "unat (k * sz) \<le> n" "heap_ok s1 B'" "(p, n) \<notin> live B"
    "live B' = insert (p, n) (live B)" "keeps (live B) (mem s) (mem s1)"
    using klmalloc_ok [OF assms] by blast
  let ?m = "memset (mem s1) p 0 (k * sz)"
  have in': "(p, n) \<in> live B'" using r(5) by simp
  have "unat (k * sz) < 2147483648" using assms(2) by (simp add: ready_def)
  then have m: "?m x = (if unat (x - p) < unat (k * sz) then 0 else mem s1 x)" for x
    by (simp add: memset_byte sint_small)
  have out: "?m x = mem s1 x" if "x \<notin> area p n" for x
  proof -
    have "\<not> unat (x - p) < unat (k * sz)"
    proof
      assume l: "unat (x - p) < unat (k * sz)"
      then have "unat (p + (x - p)) = unat p + unat (x - p)"
        using heap.held_bound [OF r(3) in'] r(2) by (intro unat_add_small) simp
      then show False using that l r(2) by (simp add: area_def)
    qed
    then show ?thesis by (simp add: m)
  qed
  have "heap_ok (s1\<lparr>mem := ?m\<rparr>) B'"
    by (rule client_write_ok [OF r(3)]) (use in' out in \<open>auto simp: live_bytes_iff\<close>)
  moreover have "keeps (live B) (mem s1) ?m"
    unfolding keeps_def
  proof (intro allI impI ballI)
    fix a z x assume az: "(a, z) \<in> live B" and x: "x \<in> area a z"
    have "area a z \<inter> area p n = {}" by (rule heap.held_apart [OF r(3)]) (use az r(4,5) in auto)
    then show "?m x = mem s1 x" using x by (intro out) blast
  qed
  moreover have "?m (p + of_nat i) = 0" if "i < unat (k * sz)" for i
    using that \<open>unat (k * sz) < 2147483648\<close> unat_of_nat32 [of i] by (simp add: m)
  moreover have "calloc k sz s = Inr (p, s1\<lparr>mem := ?m\<rparr>)"
    using r(1) live_header(1) [OF r(3) in'] by (simp add: calloc_def klcalloc_def)
  ultimately show ?thesis using r(2-5) keeps_trans [OF r(6)]
    by (intro exI [of _ p] exI [of _ n] exI [of _ "s1\<lparr>mem := ?m\<rparr>"] exI [of _ B']) simp
qed

theorem calloc_zeroes_witness:
  "\<exists>p s'. calloc 5 400 heap2 = Inr (p, s') \<and> mem s' (p + 1999) = 0"
proof -
  have "ready heap2 blocks2 (5 * 400)" using heap2_ready(1) by simp
  from calloc_zeroes [OF heap2_ok this] obtain p s' where
    "calloc 5 400 heap2 = Inr (p, s')" "\<forall>i < unat (5 * 400 :: u32). mem s' (p + of_nat i) = 0" by blast
  from this(1) spec [OF this(2), of 1999] show ?thesis by auto
qed

end
