(* ===== verification/Structs.thy ===== *)
theory Structs
  imports Console
begin

text \<open>
  C structures in the modelled memory: layouts, the addresses of fields, and what a write to one field or
  to a region of memory leaves alone. The file system and the boot code keep their data this way.
\<close>

section \<open>Structures in memory\<close>

text \<open>A structure is the list of its fields with their sizes; all of them are packed or need no padding.\<close>

type_synonym layout = "(string \<times> nat) list"

fun offset_of :: "layout \<Rightarrow> string \<Rightarrow> nat" where
  "offset_of [] f = 0"
| "offset_of ((g, n) # l) f = (if f = g then 0 else n + offset_of l f)"

definition sizeof :: "layout \<Rightarrow> nat" where
  "sizeof l = sum_list (map snd l)"

definition field_at :: "layout \<Rightarrow> u32 \<Rightarrow> string \<Rightarrow> u32" where
  "field_at l p f = p + of_nat (offset_of l f)"

definition get_word :: "layout \<Rightarrow> mem \<Rightarrow> u32 \<Rightarrow> string \<Rightarrow> u32" where
  "get_word l m p f = load32 m (field_at l p f)"

definition set_word :: "layout \<Rightarrow> u32 \<Rightarrow> string \<Rightarrow> u32 \<Rightarrow> mem \<Rightarrow> mem" where
  "set_word l p f v m = store32 m (field_at l p f) v"

text \<open>\<open>offsets\<close>: the offsets of the fields in use, computed once.\<close>

named_theorems offsets

section \<open>Fields and regions\<close>

lemma struct_apart:
  fixes p :: u32
  assumes "i + n \<le> j" and "0 < n" and "0 < k" and "j + k \<le> 4294967296"
  shows "apart (p + of_nat i) n (p + of_nat j) k"
proof -
  have b: "i < j" "j - i < 4294967296" using assms by simp_all
  have "p + of_nat j - (p + of_nat i) = of_nat (j - i)" using b by (simp add: of_nat_diff)
  then have 1: "unat (p + of_nat j - (p + of_nat i)) = j - i" using unat_of_nat32 [OF b(2)] by (simp only:)
  have "p + of_nat i - (p + of_nat j) = 0 - of_nat (j - i)" using b by (simp add: of_nat_diff)
  then have "unat (p + of_nat i - (p + of_nat j)) = (0 + (4294967296 - (j - i))) mod 4294967296"
    using unat_of_nat32 [OF b(2)] unat_sub_mod [of 0 "of_nat (j - i)"] by (simp only: unsigned_0)
  then have 2: "unat (p + of_nat i - (p + of_nat j)) = 4294967296 - (j - i)" using b by simp
  have "n \<le> j - i" "k \<le> 4294967296 - (j - i)" using assms by linarith+
  then show ?thesis by (simp only: apart_def 1 2)
qed

lemma apart_part:
  assumes "apart p k q (j + n)" and "n \<le> k" and "j < 4294967296"
  shows "apart p n (q + of_nat j) n"
proof (cases "n = 0")
  case False
  have u: "unat (of_nat j :: u32) = j" by (rule unat_of_nat32 [OF assms(3)])
  have a: "k \<le> unat (q - p)" "j + n \<le> unat (p - q)" using assms(1) by (simp_all add: apart_def)
  have "p \<noteq> q" using a(2) False by auto
  then have s: "unat (q - p) = 4294967296 - unat (p - q)"
    using unat_sub_mod [of 0 "p - q"] a(2) False unat_u32_bound [of "p - q"] by simp
  have "q + of_nat j - p = (q - p) + of_nat j" by simp
  moreover have "unat ((q - p) + of_nat j) = unat (q - p) + j"
  proof -
    have "unat (q - p) + j < 4294967296" using a False s unat_u32_bound [of "p - q"] by linarith
    then show ?thesis using u by (subst unat_add_small) simp_all
  qed
  moreover have "p - (q + of_nat j) = (p - q) - of_nat j" by (rule diff_diff_eq [symmetric])
  moreover have "unat ((p - q) - of_nat j) = unat (p - q) - j"
    using a u by (subst unat_sub) (simp_all add: word_le_nat_alt)
  ultimately have "unat (q + of_nat j - p) = unat (q - p) + j" "unat (p - (q + of_nat j)) = unat (p - q) - j" by (simp_all only:)
  then show ?thesis using a assms(2) unfolding apart_def by linarith
qed (simp add: apart_def)

text \<open>What is read from a region that does not overlap the one that changed.\<close>

lemma reads_apart:
  assumes "\<And>x. k \<le> unat (x - p) \<Longrightarrow> m' x = m x" and "apart p k q n" and "k \<le> 4294967296" and "n \<le> 4294967296"
  shows "i < n \<Longrightarrow> m' (q + of_nat i) = m (q + of_nat i)"
    "i + 2 \<le> n \<Longrightarrow> load16 m' (q + of_nat i) = load16 m (q + of_nat i)"
    "i + 4 \<le> n \<Longrightarrow> load32 m' (q + of_nat i) = load32 m (q + of_nat i)"
proof -
  have b: "m' (q + of_nat i) = m (q + of_nat i)" if "i < n" for i
    by (rule assms(1) [OF apart_offset [OF assms(2) that assms(3,4)]])
  then show "i < n \<Longrightarrow> m' (q + of_nat i) = m (q + of_nat i)" .
  have o: "m' (q + of_nat i + of_nat j) = m (q + of_nat i + of_nat j)" if "i + j < n" for i j
    using b [OF that] by (simp add: add.assoc)
  show "i + 2 \<le> n \<Longrightarrow> load16 m' (q + of_nat i) = load16 m (q + of_nat i)" by (rule load16_cong) (simp add: o)
  show "i + 4 \<le> n \<Longrightarrow> load32 m' (q + of_nat i) = load32 m (q + of_nat i)" by (rule load32_cong) (simp add: o)
qed

end
