(* ===== verification/Vfs.thy ===== *)
theory Vfs
  imports Structs
begin

text \<open>
  The virtual file system (\<open>core/vfs.c\<close>) and the initial ramdisk driver (\<open>core/fs/ext2_initrd.c\<close>). A node
  is a structure in memory; its operations are function pointers, called through the parameter \<open>call\<close>:
  \<open>call f args s\<close> is what the processor does when the code at address \<open>f\<close> is called with \<open>args\<close>.
\<close>

section \<open>The structures\<close>

definition fs_node_layout :: layout where
  "fs_node_layout = [(''name'', 256), (''mask'', 4), (''uid'', 4), (''gid'', 4), (''flags'', 4), (''inode'', 4),
     (''length'', 4), (''impl'', 4), (''read'', 4), (''write'', 4), (''open'', 4), (''close'', 4), (''readdir'', 4),
     (''finddir'', 4), (''ptr'', 4)]"

definition dirent_layout :: layout where
  "dirent_layout = [(''name'', 256), (''ino'', 4)]"

definition ext2_superblock_layout :: layout where
  "ext2_superblock_layout = [(''inodes_count'', 4), (''blocks_count'', 4), (''r_blocks_count'', 4),
     (''free_blocks_count'', 4), (''free_inodes_count'', 4), (''first_data_block'', 4), (''log_block_size'', 4),
     (''log_frag_size'', 4), (''blocks_per_group'', 4), (''frags_per_group'', 4), (''inodes_per_group'', 4),
     (''mtime'', 4), (''wtime'', 4),
     (''mnt_count'', 2), (''max_mnt_count'', 2), (''magic'', 2), (''state'', 2), (''errors'', 2), (''minor_rev_level'', 2),
     (''lastcheck'', 4), (''checkinterval'', 4), (''creator_os'', 4), (''rev_level'', 4),
     (''def_resuid'', 2), (''def_resgid'', 2),
     (''first_ino'', 4), (''inode_size'', 2), (''block_group_nr'', 2), (''feature_compat'', 4),
     (''feature_incompat'', 4), (''feature_ro_compat'', 4),
     (''uuid'', 16), (''volume_name'', 16),
     (''last_mounted'', 16),
     (''algo_bitmap'', 4),
     (''prealloc_blocks'', 1), (''prealloc_dir_blocks'', 1), (''_padding'', 2),
     (''journal_uuid'', 16), (''journal_inum'', 4), (''jounral_dev'', 4), (''last_orphan'', 4),
     (''hash_seed'', 16), (''def_hash_version'', 1), (''_padding_a'', 2), (''_padding_b'', 1),
     (''default_mount_options'', 4), (''first_meta_bg'', 4), (''_unused'', 760)]"

definition ext2_bgdescriptor_layout :: layout where
  "ext2_bgdescriptor_layout = [(''block_bitmap'', 4), (''inode_bitmap'', 4), (''inode_table'', 4),
     (''free_blocks_count'', 2), (''free_inodes_count'', 2), (''used_dirs_count'', 2), (''pad'', 2), (''reserved'', 12)]"

definition ext2_inodetable_layout :: layout where
  "ext2_inodetable_layout = [(''mode'', 2), (''uid'', 2), (''size'', 4), (''atime'', 4), (''ctime'', 4), (''mtime'', 4),
     (''dtime'', 4), (''gid'', 2), (''links_count'', 2), (''blocks'', 4), (''flags'', 4), (''osd1'', 4), (''block'', 60),
     (''generation'', 4), (''file_acl'', 4), (''dir_acl'', 4), (''faddr'', 4), (''osd2'', 12)]"

definition ext2_dir_layout :: layout where
  "ext2_dir_layout = [(''inode'', 4), (''rec_len'', 2), (''name_len'', 1), (''file_type'', 1), (''name'', 1)]"

section \<open>Constants\<close>

definition FS_FILE :: u32 where "FS_FILE = 0x01"
definition FS_DIRECTORY :: u32 where "FS_DIRECTORY = 0x02"
definition FS_CHARDEVICE :: u32 where "FS_CHARDEVICE = 0x03"
definition FS_BLOCKDEVICE :: u32 where "FS_BLOCKDEVICE = 0x04"
definition FS_PIPE :: u32 where "FS_PIPE = 0x05"
definition FS_SYMLINK :: u32 where "FS_SYMLINK = 0x06"

definition EXT2_S_IFLNK :: u32 where "EXT2_S_IFLNK = 0xA000"
definition EXT2_S_IFREG :: u32 where "EXT2_S_IFREG = 0x8000"
definition EXT2_S_IFBLK :: u32 where "EXT2_S_IFBLK = 0x6000"
definition EXT2_S_IFDIR :: u32 where "EXT2_S_IFDIR = 0x4000"
definition EXT2_S_IFCHR :: u32 where "EXT2_S_IFCHR = 0x2000"
definition EXT2_S_IFIFO :: u32 where "EXT2_S_IFIFO = 0x1000"

lemmas fs_kinds = FS_FILE_def FS_DIRECTORY_def FS_CHARDEVICE_def FS_BLOCKDEVICE_def FS_PIPE_def FS_SYMLINK_def

section \<open>The virtual file system\<close>

type_synonym 's caller = "u32 \<Rightarrow> u32 list \<Rightarrow> 's \<Rightarrow> (u32, 's) result"

abbreviation node_word :: "mem \<Rightarrow> u32 \<Rightarrow> string \<Rightarrow> u32" where
  "node_word \<equiv> get_word fs_node_layout"

definition read_fs ::
  "'a machine_scheme caller \<Rightarrow> u32 \<Rightarrow> u32 \<Rightarrow> u32 \<Rightarrow> u32 \<Rightarrow> 'a machine_scheme \<Rightarrow> (u32, 'a machine_scheme) result" where
  "read_fs call node offset sz buffer s =
     (if node_word (mem s) node ''read'' \<noteq> 0
      then call (node_word (mem s) node ''read'') [node, offset, sz, buffer] s
      else Inr (0, s))"

definition write_fs ::
  "'a machine_scheme caller \<Rightarrow> u32 \<Rightarrow> u32 \<Rightarrow> u32 \<Rightarrow> u32 \<Rightarrow> 'a machine_scheme \<Rightarrow> (u32, 'a machine_scheme) result" where
  "write_fs call node offset sz buffer s =
     (if node_word (mem s) node ''write'' \<noteq> 0
      then call (node_word (mem s) node ''write'') [node, offset, sz, buffer] s
      else Inr (0, s))"

definition open_fs ::
  "'a machine_scheme caller \<Rightarrow> u32 \<Rightarrow> u8 \<Rightarrow> u8 \<Rightarrow> 'a machine_scheme \<Rightarrow> (unit, 'a machine_scheme) result" where
  "open_fs call node rd wr s =
     (if node_word (mem s) node ''open'' \<noteq> 0
      then res_bind (call (node_word (mem s) node ''open'') [node, ucast rd, ucast wr] s) (\<lambda>(_, s1). Inr ((), s1))
      else Inr ((), s))"

definition close_fs :: "'a machine_scheme caller \<Rightarrow> u32 \<Rightarrow> 'a machine_scheme \<Rightarrow> (unit, 'a machine_scheme) result" where
  "close_fs call node s =
     (if node_word (mem s) node ''close'' \<noteq> 0
      then res_bind (call (node_word (mem s) node ''close'') [node] s) (\<lambda>(_, s1). Inr ((), s1))
      else Inr ((), s))"

definition readdir_fs ::
  "'a machine_scheme caller \<Rightarrow> u32 \<Rightarrow> u32 \<Rightarrow> 'a machine_scheme \<Rightarrow> (u32, 'a machine_scheme) result" where
  "readdir_fs call node index s =
     (if node_word (mem s) node ''flags'' AND 0x07 = FS_DIRECTORY \<and> node_word (mem s) node ''readdir'' \<noteq> 0
      then call (node_word (mem s) node ''readdir'') [node, index] s
      else Inr (0, s))"

text \<open>The guard tests \<open>readdir\<close>, the call goes through \<open>finddir\<close>.\<close>

definition finddir_fs ::
  "'a machine_scheme caller \<Rightarrow> u32 \<Rightarrow> u32 \<Rightarrow> 'a machine_scheme \<Rightarrow> (u32, 'a machine_scheme) result" where
  "finddir_fs call node name s =
     (if node_word (mem s) node ''flags'' AND 0x07 = FS_DIRECTORY \<and> node_word (mem s) node ''readdir'' \<noteq> 0
      then call (node_word (mem s) node ''finddir'') [node, name] s
      else Inr (0, s))"

text \<open>A function that ends without \<open>return\<close> gives no value: \<open>None\<close>.\<close>

definition kopen :: "u32 \<Rightarrow> u32 \<Rightarrow> 's \<Rightarrow> (u32 option, 's) result" where
  "kopen filename flags s = Inr (None, s)"

section \<open>The ramdisk driver\<close>

definition read_initrd :: "u32 \<Rightarrow> u32 \<Rightarrow> u32 \<Rightarrow> u32 \<Rightarrow> 's \<Rightarrow> (u32, 's) result" where
  "read_initrd node offset sz buffer s = Inr (0, s)"

definition write_initrd :: "u32 \<Rightarrow> u32 \<Rightarrow> u32 \<Rightarrow> u32 \<Rightarrow> 's \<Rightarrow> (u32, 's) result" where
  "write_initrd node offset sz buffer s = Inr (0, s)"

definition open_initrd :: "u32 \<Rightarrow> u8 \<Rightarrow> u8 \<Rightarrow> 's \<Rightarrow> (unit, 's) result" where
  "open_initrd node rd wr s = Inr ((), s)"

definition close_initrd :: "u32 \<Rightarrow> 's \<Rightarrow> (unit, 's) result" where
  "close_initrd node s = Inr ((), s)"

definition readdir_initrd :: "u32 \<Rightarrow> u32 \<Rightarrow> 's \<Rightarrow> (u32, 's) result" where
  "readdir_initrd node index s = Inr (0, s)"

definition finddir_initrd :: "u32 \<Rightarrow> u32 \<Rightarrow> 's \<Rightarrow> (u32, 's) result" where
  "finddir_initrd node name s = Inr (0, s)"

text \<open>The addresses the linker gave the six functions, and what a call to one of them does.\<close>

record initrd_code =
  read_at :: u32
  write_at :: u32
  open_at :: u32
  close_at :: u32
  readdir_at :: u32
  finddir_at :: u32

definition initrd_call :: "initrd_code \<Rightarrow> 's caller" where
  "initrd_call y f args s =
     (if f = read_at y \<and> length args = 4 then read_initrd (args ! 0) (args ! 1) (args ! 2) (args ! 3) s
      else if f = write_at y \<and> length args = 4 then write_initrd (args ! 0) (args ! 1) (args ! 2) (args ! 3) s
      else if f = open_at y \<and> length args = 3
        then res_bind (open_initrd (args ! 0) (ucast (args ! 1)) (ucast (args ! 2)) s) (\<lambda>(_, s1). Inr (0, s1))
      else if f = close_at y \<and> length args = 1 then res_bind (close_initrd (args ! 0) s) (\<lambda>(_, s1). Inr (0, s1))
      else if f = readdir_at y \<and> length args = 2 then readdir_initrd (args ! 0) (args ! 1) s
      else if f = finddir_at y \<and> length args = 2 then finddir_initrd (args ! 0) (args ! 1) s
      else Inl Null_call)"

definition initrd_flag :: "u32 \<Rightarrow> u32 \<Rightarrow> u32 \<times> u32 \<Rightarrow> mem \<Rightarrow> mem" where
  "initrd_flag inode fnode = (\<lambda>(kind, flag) m.
     if ucast (load16 m (field_at ext2_inodetable_layout inode ''mode'')) AND kind \<noteq> 0
     then set_word fs_node_layout fnode ''flags'' (node_word m fnode ''flags'' AND flag) m else m)"

definition initrd_flags :: "(u32 \<times> u32) list" where
  "initrd_flags = [(EXT2_S_IFREG, FS_FILE), (EXT2_S_IFDIR, FS_DIRECTORY), (EXT2_S_IFBLK, FS_BLOCKDEVICE),
     (EXT2_S_IFCHR, FS_CHARDEVICE), (EXT2_S_IFIFO, FS_PIPE), (EXT2_S_IFLNK, FS_SYMLINK)]"

text \<open>\<open>inode\<close>, \<open>direntry\<close> and \<open>fnode\<close> are pointers to the three structures.\<close>

definition initrd_node_from_file ::
  "initrd_code \<Rightarrow> u32 \<Rightarrow> u32 \<Rightarrow> u32 \<Rightarrow> 'a machine_scheme \<Rightarrow> (u32 option, 'a machine_scheme) result" where
  "initrd_node_from_file y inode direntry fnode s =
     (if fnode = 0 then Inr (Some 0, s)
      else
        let put = set_word fs_node_layout fnode;
            dir = field_at ext2_dir_layout direntry;
            ino = field_at ext2_inodetable_layout inode;
            m1 = put ''inode'' (load32 (mem s) (dir ''inode'')) (mem s);
            m2 = memcpy m1 (field_at fs_node_layout fnode ''name'') (dir ''name'') (ucast (m1 (dir ''name_len'')));
            m3 = m2(field_at fs_node_layout fnode ''name'' + ucast (m2 (dir ''name_len'')) := 0);
            m4 = put ''uid'' (ucast (load16 m3 (ino ''uid''))) m3;
            m5 = put ''gid'' (ucast (load16 m4 (ino ''gid''))) m4;
            m6 = put ''length'' (load32 m5 (ino ''size'')) m5;
            m7 = put ''mask'' (ucast (load16 m6 (ino ''mode'')) AND 0xFFF) m6;
            m8 = put ''flags'' 0 m7;
            m9 = fold (initrd_flag inode fnode) initrd_flags m8;
            m10 = put ''read'' (read_at y) m9;
            m11 = put ''write'' (write_at y) m10;
            m12 = put ''open'' (open_at y) m11;
            m13 = put ''close'' (close_at y) m12;
            m14 = put ''readdir'' (readdir_at y) m13;
            m15 = put ''finddir'' (finddir_at y) m14
        in Inr (None, s\<lparr>mem := m15\<rparr>))"


section \<open>Offsets\<close>

lemma fs_node_offsets [offsets]:
  "offset_of fs_node_layout ''name'' = 0" "offset_of fs_node_layout ''mask'' = 256" "offset_of fs_node_layout ''uid'' = 260"
  "offset_of fs_node_layout ''gid'' = 264" "offset_of fs_node_layout ''flags'' = 268"
  "offset_of fs_node_layout ''inode'' = 272" "offset_of fs_node_layout ''length'' = 276"
  "offset_of fs_node_layout ''read'' = 284" "offset_of fs_node_layout ''write'' = 288"
  "offset_of fs_node_layout ''open'' = 292" "offset_of fs_node_layout ''close'' = 296"
  "offset_of fs_node_layout ''readdir'' = 300" "offset_of fs_node_layout ''finddir'' = 304"
  by (simp_all add: fs_node_layout_def)

lemma ext2_offsets [offsets]:
  "offset_of ext2_inodetable_layout ''mode'' = 0" "offset_of ext2_inodetable_layout ''uid'' = 2"
  "offset_of ext2_inodetable_layout ''size'' = 4" "offset_of ext2_inodetable_layout ''gid'' = 24"
  "offset_of ext2_dir_layout ''inode'' = 0" "offset_of ext2_dir_layout ''name_len'' = 6" "offset_of ext2_dir_layout ''name'' = 8"
  by (simp_all add: ext2_inodetable_layout_def ext2_dir_layout_def)

text \<open>\<open>only_node p m m'\<close>: from \<open>m\<close> to \<open>m'\<close> only the node at \<open>p\<close> changed.\<close>

definition only_node :: "u32 \<Rightarrow> mem \<Rightarrow> mem \<Rightarrow> bool" where
  "only_node p m m' \<longleftrightarrow> (\<forall>x. 312 \<le> unat (x - p) \<longrightarrow> m' x = m x)"

lemma only_node_refl [simp]: "only_node p m m"
  by (simp add: only_node_def)

lemma only_node_byte: "only_node p m m' \<Longrightarrow> o' < 312 \<Longrightarrow> only_node p m (m'(p + of_nat o' := v))"
  using unat_of_nat32 [of o'] by (auto simp: only_node_def)

lemma only_node_set:
  assumes "only_node p m m'" and "offset_of fs_node_layout f \<le> 308"
  shows "only_node p m (set_word fs_node_layout p f v m')"
  unfolding only_node_def
proof (intro allI impI)
  fix x assume x: "312 \<le> unat (x - p)"
  let ?o = "offset_of fs_node_layout f"
  have u: "unat (of_nat ?o :: u32) = ?o" using assms(2) by (intro unat_of_nat32) simp
  have "x - (p + of_nat ?o) = x - p - of_nat ?o" by (simp add: algebra_simps)
  moreover have "unat (x - p - of_nat ?o) = unat (x - p) - ?o"
    using u assms(2) x by (subst unat_sub) (simp_all add: word_le_nat_alt)
  ultimately have "4 \<le> unat (x - (p + of_nat ?o))" using x assms(2) by (simp only:)
  then show "set_word fs_node_layout p f v m' x = m x"
    using assms(1) x by (simp add: set_word_def field_at_def store32_other only_node_def)
qed

lemma only_node_reads:
  assumes "only_node p m m'" and "apart p 312 q n" and "n \<le> 4294967296"
  shows "i < n \<Longrightarrow> m' (q + of_nat i) = m (q + of_nat i)"
    "i + 2 \<le> n \<Longrightarrow> load16 m' (q + of_nat i) = load16 m (q + of_nat i)"
    "i + 4 \<le> n \<Longrightarrow> load32 m' (q + of_nat i) = load32 m (q + of_nat i)"
  using reads_apart [of 312 p m' m, OF _ assms(2) _ assms(3)] assms(1) by (simp_all add: only_node_def)

lemma get_set_word:
  assumes "offset_of fs_node_layout f \<le> 308" and "offset_of fs_node_layout g \<le> 308"
    and "offset_of fs_node_layout f mod 4 = 0" and "offset_of fs_node_layout g mod 4 = 0"
  shows "node_word (set_word fs_node_layout p f v m) p g =
    (if offset_of fs_node_layout f = offset_of fs_node_layout g then v else node_word m p g)"
proof -
  let ?i = "offset_of fs_node_layout f" and ?j = "offset_of fs_node_layout g"
  have "?i = ?j \<or> ?i + 4 \<le> ?j \<or> ?j + 4 \<le> ?i" using assms(3,4) by presburger
  then consider "?i = ?j" | "?i \<noteq> ?j" "apart (p + of_nat ?i) 4 (p + of_nat ?j) 4"
    using struct_apart [of ?i 4 ?j 4 p] struct_apart [of ?j 4 ?i 4 p] assms(1,2) apart_sym [of "p + of_nat ?i" 4] by fastforce
  then show ?thesis by cases (simp_all add: get_word_def set_word_def field_at_def load32_store32_apart)
qed

lemma set_word_name:
  assumes "256 \<le> offset_of fs_node_layout f" and "offset_of fs_node_layout f \<le> 308" and "i < 256"
  shows "set_word fs_node_layout p f v m (p + of_nat i) = m (p + of_nat i)"
proof -
  have "apart (p + of_nat i) 1 (p + of_nat (offset_of fs_node_layout f)) 4"
    using assms by (intro struct_apart) simp_all
  then have "4 \<le> unat (p + of_nat i - (p + of_nat (offset_of fs_node_layout f)))" by (simp add: apart_def)
  then show ?thesis by (simp add: set_word_def field_at_def store32_other)
qed

text \<open>No flag is ever set.\<close>

lemma initrd_flags_zero:
  assumes "node_word m p ''flags'' = 0"
  shows "node_word (fold (initrd_flag inode p) ks m) p ''flags'' = 0 \<and>
    only_node p m (fold (initrd_flag inode p) ks m) \<and>
    (\<forall>i < 256. fold (initrd_flag inode p) ks m (p + of_nat i) = m (p + of_nat i)) \<and>
    (\<forall>f. offset_of fs_node_layout f \<le> 308 \<longrightarrow> offset_of fs_node_layout f mod 4 = 0 \<longrightarrow> offset_of fs_node_layout f \<noteq> 268 \<longrightarrow>
      node_word (fold (initrd_flag inode p) ks m) p f = node_word m p f)"
  using assms
proof (induction ks arbitrary: m)
  case (Cons k ks)
  let ?m = "initrd_flag inode p k m"
  have "node_word ?m p ''flags'' = 0" "only_node p m ?m" "\<forall>i < 256. ?m (p + of_nat i) = m (p + of_nat i)"
    "\<forall>f. offset_of fs_node_layout f \<le> 308 \<longrightarrow> offset_of fs_node_layout f mod 4 = 0 \<longrightarrow> offset_of fs_node_layout f \<noteq> 268 \<longrightarrow>
      node_word ?m p f = node_word m p f"
    using Cons.prems
    by (auto simp: initrd_flag_def get_set_word set_word_name offsets split: prod.splits intro!: only_node_set)
  with Cons.IH [OF this(1)] show ?case by (auto simp: only_node_def)
qed simp


text \<open>What the driver leaves in a node, in terms of the memory before.\<close>

definition describes :: "initrd_code \<Rightarrow> u32 \<Rightarrow> u32 \<Rightarrow> u32 \<Rightarrow> mem \<Rightarrow> mem \<Rightarrow> bool" where
  "describes y inode direntry p m m' \<longleftrightarrow> (let n = unat (m (direntry + 6)) in
     (\<forall>i < n. m' (p + of_nat i) = m (direntry + 8 + of_nat i)) \<and> m' (p + of_nat n) = 0 \<and>
     node_word m' p ''inode'' = load32 m direntry \<and>
     node_word m' p ''uid'' = ucast (load16 m (inode + 2)) \<and> node_word m' p ''gid'' = ucast (load16 m (inode + 24)) \<and>
     node_word m' p ''length'' = load32 m (inode + 4) \<and>
     node_word m' p ''mask'' = ucast (load16 m inode) AND 0xFFF \<and> node_word m' p ''flags'' = 0 \<and>
     node_word m' p ''read'' = read_at y \<and> node_word m' p ''write'' = write_at y \<and>
     node_word m' p ''open'' = open_at y \<and> node_word m' p ''close'' = close_at y \<and>
     node_word m' p ''readdir'' = readdir_at y \<and> node_word m' p ''finddir'' = finddir_at y)"

text \<open>The inode number, the name and its terminator.\<close>

lemma node_name_run:
  assumes "apart p 312 direntry (8 + n)" and "n = unat (m (direntry + 6))"
    and "m1 = set_word fs_node_layout p ''inode'' (load32 m direntry) m"
    and "m2 = memcpy m1 p (direntry + 8) (ucast (m1 (direntry + 6)))" and "m3 = m2(p + of_nat n := 0)"
  shows "only_node p m m3" "p + ucast (m2 (direntry + 6)) = p + of_nat n"
    "\<forall>i < n. m3 (p + of_nat i) = m (direntry + 8 + of_nat i)" "m3 (p + of_nat n) = 0" "node_word m3 p ''inode'' = load32 m direntry"
proof -
  have n: "n < 256" unfolding assms(2) by (rule unat_u8_bound)
  have dir: "m' (direntry + 6) = m (direntry + 6)" "i < n \<Longrightarrow> m' (direntry + 8 + of_nat i) = m (direntry + 8 + of_nat i)"
    if "only_node p m m'" for m' i
    using only_node_reads(1) [OF that assms(1), of 6] only_node_reads(1) [OF that assms(1), of "8 + i"] n
    by (simp_all add: add.assoc)
  have "nat (sint (ucast (m (direntry + 6)) :: u32)) = n"
    using unat_u8_bound [of "m (direntry + 6)"] by (simp add: sint_small assms(2) unsigned_ucast_eq take_bit_eq_mod)
  moreover have "apart p n (direntry + 8) n" using apart_part [OF assms(1)] n by simp
  moreover have m1: "only_node p m m1" unfolding assms(3) by (intro only_node_set) (simp_all add: offsets)
  ultimately have m2: "m2 x = (if unat (x - p) < n then m1 (direntry + 8 + (x - p)) else m1 x)" for x
    unfolding assms(4) dir(1) [OF m1] by (subst memcpy_byte) simp_all
  then have m2n: "only_node p m m2" using m1 n by (auto simp: only_node_def)
  show "p + ucast (m2 (direntry + 6)) = p + of_nat n" unfolding dir(1) [OF m2n] by (simp add: assms(2))
  show "only_node p m m3" unfolding assms(5) using m2n n by (intro only_node_byte) simp_all
  show "m3 (p + of_nat n) = 0" by (simp add: assms(5))
  have un: "unat (of_nat n :: u32) = n" using n by (intro unat_of_nat32) simp
  show "\<forall>i < n. m3 (p + of_nat i) = m (direntry + 8 + of_nat i)"
  proof (intro allI impI)
    fix i assume i: "i < n"
    then have u: "unat (of_nat i :: u32) = i" using n by (intro unat_of_nat32) simp
    then have "of_nat i \<noteq> (of_nat n :: u32)" using un i by auto
    then show "m3 (p + of_nat i) = m (direntry + 8 + of_nat i)"
      using u i by (simp add: assms(5) m2 dir(2) [OF m1])
  qed
  have "m3 (p + 272 + of_nat i) = m1 (p + 272 + of_nat i)" if "i < 4" for i
  proof -
    have u: "unat (272 + of_nat i :: u32) = 272 + i" using that unat_of_nat32 [of "272 + i"] by simp
    have "272 + of_nat i \<noteq> (of_nat n :: u32)"
    proof
      assume "272 + of_nat i = (of_nat n :: u32)"
      then have "unat (272 + of_nat i :: u32) = unat (of_nat n :: u32)" by (rule arg_cong)
      then show False using u un n by (simp only:)
    qed
    then show ?thesis using u n by (simp add: assms(5) m2 add.assoc)
  qed
  then have "load32 m3 (p + 272) = load32 m1 (p + 272)" by (rule load32_cong)
  then show "node_word m3 p ''inode'' = load32 m direntry" by (simp add: get_word_def field_at_def offsets assms(3) set_word_def)
qed

lemma initrd_node_run:
  assumes "p \<noteq> 0" and "apart p 312 inode 128" and "apart p 312 direntry (8 + unat (mem s (direntry + 6)))"
  shows "\<exists>m'. initrd_node_from_file y inode direntry p s = Inr (None, s\<lparr>mem := m'\<rparr>) \<and>
    only_node p (mem s) m' \<and> describes y inode direntry p (mem s) m'"
proof -
  let ?m = "mem s" and ?put = "set_word fs_node_layout p"
  define n where "n = unat (?m (direntry + 6))"
  have n: "n < 256" unfolding n_def by (rule unat_u8_bound)
  have ino: "load16 m' inode = load16 ?m inode" "load16 m' (inode + 2) = load16 ?m (inode + 2)"
    "load32 m' (inode + 4) = load32 ?m (inode + 4)" "load16 m' (inode + 24) = load16 ?m (inode + 24)" if "only_node p ?m m'" for m'
    using only_node_reads(2) [OF that assms(2), of 0] only_node_reads(2) [OF that assms(2), of 2]
      only_node_reads(3) [OF that assms(2), of 4] only_node_reads(2) [OF that assms(2), of 24] by simp_all
  define m1 where "m1 = ?put ''inode'' (load32 ?m direntry) ?m"
  define m2 where "m2 = memcpy m1 p (direntry + 8) (ucast (m1 (direntry + 6)))"
  define m3 where "m3 = m2(p + of_nat n := 0)"
  note nm = node_name_run [OF assms(3) [folded n_def] n_def m1_def m2_def m3_def]
  note m3 = nm(1) and pn = nm(2)
  define m4 where "m4 = ?put ''uid'' (ucast (load16 ?m (inode + 2))) m3"
  define m5 where "m5 = ?put ''gid'' (ucast (load16 ?m (inode + 24))) m4"
  define m6 where "m6 = ?put ''length'' (load32 ?m (inode + 4)) m5"
  define m7 where "m7 = ?put ''mask'' (ucast (load16 ?m inode) AND 0xFFF) m6"
  define m8 where "m8 = ?put ''flags'' 0 m7"
  have on: "only_node p ?m m4" "only_node p ?m m5" "only_node p ?m m6" "only_node p ?m m7" "only_node p ?m m8"
    unfolding m8_def m7_def m6_def m5_def m4_def using m3 by (auto intro!: only_node_set simp: offsets)
  define m9 where "m9 = fold (initrd_flag inode p) initrd_flags m8"
  have "node_word m8 p ''flags'' = 0" by (simp add: m8_def get_set_word offsets)
  note m9 = initrd_flags_zero [OF this, of inode initrd_flags, folded m9_def]
  define m15 where "m15 = ?put ''finddir'' (finddir_at y) (?put ''readdir'' (readdir_at y) (?put ''close'' (close_at y)
    (?put ''open'' (open_at y) (?put ''write'' (write_at y) (?put ''read'' (read_at y) m9)))))"
  have "only_node p ?m m9" using on(5) m9 by (auto simp: only_node_def)
  then have m15: "only_node p ?m m15" unfolding m15_def by (auto intro!: only_node_set simp: offsets)
  have run: "initrd_node_from_file y inode direntry p s = Inr (None, s\<lparr>mem := m15\<rparr>)"
    using assms(1) unfolding initrd_node_from_file_def
    by (simp add: Let_def field_at_def offsets m1_def [symmetric] m2_def [symmetric] pn m3_def [symmetric] ino [OF m3] m4_def [symmetric]
        ino [OF on(1)] m5_def [symmetric] ino [OF on(2)] m6_def [symmetric] ino [OF on(3)] m7_def [symmetric]
        m8_def [symmetric] m9_def [symmetric] m15_def [symmetric])
  have name: "m15 (p + of_nat i) = m3 (p + of_nat i)" if "i < 256" for i
    using that m9 by (simp add: m15_def m8_def m7_def m6_def m5_def m4_def set_word_name offsets)
  then have "\<forall>i < n. m15 (p + of_nat i) = ?m (direntry + 8 + of_nat i)" "m15 (p + of_nat n) = 0" using nm(3,4) n by simp_all
  moreover have w9: "node_word m9 p f = node_word m8 p f"
    if "offset_of fs_node_layout f \<le> 308" "offset_of fs_node_layout f mod 4 = 0" "offset_of fs_node_layout f \<noteq> 268" for f
    using m9 that by simp
  have w15: "node_word m15 p f = node_word m9 p f" if "offset_of fs_node_layout f \<le> 280" "offset_of fs_node_layout f mod 4 = 0" for f
    using that by (simp add: m15_def get_set_word offsets)
  moreover have "node_word m15 p ''inode'' = node_word m3 p ''inode''"
    by (simp add: w15 w9 offsets m8_def m7_def m6_def m5_def m4_def get_set_word)
  moreover have "node_word m15 p ''uid'' = ucast (load16 ?m (inode + 2))" "node_word m15 p ''gid'' = ucast (load16 ?m (inode + 24))"
    "node_word m15 p ''length'' = load32 ?m (inode + 4)" "node_word m15 p ''mask'' = ucast (load16 ?m inode) AND 0xFFF"
    by (simp_all add: w15 w9 offsets m8_def m7_def m6_def m5_def m4_def get_set_word)
  moreover have "node_word m15 p ''flags'' = 0" using m9 by (simp add: w15 offsets)
  moreover have "node_word m15 p ''read'' = read_at y" "node_word m15 p ''write'' = write_at y" "node_word m15 p ''open'' = open_at y"
    "node_word m15 p ''close'' = close_at y" "node_word m15 p ''readdir'' = readdir_at y" "node_word m15 p ''finddir'' = finddir_at y"
    by (simp_all add: m15_def get_set_word offsets)
  ultimately have "describes y inode direntry p ?m m15"
    unfolding describes_def Let_def n_def [symmetric] using nm(5) by simp
  with run m15 show ?thesis by blast
qed


lemma initrd_call_code:
  assumes "distinct [read_at y, write_at y, open_at y, close_at y, readdir_at y, finddir_at y]"
  shows "initrd_call y (read_at y) [a, b, c, d] s = Inr (0, s)" "initrd_call y (write_at y) [a, b, c, d] s = Inr (0, s)"
    "initrd_call y (open_at y) [a, b, c] s = Inr (0, s)" "initrd_call y (close_at y) [a] s = Inr (0, s)"
  using assms
  by (auto simp: initrd_call_def read_initrd_def write_initrd_def open_initrd_def close_initrd_def)

text \<open>The superblock structure is 48 bytes short of the 1024 that its last field pads it to on disk: \<open>last_mounted\<close>
  has 16 bytes instead of 64, so every field from \<open>algo_bitmap\<close> on is read from the wrong place. The other
  structures have the sizes of the format.\<close>

lemma ext2_sizes:
  "sizeof ext2_superblock_layout = 1024 - 48" "offset_of ext2_superblock_layout ''magic'' = 56"
  "offset_of ext2_superblock_layout ''algo_bitmap'' = 200 - 48"
  "sizeof ext2_bgdescriptor_layout = 32" "sizeof ext2_inodetable_layout = 128" "sizeof fs_node_layout = 312" "sizeof dirent_layout = 260"
  by (simp_all add: sizeof_def ext2_superblock_layout_def ext2_bgdescriptor_layout_def ext2_inodetable_layout_def
      fs_node_layout_def dirent_layout_def)

section \<open>Properties\<close>

text \<open>C38. \<open>initrd_node_from_file\<close> fills a node that overlaps neither the inode nor the directory entry with the entry's
  name, terminated, and inode number, the inode's owner, size and rights, and the driver's functions; it sets
  no type flag, whatever the mode, and changes no byte outside of the node.\<close>

theorem initrd_node_contents:
  assumes "p \<noteq> 0" and "apart p 312 inode 128" and "apart p 312 direntry (8 + unat (mem s (direntry + 6)))"
  shows "\<exists>m'. initrd_node_from_file y inode direntry p s = Inr (None, s\<lparr>mem := m'\<rparr>) \<and>
    only_node p (mem s) m' \<and> describes y inode direntry p (mem s) m'"
  by (rule initrd_node_run [OF assms])

text \<open>A directory: mode \<open>040755\<close>, named by one full stop.\<close>

definition initrd_mem :: mem where
  "initrd_mem = (\<lambda>_. 0)(0x1000 := 0xED, 0x1001 := 0x41, 0x2006 := 1, 0x2008 := 0x2E)"

definition initrd0 :: machine where
  "initrd0 = machine0\<lparr>mem := initrd_mem\<rparr>"

definition code0 :: initrd_code where
  "code0 = \<lparr>read_at = 0x100100, write_at = 0x100110, open_at = 0x100120, close_at = 0x100130,
     readdir_at = 0x100140, finddir_at = 0x100150\<rparr>"


lemma initrd0_apart:
  "apart 0x3000 312 0x1000 128" "apart 0x3000 312 0x2000 (8 + unat (mem initrd0 (0x2000 + 6)))"
  by (simp_all add: apart_def initrd0_def initrd_mem_def)

theorem initrd_node_contents_witness:
  "\<exists>s'. initrd_node_from_file code0 0x1000 0x2000 0x3000 initrd0 = Inr (None, s') \<and>
    mem s' 0x3000 = 0x2E \<and> mem s' 0x3001 = 0 \<and> node_word (mem s') 0x3000 ''flags'' = 0 \<and>
    node_word (mem s') 0x3000 ''mask'' = 0x1ED"
proof -
  obtain m' where m': "initrd_node_from_file code0 0x1000 0x2000 0x3000 initrd0 = Inr (None, initrd0\<lparr>mem := m'\<rparr>)"
    "describes code0 0x1000 0x2000 0x3000 (mem initrd0) m'"
    using initrd_node_contents [OF _ initrd0_apart] by auto
  have l: "load16 (mem initrd0) 0x1000 = 0x41ED" by (simp add: initrd0_def initrd_mem_def load16_def)
  have "mem initrd0 (0x2000 + 6) = 1" "mem initrd0 0x2008 = 0x2E" by (simp_all add: initrd0_def initrd_mem_def)
  with m'(2) l have "m' 0x3000 = 0x2E" "m' 0x3001 = 0" "node_word m' 0x3000 ''flags'' = 0"
    "node_word m' 0x3000 ''mask'' = 0x1ED"
    by (simp_all add: describes_def Let_def)
  with m'(1) show ?thesis by auto
qed

text \<open>C39. On a node that \<open>initrd_node_from_file\<close> has filled - also from the inode of a directory - the virtual file
  system reads and writes 0 bytes, opens and closes without effect, and finds neither an entry nor a file:
  \<open>readdir_fs\<close> and \<open>finddir_fs\<close> return NULL before they call the driver, since no type flag is set.\<close>

theorem initrd_node_inert:
  assumes "p \<noteq> 0" and "apart p 312 inode 128" and "apart p 312 direntry (8 + unat (mem s (direntry + 6)))"
    and "distinct [read_at y, write_at y, open_at y, close_at y, readdir_at y, finddir_at y]"
  shows "\<exists>s'. initrd_node_from_file y inode direntry p s = Inr (None, s') \<and>
    read_fs (initrd_call y) p offset sz buffer s' = Inr (0, s') \<and>
    write_fs (initrd_call y) p offset sz buffer s' = Inr (0, s') \<and>
    open_fs (initrd_call y) p rd wr s' = Inr ((), s') \<and> close_fs (initrd_call y) p s' = Inr ((), s') \<and>
    readdir_fs call p index s' = Inr (0, s') \<and> finddir_fs call p name s' = Inr (0, s')"
proof -
  obtain m' where m': "initrd_node_from_file y inode direntry p s = Inr (None, s\<lparr>mem := m'\<rparr>)"
    "describes y inode direntry p (mem s) m'"
    using initrd_node_run [OF assms(1-3)] by blast
  from m'(2) have "node_word m' p ''flags'' = 0" "node_word m' p ''read'' = read_at y" "node_word m' p ''write'' = write_at y"
    "node_word m' p ''open'' = open_at y" "node_word m' p ''close'' = close_at y"
    by (simp_all add: describes_def Let_def)
  note w = this and c = initrd_call_code [OF assms(4)]
  show ?thesis
    by (intro exI [of _ "s\<lparr>mem := m'\<rparr>"])
      (simp add: m'(1) w c read_fs_def write_fs_def open_fs_def close_fs_def readdir_fs_def finddir_fs_def FS_DIRECTORY_def)
qed

theorem initrd_node_inert_witness:
  "\<exists>s'. initrd_node_from_file code0 0x1000 0x2000 0x3000 initrd0 = Inr (None, s') \<and>
    finddir_fs (initrd_call code0) 0x3000 0x2008 s' = Inr (0, s')"
proof -
  have "(0x3000 :: u32) \<noteq> 0"
    "distinct [read_at code0, write_at code0, open_at code0, close_at code0, readdir_at code0, finddir_at code0]"
    by (simp_all add: code0_def)
  from initrd_node_inert [OF this(1) initrd0_apart this(2)] show ?thesis by blast
qed

text \<open>\<open>finddir_fs\<close> tests the wrong pointer: on a directory it calls through NULL exactly when \<open>finddir\<close> is
  NULL and \<open>readdir\<close> is not, and without \<open>readdir\<close> it returns NULL even if there is a \<open>finddir\<close>.\<close>

theorem finddir_tests_readdir:
  assumes "node_word (mem s) p ''flags'' AND 7 = FS_DIRECTORY"
    and "\<And>f. call f [p, name] s = Inl Null_call \<longleftrightarrow> f = 0"
  shows "(finddir_fs call p name s = Inl Null_call \<longleftrightarrow>
      node_word (mem s) p ''finddir'' = 0 \<and> node_word (mem s) p ''readdir'' \<noteq> 0) \<and>
    (node_word (mem s) p ''readdir'' = 0 \<longrightarrow> finddir_fs call p name s = Inr (0, s))"
  using assms by (auto simp: finddir_fs_def)

definition half_node :: mem where
  "half_node = set_word fs_node_layout 0x3000 ''readdir'' 0x100140 (set_word fs_node_layout 0x3000 ''flags'' 2 (\<lambda>_. 0))"

theorem finddir_tests_readdir_witness:
  "finddir_fs (\<lambda>f args s. if f = 0 then Inl Null_call else Inr (1, s)) 0x3000 0x2008 (machine0\<lparr>mem := half_node\<rparr>)
    = Inl Null_call"
proof -
  have w: "node_word half_node 0x3000 ''flags'' = 2" "node_word half_node 0x3000 ''readdir'' = 0x100140"
    by (simp_all add: half_node_def get_set_word offsets)
  have "node_word half_node 0x3000 ''finddir'' = node_word (\<lambda>_. 0) 0x3000 ''finddir''"
    by (simp add: half_node_def get_set_word offsets)
  also have "\<dots> = 0" by (simp add: get_word_def load32_def)
  finally have f: "node_word half_node 0x3000 ''finddir'' = 0" .
  have "node_word (mem (machine0\<lparr>mem := half_node\<rparr>)) 0x3000 ''flags'' AND 7 = FS_DIRECTORY" by (simp add: w FS_DIRECTORY_def)
  from finddir_tests_readdir [OF this, of "\<lambda>f args s. if f = 0 then Inl Null_call else Inr (1, s)" "0x2008"]
  show ?thesis by (simp add: w f)
qed

end
