(* ===== verification/Boot.thy ===== *)
theory Boot
  imports Structs Paging
begin

text \<open>
  The kernel put together (\<open>main.c\<close>, \<open>core/multiboot.c\<close>): the boot sequence, the report of the multiboot
  header.
\<close>

section \<open>The multiboot header\<close>

definition multiboot_layout :: layout where
  "multiboot_layout = [(''flags'', 4), (''mem_lower'', 4), (''mem_upper'', 4), (''boot_device'', 4), (''cmdline'', 4),
     (''mods_count'', 4), (''mods_addr'', 4), (''num'', 4), (''size'', 4), (''addr'', 4), (''shndx'', 4),
     (''mmap_length'', 4), (''mmap_addr'', 4), (''drives_length'', 4), (''drives_addr'', 4), (''config_table'', 4),
     (''boot_loader_name'', 4), (''apm_table'', 4), (''vbe_control_info'', 4), (''vbe_mode_info'', 4),
     (''vbe_mode'', 4), (''vbe_interface_seg'', 4), (''vbe_interface_off'', 4), (''vbe_interface_len'', 4)]"

abbreviation mb_word :: "mem \<Rightarrow> u32 \<Rightarrow> string \<Rightarrow> u32" where
  "mb_word \<equiv> get_word multiboot_layout"

definition copy_multiboot :: "u32 \<Rightarrow> 'a mm_scheme \<Rightarrow> u32 \<times> 'a mm_scheme" where
  "copy_multiboot mboot_ptr s =
     (let (new_header, s1) = kmalloc (of_nat (sizeof multiboot_layout)) s
      in (new_header, s1\<lparr>mem := memcpy (mem s1) new_header mboot_ptr (of_nat (sizeof multiboot_layout))\<rparr>))"

text \<open>
  A \<open>char *\<close> argument: the bytes at its address. \<open>kprintf\<close> has overflown its buffer of 1024 bytes if
  there is no terminator among the first 1024.
\<close>

definition c_string :: "mem \<Rightarrow> u32 \<Rightarrow> u8 list" where
  "c_string m a = map (\<lambda>i. m (a + of_nat i)) [0..<1024]"

text \<open>The 24 lines \<open>kprintf("<label>0x%x<end>", mboot_ptr-><field>)\<close>.\<close>

definition dump_lines :: "(string \<times> string \<times> string) list" where
  "dump_lines =
     [(''Flags : '', ''flags'', '' ''), (''Mem Lo: '', ''mem_lower'', '' ''), (''Mem Hi: '', ''mem_upper'', '' ''),
      (''Boot d: '', ''boot_device'', nl), (''cmdlin: '', ''cmdline'', '' ''), (''Mods  : '', ''mods_count'', '' ''),
      (''Addr  : '', ''mods_addr'', '' ''), (''Syms  : '', ''num'', nl), (''Syms  : '', ''size'', '' ''),
      (''Syms  : '', ''addr'', '' ''), (''Syms  : '', ''shndx'', '' ''), (''MMap  : '', ''mmap_length'', nl),
      (''Addr  : '', ''mmap_addr'', '' ''), (''Drives: '', ''drives_length'', '' ''), (''Addr  : '', ''drives_addr'', '' ''),
      (''Config: '', ''config_table'', nl), (''Loader: '', ''boot_loader_name'', '' ''), (''APM   : '', ''apm_table'', '' ''),
      (''VBE Co: '', ''vbe_control_info'', '' ''), (''VBE Mo: '', ''vbe_mode_info'', nl), (''VBE In: '', ''vbe_mode'', '' ''),
      (''VBE se: '', ''vbe_interface_seg'', '' ''), (''VBE of: '', ''vbe_interface_off'', '' ''),
      (''VBE le: '', ''vbe_interface_len'', nl)]"

definition dump_line :: "u32 \<Rightarrow> string \<times> string \<times> string \<Rightarrow> 'a kio_scheme \<Rightarrow> (unit, 'a kio_scheme) result" where
  "dump_line mboot_ptr = (\<lambda>(label, field, end) s.
     kprintf (c_lit (label @ ''0x%x'' @ end)) [Karg_word (mb_word (mem s) mboot_ptr field)] s)"

text \<open>The last lines of the report: who started the kernel, and how much memory there is.\<close>

definition dump_summary :: "u32 \<Rightarrow> 'a kio_scheme \<Rightarrow> (unit, 'a kio_scheme) result" where
  "dump_summary mboot_ptr s =
     res_bind (kprintf (c_lit (''Started with: %s'' @ nl))
        [Karg_str (c_string (mem s) (mb_word (mem s) mboot_ptr ''cmdline''))] s) (\<lambda>(_, s1).
     res_bind (kprintf (c_lit (''Booted from: %s'' @ nl))
        [Karg_str (c_string (mem s1) (mb_word (mem s1) mboot_ptr ''boot_loader_name''))] s1) (\<lambda>(_, s2).
     res_bind (kprintf (c_lit (''%dkB lower memory'' @ nl)) [Karg_word (mb_word (mem s2) mboot_ptr ''mem_lower'')] s2) (\<lambda>(_, s3).
     res_bind (kprintf (c_lit ''%dkB higher memory '') [Karg_word (mb_word (mem s3) mboot_ptr ''mem_upper'')] s3) (\<lambda>(_, s4).
     let mem_mb = mb_word (mem s4) mboot_ptr ''mem_upper'' div 1024 in
     kprintf (c_lit (''(%dMB)'' @ nl)) [Karg_word mem_mb] s4))))"

definition dump_multiboot :: "u32 \<Rightarrow> 'a kio_scheme \<Rightarrow> (unit, 'a kio_scheme) result" where
  "dump_multiboot mboot_ptr s =
     (let s1 = resettextcolor s in
      res_bind (kprintf (c_lit (''MULTIBOOT header at 0x%x:'' @ nl)) [Karg_word mboot_ptr] s1) (\<lambda>(_, s2).
      let s3 = settextcolor 7 0 s2 in
      res_bind (res_fold (dump_line mboot_ptr) dump_lines s3) (\<lambda>(_, s4).
      dump_summary mboot_ptr (resettextcolor s4))))"

section \<open>The boot sequence\<close>

definition KERNEL_UNAME :: string where "KERNEL_UNAME = ''PRos''"
definition KERNEL_VERSION :: string where "KERNEL_VERSION = ''0.0.1''"

text \<open>The part of \<open>main\<close> before paging: the header is saved, the tables and the devices are set up.\<close>

definition main_devices :: "u32 \<Rightarrow> 'a mm_scheme \<Rightarrow> (u32, 'a mm_scheme) result" where
  "main_devices mboot_ptr s =
     (let s1 = (if 0 < mb_word (mem s) mboot_ptr ''mods_count''
                then kmalloc_startat (load32 (mem s) (mb_word (mem s) mboot_ptr ''mods_addr'' + 4)) s else s);
          (mboot_ptr1, s2) = copy_multiboot mboot_ptr s1
      in res_bind (gdt_install s2) (\<lambda>(_, s3).
         let s4 = idt_install s3;
             s5 = isrs_install s4;
             s6 = irq_install s5;
             s7 = init_video s6
         in res_bind (timer_install s7) (\<lambda>(_, s8).
            res_bind (keyboardInstall s8) (\<lambda>(_, s9).
            Inr (mboot_ptr1, s9)))))"

definition main :: "u32 \<Rightarrow> 'a mm_scheme \<Rightarrow> (u32, 'a mm_scheme) result" where
  "main mboot_ptr s =
     res_bind (main_devices mboot_ptr s) (\<lambda>(mboot_ptr1, s1).
     res_bind (paging_install (mb_word (mem s1) mboot_ptr1 ''mem_upper'') s1) (\<lambda>(_, s2).
     let s3 = heap_install s2;
         s4 = settextcolor 12 0 s3
     in res_bind (kprintf (c_lit (''[%s %s]'' @ nl)) [Karg_str (c_lit KERNEL_UNAME), Karg_str (c_lit KERNEL_VERSION)] s4)
       (\<lambda>(_, s5).
        res_bind (dump_multiboot mboot_ptr1 s5) (\<lambda>(_, s6). Inr (0, s6)))))"

section \<open>Printing the header\<close>

text \<open>Printing changes the text memory only, so what lies apart from it can be read before or after.\<close>

definition clear_of_text :: "'a console_scheme \<Rightarrow> u32 \<Rightarrow> nat \<Rightarrow> bool" where
  "clear_of_text s a n \<longleftrightarrow> apart (textmemptr s) 4000 a n \<and> n \<le> 4096"

text \<open>Of the kernel's variables only the cursor, the colour and the print buffer change, and the interrupt controllers get nothing.\<close>

definition console_only :: "'a kio_scheme \<Rightarrow> 'a kio_scheme \<Rightarrow> bool" where
  "console_only s t \<longleftrightarrow> spares_pics s t \<and> (\<exists>k b m p x y a.
     t = s\<lparr>kptr := k, kbuf := b, mem := m, port_out := p, csr_x := x, csr_y := y, attrib := a\<rparr>)"

lemma console_onlyI:
  assumes "t = s\<lparr>kptr := kptr t, kbuf := kbuf t, mem := mem t, port_out := port_out t, csr_x := csr_x t, csr_y := csr_y t,
    attrib := attrib t\<rparr>" and "spares_pics s t"
  shows "console_only s t"
  using assms unfolding console_only_def by blast

lemma console_only_trans: "console_only s t \<Longrightarrow> console_only t u \<Longrightarrow> console_only s u"
  unfolding console_only_def
  by (elim conjE exE, intro conjI, erule (1) spares_pics_trans, intro exI) (rule kio.equality; simp)

lemma console_only_part: "kio_part s t \<Longrightarrow> console_only s t"
  unfolding kio_part_def by (elim conjE exE, rule console_onlyI) (rule kio.equality; simp)

lemma console_only_recolour: "console_only s (settextcolor f b s)"
  by (rule console_onlyI, rule kio.equality) (simp_all add: settextcolor_def spares_pics_same)

lemma console_only_text: "console_only s t \<Longrightarrow> textmemptr t = textmemptr s"
  by (auto simp: console_only_def)

definition printed :: "'a kio_scheme \<Rightarrow> 'a kio_scheme \<Rightarrow> bool" where
  "printed s t \<longleftrightarrow> kio_ok t \<and> textmemptr t = textmemptr s \<and> outside (textmemptr s) (mem s) (mem t) \<and> console_only s t"

lemma printed_says: "printed s t \<Longrightarrow> says t cs u \<Longrightarrow> printed s u"
  using kio_part_frame(3) [of t u]
  by (auto simp: printed_def says_def intro: outside_trans console_only_trans console_only_part)

lemma printed_keeps:
  assumes "printed s t"
  shows "clear_of_text s a n \<Longrightarrow> clear_of_text t a n"
    "clear_of_text s a n \<Longrightarrow> i < n \<Longrightarrow> mem t (a + of_nat i) = mem s (a + of_nat i)"
    "clear_of_text s a n \<Longrightarrow> offset_of l f + 4 \<le> n \<Longrightarrow> get_word l (mem t) a f = get_word l (mem s) a f"
  using reads_apart [of 4000 "textmemptr s" "mem t" "mem s" a n] assms
  by (simp_all add: printed_def outside_def clear_of_text_def get_word_def field_at_def)

lemma printed_refl: "kio_ok s \<Longrightarrow> printed s s"
  by (simp add: printed_def console_onlyI spares_pics_same)

lemma printed_recolour: "printed s t \<Longrightarrow> printed s (settextcolor f b t)"
  using console_only_trans [OF _ console_only_recolour, of s t f b]
  by (simp add: printed_def kio_ok_def console_ok_def settextcolor_def)

lemma recolour:
  "kio_ok s \<Longrightarrow> kio_ok (settextcolor f b s)"
  "screen_of (settextcolor f b s) = (screen_of s)\<lparr>colour := push_bit 4 (ucast b) OR (ucast f AND 0x0F)\<rparr>"
  "clear_of_text (settextcolor f b s) a n = clear_of_text s a n" "mem (settextcolor f b s) = mem s"
  "textmemptr (settextcolor f b s) = textmemptr s"
  by (simp_all add: kio_ok_def console_ok_def settextcolor_def screen_of_def clear_of_text_def)

lemma nl_chars: "c_chars nl = [0x0A]"
  by (simp add: c_chars_def nl_def)

lemma says_nothing: "kio_ok s \<Longrightarrow> says s [] s"
  using kio_partI [where s = s and s' = s and k = "kptr s" and b = "kbuf s" and m = "mem s" and p = "port_out s" and x = "csr_x s" and y = "csr_y s"] by (simp add: says_def spares_pics_same)

text \<open>The 24 lines.\<close>

definition line_chars :: "mem \<Rightarrow> u32 \<Rightarrow> string \<times> string \<times> string \<Rightarrow> u8 list" where
  "line_chars m mb = (\<lambda>(label, field, end). c_chars label @ c_chars ''0x'' @ hex_chars (unat (mb_word m mb field)) @ c_chars end)"

definition line_plain :: "string \<times> string \<times> string \<Rightarrow> bool" where
  "line_plain = (\<lambda>(label, field, end). piece_ok (Lit (label @ ''0x'')) \<and> piece_ok (Lit end) \<and>
     length label + length end < 1000 \<and> offset_of multiboot_layout field + 4 \<le> 96)"

lemma dump_line_says:
  assumes "kio_ok s" and "line_plain x"
  shows "\<exists>s'. dump_line mb x s = Inr ((), s') \<and> says s (line_chars (mem s) mb x) s'"
proof -
  obtain l f e where x: "x = (l, f, e)" by (cases x)
  let ?ps = "[Lit (l @ ''0x''), Hex (mb_word (mem s) mb f), Lit e]"
  have ok: "list_all piece_ok ?ps" "sum_list (map piece_size ?ps) < 1024" using assms(2) by (simp_all add: line_plain_def x)
  have "c_lit (l @ ''0x%x'' @ e) = msg_fmt ?ps @ [0]" "msg_args ?ps = [Karg_word (mb_word (mem s) mb f)]"
    "msg_out ?ps = line_chars (mem s) mb x"
    by (simp_all add: c_lit_def c_chars_def line_chars_def x)
  then show ?thesis using message_says [OF assms(1) ok] by (simp add: dump_line_def x)
qed

lemma lines_cong:
  assumes "list_all line_plain xs"
    and "\<And>f. offset_of multiboot_layout f + 4 \<le> 96 \<Longrightarrow> mb_word m' mb f = mb_word m mb f"
  shows "concat (map (line_chars m' mb) xs) = concat (map (line_chars m mb) xs)"
  using assms by (induction xs) (auto simp: line_chars_def line_plain_def)

lemma dump_lines_says:
  assumes "kio_ok s" and "list_all line_plain xs" and "clear_of_text s mb 96"
  shows "\<exists>s'. res_fold (dump_line mb) xs s = Inr ((), s') \<and> says s (concat (map (line_chars (mem s) mb) xs)) s'"
  using assms
proof (induction xs arbitrary: s)
  case Nil
  then show ?case using says_nothing by auto
next
  case (Cons x xs)
  obtain s1 where s1: "dump_line mb x s = Inr ((), s1)" "says s (line_chars (mem s) mb x) s1"
    using dump_line_says [of s x mb] Cons.prems by auto
  have p: "printed s s1" using printed_says [OF printed_refl [OF Cons.prems(1)] s1(2)] .
  have "kio_ok s1" "clear_of_text s1 mb 96" using s1(2) printed_keeps(1) [OF p Cons.prems(3)] by (simp_all add: says_def)
  then obtain s2 where s2: "res_fold (dump_line mb) xs s1 = Inr ((), s2)"
    "says s1 (concat (map (line_chars (mem s1) mb) xs)) s2"
    using Cons.IH Cons.prems(2) by auto
  have "concat (map (line_chars (mem s1) mb) xs) = concat (map (line_chars (mem s) mb) xs)"
    by (rule lines_cong [OF _ printed_keeps(3) [OF p Cons.prems(3)]]) (use Cons.prems(2) in simp_all)
  then show ?case using s1 s2 says_trans [OF s1(2)] by auto
qed

lemma dump_lines_plain: "list_all line_plain dump_lines"
  by code_simp


text \<open>Strings of the boot loader, at most 900 characters long and clear of the text memory.\<close>

definition string_at :: "mem \<Rightarrow> u32 \<Rightarrow> u8 list" where
  "string_at m a = chars_upto_nul (c_string m a)"

definition boot_string :: "'a console_scheme \<Rightarrow> u32 \<Rightarrow> bool" where
  "boot_string s a \<longleftrightarrow> (\<exists>n < 900. mem s (a + of_nat n) = 0 \<and> clear_of_text s a (Suc n))"

lemma string_at_cong:
  assumes "n < 900" and "m (a + of_nat n) = 0" and "\<And>i. i \<le> n \<Longrightarrow> m' (a + of_nat i) = m (a + of_nat i)"
  shows "string_at m' a = string_at m a" "0 \<in> set (c_string m' a)" "length (string_at m' a) < 900"
proof -
  have "[0..<1024] = [0..<Suc n] @ [Suc n..<1024]" using assms(1) upt_add_eq_append [of 0 "Suc n" "1024 - Suc n"] by simp
  then have split: "c_string w a = map (\<lambda>i. w (a + of_nat i)) [0..<Suc n] @ map (\<lambda>i. w (a + of_nat i)) [Suc n..<1024]" for w
    unfolding c_string_def by (simp only: map_append)
  have up: "string_at w a = takeWhile (\<lambda>c. c \<noteq> 0) (map (\<lambda>i. w (a + of_nat i)) [0..<Suc n])" if "w (a + of_nat n) = 0" for w
    unfolding string_at_def chars_upto_nul_def split using that by (intro takeWhile_append1 [where x = 0]) force+
  have z: "m' (a + of_nat n) = 0" using assms(2,3) by simp
  have "map (\<lambda>i. m' (a + of_nat i)) [0..<Suc n] = map (\<lambda>i. m (a + of_nat i)) [0..<Suc n]" using assms(3) by simp
  then show "string_at m' a = string_at m a" by (simp only: up [of m] up [of m'] assms(2) z)
  show "0 \<in> set (c_string m' a)" unfolding split using z by force
  let ?xs = "map (\<lambda>i. m' (a + of_nat i)) [0..<Suc n]"
  have "takeWhile (\<lambda>c. c \<noteq> 0) ?xs \<noteq> ?xs" using z by (subst takeWhile_eq_all_conv) force
  then have "length (takeWhile (\<lambda>c. c \<noteq> 0) ?xs) \<noteq> length ?xs" by (metis takeWhile_eq_take take_all_iff order_refl)
  then have "length (string_at m' a) < Suc n"
    using length_takeWhile_le [of "\<lambda>c. c \<noteq> 0" ?xs] unfolding up [of m', OF z] by simp
  then show "length (string_at m' a) < 900" using assms(1) by simp
qed

lemma boot_string_kept:
  assumes "printed s t" and "boot_string s a"
  shows "boot_string t a" "string_at (mem t) a = string_at (mem s) a"
proof -
  obtain n where n: "n < 900" "mem s (a + of_nat n) = 0" "clear_of_text s a (Suc n)" using assms(2) by (auto simp: boot_string_def)
  have k: "mem t (a + of_nat i) = mem s (a + of_nat i)" if "i \<le> n" for i
    using printed_keeps(2) [OF assms(1) n(3)] that by simp
  show "string_at (mem t) a = string_at (mem s) a" by (rule string_at_cong(1) [where m = "mem s" and m' = "mem t", OF n(1,2) k])
  show "boot_string t a" using n k [of n] printed_keeps(1) [OF assms(1) n(3)] by (auto simp: boot_string_def)
qed

lemma say_string:
  assumes "kio_ok s" and "boot_string s a" and "piece_ok (Lit l)" and "length l < 100"
  shows "\<exists>s'. kprintf (c_lit (l @ ''%s'' @ nl)) [Karg_str (c_string (mem s) a)] s = Inr ((), s') \<and>
    says s (c_chars l @ string_at (mem s) a @ [0x0A]) s'"
proof -
  let ?ps = "[Lit l, Str (c_string (mem s) a), Lit nl]"
  obtain n where n: "n < 900" "mem s (a + of_nat n) = 0" using assms(2) by (auto simp: boot_string_def)
  note st = string_at_cong(2,3) [where m = "mem s" and m' = "mem s" and a = a, OF n(1,2) refl]
  have ok: "list_all piece_ok ?ps" using assms(3) st(1) by (simp add: nl_chars)
  have size: "sum_list (map piece_size ?ps) < 1024" using assms(4) st(2) by (simp add: string_at_def nl_def)
  have "c_lit (l @ ''%s'' @ nl) = msg_fmt ?ps @ [0]" "msg_args ?ps = [Karg_str (c_string (mem s) a)]"
    "msg_out ?ps = c_chars l @ string_at (mem s) a @ [0x0A]"
    by (simp_all add: c_lit_def c_chars_def nl_def string_at_def)
  with message_says [OF assms(1) ok size] show ?thesis by simp
qed

lemma say_number:
  assumes "kio_ok s" and "piece_ok (Lit l)" and "piece_ok (Lit e)" and "length l + length e < 1000"
  shows "\<exists>s'. kprintf (c_lit (l @ ''%d'' @ e)) [Karg_word w] s = Inr ((), s') \<and>
    says s (c_chars l @ dec_chars (unat w) @ c_chars e) s'"
proof -
  let ?ps = "[Lit l, Dec w, Lit e]"
  have ok: "list_all piece_ok ?ps" and size: "sum_list (map piece_size ?ps) < 1024" using assms(2-4) by simp_all
  have "c_lit (l @ ''%d'' @ e) = msg_fmt ?ps @ [0]" "msg_args ?ps = [Karg_word w]"
    "msg_out ?ps = c_chars l @ dec_chars (unat w) @ c_chars e"
    by (simp_all add: c_lit_def c_chars_def)
  with message_says [OF assms(1) ok size] show ?thesis by simp
qed

text \<open>
  What the report shows, in terms of the words at their offsets in the header: after the head a table of six rows
  of four cells, one for each of the 24 words in the order in which they lie in memory, with its label; then the strings whose
  addresses are at the offsets 16 (\<open>cmdline\<close>) and 64 (\<open>boot_loader_name\<close>) and the sizes at the offsets 4
  (\<open>mem_lower\<close>) and 8 (\<open>mem_upper\<close>).
\<close>

definition dump_head :: "u32 \<Rightarrow> u8 list" where
  "dump_head mb = c_chars ''MULTIBOOT header at 0x'' @ hex_chars (unat mb) @ c_chars (CHR '':'' # nl)"

definition dump_labels :: "string list" where
  "dump_labels =
     [''Flags '', ''Mem Lo'', ''Mem Hi'', ''Boot d'',
      ''cmdlin'', ''Mods  '', ''Addr  '', ''Syms  '',
      ''Syms  '', ''Syms  '', ''Syms  '', ''MMap  '',
      ''Addr  '', ''Drives'', ''Addr  '', ''Config'',
      ''Loader'', ''APM   '', ''VBE Co'', ''VBE Mo'',
      ''VBE In'', ''VBE se'', ''VBE of'', ''VBE le'']"

definition dump_cell :: "mem \<Rightarrow> u32 \<Rightarrow> nat \<Rightarrow> u8 list" where
  "dump_cell m mb k = c_chars (dump_labels ! k @ '': 0x'') @ hex_chars (unat (load32 m (mb + of_nat (4 * k)))) @
     [if k mod 4 = 3 then 0x0A else 0x20]"

definition dump_body :: "mem \<Rightarrow> u32 \<Rightarrow> u8 list" where
  "dump_body m mb = concat (map (dump_cell m mb) [0..<24])"

definition dump_tail :: "mem \<Rightarrow> u32 \<Rightarrow> u8 list" where
  "dump_tail m mb =
     c_chars ''Started with: '' @ string_at m (load32 m (mb + 16)) @ [0x0A] @
     c_chars ''Booted from: '' @ string_at m (load32 m (mb + 64)) @ [0x0A] @
     dec_chars (unat (load32 m (mb + 4))) @ c_chars (''kB lower memory'' @ nl) @
     dec_chars (unat (load32 m (mb + 8))) @ c_chars ''kB higher memory '' @
     c_chars ''('' @ dec_chars (unat (load32 m (mb + 8)) div 1024) @ c_chars (''MB)'' @ nl)"

definition header_screen :: "mem \<Rightarrow> u32 \<Rightarrow> screen \<Rightarrow> screen" where
  "header_screen m mb sc =
     (let sc1 = fold scr_putch (dump_head mb) (sc\<lparr>colour := 0x0F\<rparr>);
          sc2 = fold scr_putch (dump_body m mb) (sc1\<lparr>colour := 0x07\<rparr>)
      in fold scr_putch (dump_tail m mb) (sc2\<lparr>colour := 0x0F\<rparr>))"


text \<open>The lines of \<open>dump_multiboot\<close> are the cells of that table.\<close>

lemma dump_lines_cells:
  "map (\<lambda>(label, field, end). (label, offset_of multiboot_layout field, end)) dump_lines =
    map (\<lambda>k. (dump_labels ! k @ '': '', 4 * k, if k mod 4 = 3 then nl else '' '')) [0..<24]"
  by code_simp

lemma dump_body_lines: "concat (map (line_chars m mb) dump_lines) = dump_body m mb"
proof -
  let ?cell = "\<lambda>(label, i, end). c_chars label @ c_chars ''0x'' @ hex_chars (unat (load32 m (mb + of_nat i))) @ c_chars end"
  have "map (line_chars m mb) dump_lines =
      map ?cell (map (\<lambda>(label, field, end). (label, offset_of multiboot_layout field, end)) dump_lines)"
    by (auto simp: line_chars_def get_word_def field_at_def)
  also have "\<dots> = map (dump_cell m mb) [0..<24]"
    unfolding dump_lines_cells map_map by (rule map_cong) (simp_all add: dump_cell_def c_chars_def nl_def)
  finally show ?thesis by (simp only: dump_body_def)
qed

lemma say_head:
  assumes "kio_ok s"
  shows "\<exists>s'. kprintf (c_lit (''MULTIBOOT header at 0x%x:'' @ nl)) [Karg_word mb] s = Inr ((), s') \<and> says s (dump_head mb) s'"
proof -
  let ?ps = "[Lit ''MULTIBOOT header at 0x'', Hex mb, Lit (CHR '':'' # nl)]"
  have ok: "list_all piece_ok ?ps" by (simp add: c_chars_def nl_def)
  have size: "sum_list (map piece_size ?ps) < 1024" by (simp add: nl_def)
  have "c_lit (''MULTIBOOT header at 0x%x:'' @ nl) = msg_fmt ?ps @ [0]" "msg_args ?ps = [Karg_word mb]"
    "msg_out ?ps = dump_head mb"
    by (simp_all add: c_lit_def c_chars_def nl_def dump_head_def)
  with message_says [OF assms ok size] show ?thesis by simp
qed

lemma multiboot_offsets [offsets]:
  "offset_of multiboot_layout ''mem_lower'' = 4" "offset_of multiboot_layout ''mem_upper'' = 8"
  "offset_of multiboot_layout ''cmdline'' = 16" "offset_of multiboot_layout ''mods_count'' = 20"
  "offset_of multiboot_layout ''mods_addr'' = 24" "offset_of multiboot_layout ''boot_loader_name'' = 64"
  "sizeof multiboot_layout = 96"
  by (simp_all add: multiboot_layout_def sizeof_def)

lemma header_words:
  "mb_word m mb ''mem_lower'' = load32 m (mb + 4)" "mb_word m mb ''mem_upper'' = load32 m (mb + 8)"
  "mb_word m mb ''cmdline'' = load32 m (mb + 16)" "mb_word m mb ''boot_loader_name'' = load32 m (mb + 64)"
  by (simp_all add: get_word_def field_at_def multiboot_offsets)

lemma printed_words:
  assumes "printed s t" and "clear_of_text s mb 96" and "offset_of multiboot_layout f + 4 \<le> 96"
  shows "mb_word (mem t) mb f = mb_word (mem s) mb f"
  using printed_keeps(3) [OF assms(1) assms(2,3)] .

lemma dump_summary_says:
  assumes "kio_ok s" and "clear_of_text s mb 96"
    and "boot_string s (mb_word (mem s) mb ''cmdline'')" and "boot_string s (mb_word (mem s) mb ''boot_loader_name'')"
  shows "\<exists>s'. dump_summary mb s = Inr ((), s') \<and> says s (dump_tail (mem s) mb) s'"
proof -
  let ?w = "mb_word (mem s) mb"
  let ?cmd = "?w ''cmdline''" and ?ldr = "?w ''boot_loader_name''" and ?lo = "?w ''mem_lower''" and ?hi = "?w ''mem_upper''"
  obtain s1 where s1: "kprintf (c_lit (''Started with: %s'' @ nl)) [Karg_str (c_string (mem s) ?cmd)] s = Inr ((), s1)"
    "says s (c_chars ''Started with: '' @ string_at (mem s) ?cmd @ [0x0A]) s1"
    using say_string [OF assms(1,3), of "''Started with: ''"] by (auto simp: c_chars_def)
  note p1 = printed_says [OF printed_refl [OF assms(1)] s1(2)]
  obtain s2 where s2: "kprintf (c_lit (''Booted from: %s'' @ nl)) [Karg_str (c_string (mem s1) ?ldr)] s1 = Inr ((), s2)"
    "says s1 (c_chars ''Booted from: '' @ string_at (mem s1) ?ldr @ [0x0A]) s2"
    using say_string [of s1 ?ldr "''Booted from: ''"] boot_string_kept(1) [OF p1 assms(4)] p1 by (auto simp: printed_def c_chars_def)
  note p2 = printed_says [OF p1 s2(2)]
  obtain s3 where s3: "kprintf (c_lit (''%dkB lower memory'' @ nl)) [Karg_word ?lo] s2 = Inr ((), s3)"
    "says s2 (dec_chars (unat ?lo) @ c_chars (''kB lower memory'' @ nl)) s3"
    using say_number [of s2 "[]" "''kB lower memory'' @ nl" ?lo] p2 by (auto simp: printed_def c_chars_def nl_def)
  note p3 = printed_says [OF p2 s3(2)]
  obtain s4 where s4: "kprintf (c_lit ''%dkB higher memory '') [Karg_word ?hi] s3 = Inr ((), s4)"
    "says s3 (dec_chars (unat ?hi) @ c_chars ''kB higher memory '') s4"
    using say_number [of s3 "[]" "''kB higher memory ''" ?hi] p3 by (auto simp: printed_def c_chars_def)
  note p4 = printed_says [OF p3 s4(2)]
  obtain s5 where s5: "kprintf (c_lit (''(%dMB)'' @ nl)) [Karg_word (?hi div 1024)] s4 = Inr ((), s5)"
    "says s4 (c_chars ''('' @ dec_chars (unat (?hi div 1024)) @ c_chars (''MB)'' @ nl)) s5"
    using say_number [of s4 "''(''" "''MB)'' @ nl" "?hi div 1024"] p4 by (auto simp: printed_def c_chars_def nl_def)
  have w: "mb_word (mem s1) mb ''boot_loader_name'' = ?ldr" "mb_word (mem s2) mb ''mem_lower'' = ?lo"
    "mb_word (mem s3) mb ''mem_upper'' = ?hi" "mb_word (mem s4) mb ''mem_upper'' = ?hi"
    by (simp_all add: printed_words [OF _ assms(2)] p1 p2 p3 p4 offsets)
  have "says s (dump_tail (mem s) mb) s5"
    using says_trans [OF says_trans [OF says_trans [OF says_trans [OF s1(2) s2(2)] s3(2)] s4(2)] s5(2)]
      boot_string_kept(2) [OF p1 assms(4)]
    by (simp add: dump_tail_def unat_div header_words [symmetric])
  moreover have "dump_summary mb s = Inr ((), s5)"
    unfolding dump_summary_def Let_def by (simp only: s1(1) s2(1) s3(1) s4(1) s5(1) w res_bind_simps prod.case)
  ultimately show ?thesis by blast
qed

lemma dump_multiboot_run:
  assumes "kio_ok s" and "clear_of_text s mb 96"
    and "boot_string s (mb_word (mem s) mb ''cmdline'')" and "boot_string s (mb_word (mem s) mb ''boot_loader_name'')"
  shows "\<exists>s'. dump_multiboot mb s = Inr ((), s') \<and> screen_of s' = header_screen (mem s) mb (screen_of s) \<and>
    kio_ok s' \<and> outside (textmemptr s) (mem s) (mem s') \<and> console_only s s'"
proof -
  let ?m = "mem s"
  define s1 where "s1 = resettextcolor s"
  have p1: "printed s s1" unfolding s1_def resettextcolor_def using printed_recolour printed_refl assms(1) by blast
  obtain s2 where s2: "kprintf (c_lit (''MULTIBOOT header at 0x%x:'' @ nl)) [Karg_word mb] s1 = Inr ((), s2)"
    "says s1 (dump_head mb) s2"
    using say_head [of s1 mb] p1 by (auto simp: printed_def)
  define s3 where "s3 = settextcolor 7 0 s2"
  have p3: "printed s s3" unfolding s3_def by (rule printed_recolour [OF printed_says [OF p1 s2(2)]])
  obtain s4 where s4: "res_fold (dump_line mb) dump_lines s3 = Inr ((), s4)" "says s3 (dump_body (mem s3) mb) s4"
    using dump_lines_says [OF _ dump_lines_plain printed_keeps(1) [OF p3 assms(2)]] p3 by (auto simp: printed_def dump_body_lines)
  have body: "dump_body (mem s3) mb = dump_body ?m mb"
    unfolding dump_body_lines [symmetric] by (rule lines_cong [OF dump_lines_plain printed_words [OF p3 assms(2)]])
  define s5 where "s5 = resettextcolor s4"
  have p5: "printed s s5" unfolding s5_def resettextcolor_def by (rule printed_recolour [OF printed_says [OF p3 s4(2)]])
  have w: "mb_word (mem s5) mb ''cmdline'' = mb_word ?m mb ''cmdline''"
    "mb_word (mem s5) mb ''boot_loader_name'' = mb_word ?m mb ''boot_loader_name''"
    by (simp_all add: printed_words [OF p5 assms(2)] offsets)
  obtain s6 where s6: "dump_summary mb s5 = Inr ((), s6)" "says s5 (dump_tail (mem s5) mb) s6"
    using dump_summary_says [of s5 mb] printed_keeps(1) [OF p5 assms(2)] boot_string_kept(1) [OF p5 assms(3)]
      boot_string_kept(1) [OF p5 assms(4)] p5
    by (auto simp: printed_def w)
  have tail: "dump_tail (mem s5) mb = dump_tail ?m mb"
    by (simp add: dump_tail_def header_words [symmetric] printed_words [OF p5 assms(2)] offsets boot_string_kept(2) [OF p5] assms(3,4))
  have "dump_multiboot mb s = Inr ((), s6)"
    unfolding dump_multiboot_def Let_def s1_def [symmetric]
    by (simp only: s2(1) s3_def [symmetric] s4(1) s5_def [symmetric] s6(1) res_bind_simps prod.case)
  moreover have "screen_of s6 = header_screen ?m mb (screen_of s)"
    using s6(2) [unfolded tail] s4(2) [unfolded body] s2(2)
    by (simp add: says_def header_screen_def Let_def s1_def s3_def s5_def resettextcolor_def recolour)
  ultimately show ?thesis using printed_says [OF p5 s6(2)] by (auto simp: printed_def)
qed

text \<open>C40. The report of the multiboot header, on any memory whose header and strings lie apart from the text memory:
  it prints the address of the header in white; then in grey, in hexadecimal and each with its label, the 24 words of the
  header in the order in which they lie in memory, four to a line; and in white the command line, the name of the loader
  and the two memory sizes in decimal, which are the words at the offsets the multiboot standard gives them. It
  always returns, writes no memory but the screen's, and changes no variables but the console's.\<close>

theorem dump_multiboot_prints:
  assumes "kio_ok s" and "clear_of_text s mb 96"
    and "boot_string s (load32 (mem s) (mb + 16))" and "boot_string s (load32 (mem s) (mb + 64))"
  shows "\<exists>s'. dump_multiboot mb s = Inr ((), s') \<and> screen_of s' = header_screen (mem s) mb (screen_of s) \<and>
    kio_ok s' \<and> outside (textmemptr s) (mem s) (mem s') \<and> console_only s s'"
  by (rule dump_multiboot_run [OF assms(1,2) assms(3,4) [folded header_words]])

text \<open>A header at \<open>0x9000\<close> with the command line \<open>PR\<close> at \<open>0x8000\<close>.\<close>

definition boot0 :: mm where
  "boot0 = mm0\<lparr>mem := (\<lambda>_. 0)(0x8000 := 0x50, 0x8001 := 0x52, 0x9011 := 0x80)\<rparr>"

theorem dump_multiboot_prints_witness:
  "\<exists>s'. dump_multiboot 0x9000 boot0 = Inr ((), s') \<and>
    screen_of s' = header_screen (mem boot0) 0x9000 (screen_of boot0) \<and>
    string_at (mem boot0) (load32 (mem boot0) 0x9010) = [0x50, 0x52]"
proof -
  have ok: "kio_ok boot0" using mm0_kio_ok by (simp add: boot0_def kio_ok_def console_ok_def)
  have tm: "textmemptr boot0 = 0xB8000" by (simp add: boot0_def mm0_def kbd.defs kbd0_def timer.defs timer0_def
        intr.defs intr0_def desc.defs desc0_def kio.defs kio0_def console.defs console0_def machine.defs machine0_def)
  have w: "load32 (mem boot0) (0x9000 + 16) = 0x8000" "load32 (mem boot0) (0x9000 + 64) = 0"
    by (simp_all add: boot0_def load32_def)
  have hd: "clear_of_text boot0 0x9000 96" by (simp add: clear_of_text_def tm apart_def)
  have "clear_of_text boot0 0x8000 (Suc 2)" "clear_of_text boot0 0 (Suc 0)" by (simp_all add: clear_of_text_def tm apart_def)
  moreover have "mem boot0 (0x8000 + of_nat 2) = 0" "mem boot0 (0 + of_nat 0) = 0" by (simp_all add: boot0_def)
  moreover have "(2 :: nat) < 900" "(0 :: nat) < 900" by simp_all
  ultimately have "boot_string boot0 (load32 (mem boot0) (0x9000 + 16))"
    "boot_string boot0 (load32 (mem boot0) (0x9000 + 64))"
    unfolding boot_string_def w by blast+
  from dump_multiboot_prints [OF ok hd this] obtain s' where
    "dump_multiboot 0x9000 boot0 = Inr ((), s')" "screen_of s' = header_screen (mem boot0) 0x9000 (screen_of boot0)" by blast
  moreover have "string_at (mem boot0) 0x8000 = [0x50, 0x52]"
  proof -
    have "[0..<1024] = [0..<3] @ [3..<1024]" using upt_add_eq_append [of 0 3 1021] by (simp del: upt_rec_numeral)
    moreover have "[0..<3] = [0, 1, 2]" by (simp add: upt_rec)
    ultimately show ?thesis by (simp add: string_at_def c_string_def chars_upto_nul_def boot0_def del: upt_rec_numeral)
  qed
  ultimately show ?thesis using w(1) by simp
qed

end
