(* ===== verification/System.thy ===== *)
theory System
  imports Boot
begin

text \<open>
  The running kernel: a step is an interrupt of the timer or of the keyboard, delivered by the interrupt
  controllers to the dispatcher of \<open>core/irq.c\<close>, which calls the handler that the boot sequence installed.
\<close>

section \<open>The ports\<close>

lemma keyboard_handler_video: "spares_pics s (keyboard_handler s)"
proof -
  obtain b t where bt: "inportb 0x60 s = (b, t)" by (cases "inportb 0x60 s")
  then have t: "spares_pics s t" by (auto simp: inportb_def intro: spares_pics_same)
  have "spares_pics t (call_key f b t)" for f
    by (cases f) (auto simp: norm_prints shft_def altk_def ctlk_def func_def intro: fold_putch_video spares_pics_same simp del: fold_simps)
  then show ?thesis using t bt by (auto simp: keyboard_handler_def split: option.split intro: spares_pics_trans)
qed

section \<open>Steps\<close>

text \<open>The functions behind the handlers; \<open>timer_handler\<close> and \<open>keyboard_handler\<close> do not look at the registers.\<close>

fun kernel_call :: "handler \<Rightarrow> regs \<Rightarrow> 'a mm_scheme \<Rightarrow> (unit, 'a mm_scheme) result" where
  "kernel_call Timer_handler r s = Inr ((), timer_handler s)"
| "kernel_call Keyboard_handler r s = Inr ((), keyboard_handler s)"
| "kernel_call Page_fault r s = page_fault r s"


datatype event = Tick | Key

fun line_of :: "event \<Rightarrow> nat" where
  "line_of Tick = 0"
| "line_of Key = 1"

text \<open>
  The state is the kernel's and that of the two controllers. A controller that has no interrupt in service
  delivers one, on the vector its initialisation gave it; the handler runs, and the controllers see what it wrote.
\<close>

inductive kernel_step :: "event \<Rightarrow> 'a mm_scheme \<times> pic \<times> pic \<Rightarrow> 'a mm_scheme \<times> pic \<times> pic \<Rightarrow> bool" where
  "kernel_step e (s, mv) (s', pics (drop (length (port_out s)) (port_out s')) (deliver (line_of e) mv))"
    if "idle_pics mv" and "int_no r = of_nat (line_vector mv (line_of e))" and "irq_handler kernel_call r s = Inr ((), s')"

inductive_cases kernel_stepE: "kernel_step e (s, mv) y"

inductive kernel_run :: "event list \<Rightarrow> 'a mm_scheme \<times> pic \<times> pic \<Rightarrow> 'a mm_scheme \<times> pic \<times> pic \<Rightarrow> bool" where
  run_Nil: "kernel_run [] x x"
| run_Cons: "kernel_step e x y \<Longrightarrow> kernel_run es y z \<Longrightarrow> kernel_run (e # es) x z"

inductive_simps kernel_run_simps [simp]: "kernel_run [] x y" "kernel_run (e # es) x y"

text \<open>What the boot sequence sets up and every step needs and keeps.\<close>

definition running :: "'a mm_scheme \<times> pic \<times> pic \<Rightarrow> bool" where
  "running = (\<lambda>(s, mv). length (irq_routines s) = 16 \<and> irq_routines s ! 0 = Some Timer_handler \<and>
     irq_routines s ! 1 = Some Keyboard_handler \<and> console_ok s \<and> idle_pics mv \<and> vector_base (fst mv) = 0x20)"


fun handle :: "event \<Rightarrow> 'a mm_scheme \<Rightarrow> 'a mm_scheme" where
  "handle Tick s = timer_handler s"
| "handle Key s = keyboard_handler s"

definition served :: "event \<Rightarrow> 'a mm_scheme \<Rightarrow> 'a mm_scheme" where
  "served e s = (handle e s)\<lparr>port_out := port_out (handle e s) @ eoi_writes (line_of e)\<rparr>"

lemma handle_video: "spares_pics s (handle e s)"
  by (cases e) (auto simp: timer_handler_run keyboard_handler_video intro: spares_pics_same)

lemma served_pics:
  assumes "idle_pics mv"
  shows "pics (drop (length (port_out s)) (port_out (served e s))) (deliver (line_of e) mv) = mv"
proof -
  obtain w where w: "port_out (handle e s) = port_out s @ w" "other_writes w" using handle_video [of s e] by (auto simp: spares_pics_def)
  then have "drop (length (port_out s)) (port_out (served e s)) = w @ eoi_writes (line_of e)" by (simp add: served_def)
  then show ?thesis using pics_video [OF w(2)] eoi_restores [OF assms] by (simp add: pics_append)
qed

lemma irq_serves:
  assumes "running (s, mv)" and "int_no r = of_nat (line_vector mv (line_of e))"
  shows "irq_handler kernel_call r s = Inr ((), served e s)"
proof -
  have "int_no r = of_nat (32 + line_of e)" using assms by (cases e) (auto simp: running_def line_vector_def)
  then show ?thesis
    using assms(1) irq_handler_run [of "line_of e" r s kernel_call "handle e s"]
    by (cases e) (auto simp: running_def served_def)
qed

text \<open>Under the invariant a step is a function, and there is one for each event.\<close>

lemma kernel_step_iff:
  assumes "running (s, mv)"
  shows "kernel_step e (s, mv) y \<longleftrightarrow> y = (served e s, mv)"
proof
  assume "kernel_step e (s, mv) y"
  then show "y = (served e s, mv)"
  proof (rule kernel_stepE)
    fix r s'
    assume a: "y = (s', pics (drop (length (port_out s)) (port_out s')) (deliver (line_of e) mv))" "idle_pics mv"
      "int_no r = of_nat (line_vector mv (line_of e))" "irq_handler kernel_call r s = Inr ((), s')"
    have "s' = served e s" using irq_serves [OF assms a(3)] a(4) by simp
    then show "y = (served e s, mv)" using a(1) served_pics [OF a(2)] by simp
  qed
next
  assume y: "y = (served e s, mv)"
  obtain r :: regs where r: "int_no r = of_nat (line_vector mv (line_of e))" by (metis regs.select_convs(13))
  have i: "idle_pics mv" using assms by (simp add: running_def)
  from kernel_step.intros [OF i r irq_serves [OF assms r]] show "kernel_step e (s, mv) y"
    by (simp only: y served_pics [OF i])
qed


lemma kernel_run_Cons:
  "running (s, mv) \<Longrightarrow> kernel_run (e # es) (s, mv) z \<longleftrightarrow> kernel_run es (served e s, mv) z"
  by (cases mv) (auto simp: kernel_step_iff)

section \<open>What runs do\<close>

text \<open>What an interrupt may change of the kernel's state.\<close>

lemma keyboard_handler_fields:
  "\<exists>m p i x y sh al ct. keyboard_handler s =
     s\<lparr>mem := m, port_out := p, in_pos := i, csr_x := x, csr_y := y, kb_shift := sh, kb_alt := al, kb_ctrl := ct\<rparr>"
proof -
  obtain b t where bt: "inportb 0x60 s = (b, t)" by (cases "inportb 0x60 s")
  then obtain i where t: "t = s\<lparr>in_pos := i\<rparr>" by (auto simp: inportb_def)
  let ?upd = "\<lambda>m p x y sh al ct. s\<lparr>mem := m, port_out := p, in_pos := i, csr_x := x, csr_y := y, kb_shift := sh, kb_alt := al, kb_ctrl := ct\<rparr>"
  have t': "t = ?upd (mem s) (port_out s) (csr_x s) (csr_y s) (kb_shift s) (kb_alt s) (kb_ctrl s)" by (simp add: t)
  have "\<exists>m p x y sh al ct. call_key f b t = ?upd m p x y sh al ct" for f
  proof (cases f)
    case Norm
    obtain m p x y where "call_key f b t = t\<lparr>mem := m, port_out := p, csr_x := x, csr_y := y\<rparr>"
      unfolding Norm call_key.simps norm_prints using fold_putch_fields by blast
    then have "call_key f b t = ?upd m p x y (kb_shift s) (kb_alt s) (kb_ctrl s)" by (simp add: t')
    then show ?thesis by blast
  next
    case Func
    then have "call_key f b t = t" by (simp add: func_def)
    then show ?thesis using t' by metis
  next
    case Shft
    then have "call_key f b t = ?upd (mem s) (port_out s) (csr_x s) (csr_y s) (\<not> kb_shift s) (kb_alt s) (kb_ctrl s)"
      by (simp add: shft_def t)
    then show ?thesis by blast
  next
    case Altk
    then have "call_key f b t = ?upd (mem s) (port_out s) (csr_x s) (csr_y s) (kb_shift s) (\<not> kb_alt s) (kb_ctrl s)"
      by (simp add: altk_def t)
    then show ?thesis by blast
  next
    case Ctlk
    then have "call_key f b t = ?upd (mem s) (port_out s) (csr_x s) (csr_y s) (kb_shift s) (kb_alt s) (\<not> kb_ctrl s)"
      by (simp add: ctlk_def t)
    then show ?thesis by blast
  qed
  moreover have "keyboard_handler s = t \<or> (\<exists>f. keyboard_handler s = call_key f b t)"
    by (auto simp: keyboard_handler_def bt split: option.split)
  ultimately show ?thesis using t' by metis
qed

lemma served_fields:
  "\<exists>m p i x y sh al ct k l. served e s = s\<lparr>mem := m, port_out := p, in_pos := i, csr_x := x, csr_y := y,
     timer_ticks := k, ticker := l, kb_shift := sh, kb_alt := al, kb_ctrl := ct\<rparr>"
proof (cases e)
  case Tick
  have "served e s = s\<lparr>mem := mem s, port_out := port_out s @ eoi_writes 0, in_pos := in_pos s, csr_x := csr_x s, csr_y := csr_y s,
      timer_ticks := timer_ticks s + 1, ticker := (if sint (timer_ticks s + 1) smod 18 = 0 then ticker s + 1 else ticker s),
      kb_shift := kb_shift s, kb_alt := kb_alt s, kb_ctrl := kb_ctrl s\<rparr>"
    by (simp add: Tick served_def timer_handler_run)
  then show ?thesis by blast
next
  case Key
  obtain m p i x y sh al ct where k: "keyboard_handler s =
      s\<lparr>mem := m, port_out := p, in_pos := i, csr_x := x, csr_y := y, kb_shift := sh, kb_alt := al, kb_ctrl := ct\<rparr>"
    using keyboard_handler_fields by blast
  have "served e s = s\<lparr>mem := m, port_out := p @ eoi_writes 1, in_pos := i, csr_x := x, csr_y := y,
      timer_ticks := timer_ticks s, ticker := ticker s, kb_shift := sh, kb_alt := al, kb_ctrl := ct\<rparr>"
    by (simp add: Key served_def k)
  then show ?thesis by blast
qed

lemma keyboard_handler_keeps:
  "timer_ticks (keyboard_handler s) = timer_ticks s" "ticker (keyboard_handler s) = ticker s"
  "irq_routines (keyboard_handler s) = irq_routines s"
proof -
  obtain m p i x y sh al ct where k: "keyboard_handler s =
      s\<lparr>mem := m, port_out := p, in_pos := i, csr_x := x, csr_y := y, kb_shift := sh, kb_alt := al, kb_ctrl := ct\<rparr>"
    using keyboard_handler_fields by blast
  show "timer_ticks (keyboard_handler s) = timer_ticks s" "ticker (keyboard_handler s) = ticker s"
    "irq_routines (keyboard_handler s) = irq_routines s" by (simp_all add: k)
qed

text \<open>\<open>shows s cs m t\<close>: from \<open>s\<close> to \<open>t\<close> the characters \<open>cs\<close> appeared and the modifier keys became \<open>m\<close>.\<close>

definition types :: "'a mm_scheme \<Rightarrow> u8 list \<Rightarrow> mods \<Rightarrow> 'a mm_scheme \<Rightarrow> bool" where
  "types s cs m t \<longleftrightarrow> screen_of t = fold scr_putch cs (screen_of s) \<and> mods_of t = m \<and>
     textmemptr t = textmemptr s \<and> outside (textmemptr s) (mem s) (mem t)"

lemma ports_view:
  "screen_of (s\<lparr>port_out := p\<rparr>) = screen_of s" "mods_of (t\<lparr>port_out := p\<rparr>) = mods_of t"
  "screen_of (snd (inportb q s)) = screen_of s" "textmemptr (snd (inportb q s)) = textmemptr s" "mem (snd (inportb q s)) = mem s"
  by (simp_all add: screen_of_def mods_of_def inportb_def)

lemma served_Tick:
  assumes "running (s, mv)" and "counters m s" and "Suc m < 2147483648"
  shows "running (served Tick s, mv)" "counters (Suc m) (served Tick s)" "types s [] (mods_of s) (served Tick s)"
    "next_codes n (served Tick s) = next_codes n s"
proof -
  have "served Tick s = (timer_handler s)\<lparr>port_out := port_out s @ eoi_writes 0\<rparr>" by (simp add: served_def timer_handler_run)
  then show "running (served Tick s, mv)" "types s [] (mods_of s) (served Tick s)" "next_codes n (served Tick s) = next_codes n s"
    using assms(1)
    by (simp_all add: running_def types_def next_codes_def timer_handler_run screen_of_def mods_of_def console_ok_def)
  show "counters (Suc m) (served Tick s)"
    using timer_handler_counters [OF assms(2,3)] by (simp add: counters_def served_def)
qed

lemma served_Key:
  assumes "running (s, mv)" and "counters m s"
  defines "b \<equiv> port_in s 0x60 (in_pos s 0x60)"
  shows "running (served Key s, mv)" "counters m (served Key s)"
    "types s (fst (decode (mods_of s) b)) (snd (decode (mods_of s) b)) (served Key s)"
    "next_codes (Suc n) s = b # next_codes n (served Key s)"
proof -
  let ?t = "keyboard_handler s" and ?s1 = "snd (inportb 0x60 s)"
  have ok: "console_ok s" using assms(1) by (simp add: running_def)
  have k: "kbd_step ?s1 (fst (decode (mods_of s) b)) (snd (decode (mods_of s) b)) ?t"
    using keyboard_handler_step [OF ok] unfolding b_def by blast
  have sv: "served Key s = ?t\<lparr>port_out := port_out ?t @ eoi_writes 1\<rparr>" by (simp add: served_def)
  show "running (served Key s, mv)" "counters m (served Key s)"
    using assms(1,2) k by (simp_all add: running_def counters_def sv keyboard_handler_keeps kbd_step_def console_ok_def)
  show "types s (fst (decode (mods_of s) b)) (snd (decode (mods_of s) b)) (served Key s)"
    using k by (simp add: types_def sv kbd_step_def ports_view)
  show "next_codes (Suc n) s = b # next_codes n (served Key s)"
    unfolding next_codes_simps(2) b_def using k by (simp add: next_codes_def sv kbd_step_def)
qed

lemma types_trans: "types s cs m t \<Longrightarrow> types t ds m' u \<Longrightarrow> types s (cs @ ds) m' u"
  by (auto simp: types_def intro: outside_trans)

definition typed :: "event list \<Rightarrow> 'a mm_scheme \<Rightarrow> u8 list \<times> mods" where
  "typed es s = decode_all (mods_of s) (next_codes (count_list es Key) s)"

lemma served_run:
  assumes "running (s, mv)" and "counters m s" and "m + count_list es Tick < 2147483648"
  shows "kernel_run es (s, mv) y \<longleftrightarrow> y = (fold served es s, mv)"
    "running (fold served es s, mv)" "counters (m + count_list es Tick) (fold served es s)"
    "types s (fst (typed es s)) (snd (typed es s)) (fold served es s)"
proof -
  have "(\<forall>y. kernel_run es (s, mv) y \<longleftrightarrow> y = (fold served es s, mv)) \<and> running (fold served es s, mv) \<and>
    counters (m + count_list es Tick) (fold served es s) \<and> types s (fst (typed es s)) (snd (typed es s)) (fold served es s)"
    using assms
  proof (induction es arbitrary: s m)
    case Nil
    then show ?case by (auto simp: types_def typed_def next_codes_simps)
  next
    case (Cons e es)
    show ?case
    proof (cases e)
      case Tick
      have "Suc m < 2147483648" using Cons.prems(3) Tick by simp
      note sv = served_Tick [OF Cons.prems(1,2) this]
      note ih = Cons.IH [OF sv(1,2)]
      have ty: "typed (e # es) s = typed es (served e s)" using sv(3,4) by (simp add: typed_def Tick types_def)
      show ?thesis
        using ih Cons.prems(3) types_trans [OF sv(3)] unfolding ty kernel_run_Cons [OF Cons.prems(1)]
        by (simp add: Tick del: split_paired_All kernel_run_simps)
    next
      case Key
      note sv = served_Key [OF Cons.prems(1,2)]
      note ih = Cons.IH [OF sv(1,2)]
      let ?b = "port_in s 0x60 (in_pos s 0x60)"
      have ty: "fst (typed (e # es) s) = fst (decode (mods_of s) ?b) @ fst (typed es (served e s))"
        "snd (typed (e # es) s) = snd (typed es (served e s))"
        using sv(3) sv(4) [of "count_list es Key"] by (simp_all add: typed_def Key types_def Let_def split: prod.splits)
      show ?thesis
        using ih Cons.prems(3) types_trans [OF sv(3)] unfolding ty kernel_run_Cons [OF Cons.prems(1)]
        by (simp add: Key del: split_paired_All kernel_run_simps)
    qed
  qed
  then show "kernel_run es (s, mv) y \<longleftrightarrow> y = (fold served es s, mv)"
    "running (fold served es s, mv)" "counters (m + count_list es Tick) (fold served es s)"
    "types s (fst (typed es s)) (snd (typed es s)) (fold served es s)" by blast+
qed


section \<open>The boot sequence\<close>

lemma timer_install_run:
  assumes "length (irq_routines s) = 16"
  shows "\<exists>w. timer_install s = Inr ((), s\<lparr>irq_routines := (irq_routines s)[0 := Some Timer_handler], port_out := port_out s @ w\<rparr>) \<and>
    other_writes w \<and> pit_reload w = Some 11931"
proof -
  let ?s = "s\<lparr>irq_routines := (irq_routines s)[0 := Some Timer_handler]\<rparr>"
  obtain lo hi where r: "timer_phase (of_nat 100) ?s = Inr ((), ?s\<lparr>port_out := port_out ?s @ [(0x43, 0x36), (0x40, lo), (0x40, hi)]\<rparr>)"
    "ucast lo OR push_bit 8 (ucast hi) = (of_nat (1193180 div 100) :: u16)"
    using timer_phase_run [of 100 ?s] by auto
  then show ?thesis
    using assms by (intro exI [of _ "[(0x43, 0x36), (0x40, lo), (0x40, hi)]"])
      (simp add: timer_install_def irq_install_handler_def other_writes_def)
qed


definition header_place :: "u32 \<Rightarrow> 'a mm_scheme \<Rightarrow> u32" where
  "header_place mb s = (if 0 < mb_word (mem s) mb ''mods_count''
     then load32 (mem s) (mb_word (mem s) mb ''mods_addr'' + 4) else placement_pointer s)"

lemma copy_multiboot_run:
  "copy_multiboot mb (if 0 < mb_word (mem s) mb ''mods_count''
      then kmalloc_startat (load32 (mem s) (mb_word (mem s) mb ''mods_addr'' + 4)) s else s) =
    (header_place mb s, s\<lparr>placement_pointer := header_place mb s + 96, mem := memcpy (mem s) (header_place mb s) mb 96\<rparr>)"
  by (simp add: copy_multiboot_def kmalloc_def kmalloc_real_def kmalloc_startat_def header_place_def offsets Let_def)

lemma init_video_run:
  "\<exists>w. init_video s = s\<lparr>textmemptr := 0xB8000, csr_y := 10, port_out := port_out s @ w\<rparr> \<and> other_writes w"
  by (intro exI [of _ "[(0x3D4, 14), (0x3D5, ucast (drop_bit 8 (800 + csr_x s))), (0x3D4, 15), (0x3D5, ucast (800 + csr_x s))]"])
    (simp add: init_video_def move_csr_def outportb_def other_writes_def Let_def)

lemma main_devices_run:
  assumes "length (gdt s) = 3" and "length (irq_routines s) = 16"
  shows "\<exists>s' w v. main_devices mb s = Inr (header_place mb s, s') \<and>
    placement_pointer s' = header_place mb s + 96 \<and> mem s' = memcpy (mem s) (header_place mb s) mb 96 \<and>
    port_out s' = port_out s @ remap_writes @ w @ v \<and> other_writes w \<and> other_writes v \<and> pit_reload v = Some 11931 \<and>
    irq_routines s' = (irq_routines s)[0 := Some Timer_handler, 1 := Some Keyboard_handler] \<and>
    int_flag s' \<and> textmemptr s' = 0xB8000 \<and> csr_x s' = csr_x s \<and> csr_y s' = 10 \<and>
    timer_ticks s' = timer_ticks s \<and> ticker s' = ticker s \<and> mods_of s' = mods_of s \<and>
    port_in s' = port_in s \<and> in_pos s' = in_pos s \<and> isrs_routines s' = isrs_routines s \<and> kbuf s' = kbuf s \<and>
    isr_stub s' = isr_stub s \<and> irq_stub s' = irq_stub s \<and> cr0 s' = cr0 s \<and> mm.more s' = mm.more s \<and>
    gdtr s' = \<lparr>tp_limit = 23, tp_base = gdt_addr s\<rparr> \<and> idtr s' = \<lparr>tp_limit = 2047, tp_base = idt_addr s\<rparr> \<and>
    (\<forall>i < 256. idt s' ! i = (if i < 32 then idt_entry_of (isr_stub s i) 0x08 0x8E
      else if i < 48 then idt_entry_of (irq_stub s (i - 32)) 0x08 0x8E else idt_entry0))"
proof -
  define s2 where "s2 = s\<lparr>placement_pointer := header_place mb s + 96, mem := memcpy (mem s) (header_place mb s) mb 96\<rparr>"
  have f2: "gdt s2 = gdt s" "gdt_addr s2 = gdt_addr s" by (simp_all add: s2_def)
  define s3 where "s3 = s2\<lparr>gp := \<lparr>tp_limit = 23, tp_base = gdt_addr s\<rparr>,
    gdt := [gdt_entry_of 0 0 0 0, gdt_entry_of 0 0xFFFFFFFF 0x9A 0xCF, gdt_entry_of 0 0xFFFFFFFF 0x92 0xCF],
    gdtr := \<lparr>tp_limit = 23, tp_base = gdt_addr s\<rparr>, seg_data := 0x10, seg_cs := 0x08\<rparr>"
  have s3: "gdt_install s2 = Inr ((), s3)" using gdt_install_run [of s2] assms(1) by (simp add: f2 s3_def)
  obtain g where g: "irq_install (isrs_install (idt_install s3)) = (idt_load (s3\<lparr>idtp := \<lparr>tp_limit = 2047, tp_base = idt_addr s3\<rparr>\<rparr>))
      \<lparr>port_out := port_out s3 @ remap_writes, idt := g, int_flag := True\<rparr>"
    "\<forall>i < 256. g ! i = (if i < 32 then idt_entry_of (isr_stub s3 i) 0x08 0x8E
      else if i < 48 then idt_entry_of (irq_stub s3 (i - 32)) 0x08 0x8E else idt_entry0)"
    using install_vectors_run [of s3] by blast
  define s6 where "s6 = irq_install (isrs_install (idt_install s3))"
  obtain w where w: "init_video s6 = s6\<lparr>textmemptr := 0xB8000, csr_y := 10, port_out := port_out s6 @ w\<rparr>" "other_writes w"
    using init_video_run by blast
  define s7 where "s7 = init_video s6"
  have s7: "s7 = s6\<lparr>textmemptr := 0xB8000, csr_y := 10, port_out := port_out s6 @ w\<rparr>" unfolding s7_def by (rule w(1))
  have s6: "s6 = s3\<lparr>idtp := \<lparr>tp_limit = 2047, tp_base = idt_addr s3\<rparr>, idtr := \<lparr>tp_limit = 2047, tp_base = idt_addr s3\<rparr>,
      port_out := port_out s3 @ remap_writes, idt := g, int_flag := True\<rparr>"
    unfolding s6_def g(1) by (simp add: idt_load_def)
  have "length (irq_routines s7) = 16" by (simp add: s7 s6 s3_def s2_def assms(2))
  then obtain v where v: "timer_install s7 = Inr ((), s7\<lparr>irq_routines := (irq_routines s7)[0 := Some Timer_handler], port_out := port_out s7 @ v\<rparr>)"
    "other_writes v" "pit_reload v = Some 11931"
    using timer_install_run by blast
  define s9 where "s9 = s7\<lparr>irq_routines := (irq_routines s7)[0 := Some Timer_handler, 1 := Some Keyboard_handler], port_out := port_out s7 @ v\<rparr>"
  have k: "keyboardInstall (s7\<lparr>irq_routines := (irq_routines s7)[0 := Some Timer_handler], port_out := port_out s7 @ v\<rparr>) = Inr ((), s9)"
    using \<open>length (irq_routines s7) = 16\<close> by (simp add: keyboardInstall_def irq_install_handler_def s9_def)
  have run: "main_devices mb s = Inr (header_place mb s, s9)"
    unfolding main_devices_def copy_multiboot_run Let_def prod.case s2_def [symmetric] s3 res_bind_simps s6_def [symmetric]
      s7_def [symmetric] v(1) k by (rule refl)
  have p: "port_out s9 = port_out s @ remap_writes @ w @ v"
    by (simp add: s9_def s7 s6 s3_def s2_def)
  show ?thesis
    by (intro exI [of _ s9] exI [of _ w] exI [of _ v])
      (use run p w(2) v(2,3) g(2) in \<open>simp add: s9_def s7 s6 s3_def s2_def mods_of_def\<close>)
qed


text \<open>Fields of a header that was copied, or cleared.\<close>

lemma same_bytes_word:
  assumes "\<And>i. i < 96 \<Longrightarrow> m' (q + of_nat i) = m (p + of_nat i)" and "offset_of multiboot_layout f + 4 \<le> 96"
  shows "mb_word m' q f = mb_word m p f"
proof -
  have *: "load32 m a = load32 (\<lambda>x. m (x - q + p)) (a - p + q)" for a by (simp add: load32_def algebra_simps)
  have "load32 m' (q + of_nat (offset_of multiboot_layout f)) = load32 (\<lambda>x. m (x - q + p)) (q + of_nat (offset_of multiboot_layout f))"
  proof (rule load32_cong)
    fix i :: nat
    assume "i < 4"
    then show "m' (q + of_nat (offset_of multiboot_layout f) + of_nat i) =
        m (q + of_nat (offset_of multiboot_layout f) + of_nat i - q + p)"
      using assms(1) [of "offset_of multiboot_layout f + i"] assms(2) by (simp add: algebra_simps)
  qed
  then show ?thesis using * [of "p + of_nat (offset_of multiboot_layout f)"] by (simp add: get_word_def field_at_def algebra_simps)
qed

lemma copied_byte:
  assumes "apart h 96 mb 96" and "i < 96"
  shows "memcpy m h mb 96 (h + of_nat i) = m (mb + of_nat i)"
  using assms unat_of_nat32 [of i] memcpy_byte [of h 96 mb m "h + of_nat i"] by simp

section \<open>Properties\<close>

text \<open>\<open>paging_install\<close> erases the multiboot header that \<open>main\<close> saved: if the reservation for the bitmap
  ends on the page on which the copy of the header starts - so it is for less than 512 MB and a page-aligned
  end of the kernel - the page directory is laid over the copy and cleared, and every field that
  \<open>dump_multiboot\<close> is going to print reads zero.\<close>

theorem multiboot_header_erased:
  assumes "length (gdt s) = 3" and "length (irq_routines s) = 16" and "h = header_place mb s" and "apart h 96 mb 96"
    and "m = mb_word (mem s) mb ''mem_upper''" and "unat h div 4096 = (unat h + 96 + unat m div 128) div 4096"
    and "4096 \<le> unat h" and "unat h < 4000000000"
  shows "\<exists>s1. main_devices mb s = Inr (h, s1) \<and> mb_word (mem s1) h ''mem_upper'' = m \<and>
    (\<forall>f. offset_of multiboot_layout f + 4 \<le> 96 \<longrightarrow> mb_word (mem s1) h f = mb_word (mem s) mb f) \<and>
    (\<forall>f. offset_of multiboot_layout f + 4 \<le> 96 \<longrightarrow> mb_word (mem (paging_layout m s1)) h f = 0)"
proof -
  obtain s1 where s1: "main_devices mb s = Inr (h, s1)" "placement_pointer s1 = h + 96" "mem s1 = memcpy (mem s) h mb 96"
    using main_devices_run [OF assms(1,2), of mb] assms(3) by blast
  have w: "mb_word (mem s1) h f = mb_word (mem s) mb f" if "offset_of multiboot_layout f + 4 \<le> 96" for f
    by (rule same_bytes_word [OF _ that]) (simp add: s1(3) copied_byte [OF assms(4)])
  let ?d = "page_down (unat h + 96 + unat m div 128)"
  have d: "?d \<le> unat h" "unat h < ?d + 4096"
    using page_down_bounds [of "unat h"] by (simp_all add: page_down_def assms(6))
  have b: "unat h + 96 + unat m div 128 < ?d + 4096" using page_down_bounds(2) .
  have "unat h + 96 < (4294967296 :: nat)" using assms(8) by simp
  then have pp: "placement_pointer s1 = of_nat (unat h + 96)" by (simp add: s1(2))
  have x: "unat m < 4294967296" "4096 \<le> unat h + 96 + unat m div 128" "unat h + 96 + unat m div 128 + 8196 < 4294967296"
    using assms(7,8) b d unat_u32_bound [of m] by linarith+
  obtain mm where run: "mem (paging_layout m s1) = memset mm (of_nat ?d) 0 8196"
    using paging_layout_run [OF pp refl x] by auto
  have z: "memset mm (of_nat ?d) 0 8196 (h + of_nat i) = 0" if "i < 96" for i
  proof -
    have k: "unat h - ?d + i < 8196" using d that by linarith
    have "h + of_nat i - of_nat ?d = of_nat (unat h - ?d + i)" using d(1) by (simp add: of_nat_diff)
    moreover have "unat (of_nat (unat h - ?d + i) :: u32) = unat h - ?d + i" by (rule unat_of_nat32) (use k in linarith)
    ultimately have "unat (h + of_nat i - of_nat ?d) < 8196" using k by (simp only:)
    then show ?thesis by (simp add: memset_byte)
  qed
  have "mb_word (mem (paging_layout m s1)) h f = mb_word (\<lambda>_. 0) h f" if "offset_of multiboot_layout f + 4 \<le> 96" for f
    unfolding run by (rule same_bytes_word [OF _ that]) (rule z)
  then show ?thesis using s1(1) w assms(5) by (auto simp: get_word_def offsets)
qed

definition pic_on :: pic where
  "pic_on = \<lparr>phase = Ready, vector_base = 0x20, cascade = 0, pic_mode = 1, pic_mask = 0, in_service = {}\<rparr>"

definition sys0 :: mm where
  "sys0 = mm0\<lparr>irq_routines := [Some Timer_handler, Some Keyboard_handler] @ replicate 14 None,
     port_in := \<lambda>p i. [0x2A, 0x23, 0xA3, 0xAA, 0x17, 0x97] ! i\<rparr>"

lemma mm0_boot: "counters 0 mm0" "length (gdt mm0) = 3" "length (irq_routines mm0) = 16" "csr_x mm0 = 0" "csr_y mm0 = 10"
  "mods_of mm0 = (False, False, False)" "in_pos mm0 = (\<lambda>_. 0)" "port_out mm0 = []"
  by (simp_all add: mm0_def kbd.defs kbd0_def timer.defs timer0_def intr.defs intr0_def desc.defs desc0_def kio.defs kio0_def
      console.defs console0_def machine.defs machine0_def counters_def mods_of_def)

lemma sys0_running: "running (sys0, pic_on, pic_on)" "counters 0 sys0"
  using mm0_boot by (simp_all add: running_def sys0_def pic_on_def idle_pics_def console_ok_def counters_def)

theorem multiboot_header_erased_witness:
  "\<exists>s1. main_devices 0x9000 (sys0\<lparr>mem := (\<lambda>_. 0)(0x9009 := 0xFC, 0x900A := 1), placement_pointer := 0x10B000\<rparr>) = Inr (0x10B000, s1) \<and>
    mb_word (mem s1) 0x10B000 ''mem_upper'' = 130048 \<and>
    mb_word (mem (paging_layout 130048 s1)) 0x10B000 ''mem_upper'' = 0"
proof -
  let ?s = "sys0\<lparr>mem := (\<lambda>_. 0)(0x9009 := 0xFC, 0x900A := 1), placement_pointer := 0x10B000\<rparr>"
  have l: "length (gdt ?s) = 3" "length (irq_routines ?s) = 16" using mm0_boot by (simp_all add: sys0_def)
  have h: "0x10B000 = header_place 0x9000 ?s" "130048 = mb_word (mem ?s) 0x9000 ''mem_upper''"
    by (simp_all add: header_place_def get_word_def field_at_def offsets load32_def)
  have a: "apart 0x10B000 96 0x9000 (96 :: nat)" by (simp add: apart_def)
  from multiboot_header_erased [OF l h(1) a h(2)] obtain s1 where
    "main_devices 0x9000 ?s = Inr (0x10B000, s1)" "mb_word (mem s1) 0x10B000 ''mem_upper'' = 130048"
    "\<forall>f. offset_of multiboot_layout f + 4 \<le> 96 \<longrightarrow> mb_word (mem (paging_layout 130048 s1)) 0x10B000 f = 0" by auto
  then show ?thesis by (auto simp: offsets)
qed

end
