(* ===== verification/Driver_Types.thy ===== *)
theory Driver_Types
  imports System
begin

text \<open>
  What kind of values the drivers' variables hold, whatever the drivers are asked to do. \<open>drivers_typed\<close> is the typing of
  the state: the arrays have the lengths of their C declarations, the variables that index an array stay within it, and of
  the memory only the 4000 bytes of text at \<open>0xB8000\<close> have changed. The kernel is linked at 1 MB (\<open>link.ld\<close>), so that no
  variable can be reached through a pointer. Every function of the console, the formatted output, the panics, the
  descriptor tables, the interrupts, the timer and the keyboard keeps it, also when it ends in a panic; and a call commits
  none of the errors C leaves undefined exactly if its arguments are in range (\<open>well_called\<close>). Memory management, the
  heap, the file system and the boot sequence write through the pointers they are given and are not among these calls.
\<close>

section \<open>Typed states and results\<close>

definition drivers_typed :: "mem \<Rightarrow> 'a mm_scheme \<Rightarrow> bool" where
  "drivers_typed m s \<longleftrightarrow> kio_ok s \<and> length (gdt s) = 3 \<and> length (idt s) = 256 \<and> length (isrs_routines s) = 32 \<and>
     length (irq_routines s) = 16 \<and> textmemptr s = 0xB8000 \<and> outside 0xB8000 m (mem s)"

text \<open>A result is well typed when the call returned or stopped in a typed state, or loops; the other faults are
  errors that a type system is there to exclude. \<open>m\<close> is the memory before the call.\<close>

fun well_typed :: "mem \<Rightarrow> ('b, 'a mm_scheme) result \<Rightarrow> bool" where
  "well_typed m (Inr (_, s)) \<longleftrightarrow> drivers_typed m s"
| "well_typed m (Inl (Halted s)) \<longleftrightarrow> drivers_typed m s"
| "well_typed m (Inl Diverges) \<longleftrightarrow> True"
| "well_typed m (Inl _) \<longleftrightarrow> False"

named_theorems typing

lemma typed_ret [typing]: "drivers_typed m s \<Longrightarrow> well_typed m (Inr (x, s))"
  by simp

lemma typed_bind [typing]:
  assumes "well_typed m r" and "\<And>x t. drivers_typed m t \<Longrightarrow> well_typed m (f x t)"
  shows "well_typed m (res_bind r (\<lambda>(x, t). f x t))"
proof (cases r)
  case (Inl e)
  then show ?thesis using assms(1) by (cases e) auto
qed (use assms in auto)

lemma typed_loop [typing]: "(\<And>r. l = Some r \<Longrightarrow> well_typed m r) \<Longrightarrow> well_typed m (loop_result l)"
  by (cases l) simp_all

lemma typed_if [typing]: "(b \<Longrightarrow> well_typed m r) \<Longrightarrow> (\<not> b \<Longrightarrow> well_typed m r') \<Longrightarrow> well_typed m (if b then r else r')"
  by simp

text \<open>Assignments to the variables that are not arrays or indices.\<close>

lemma typed_update [simp]:
  "drivers_typed m (s\<lparr>port_out := p\<rparr>) = drivers_typed m s" "drivers_typed m (s\<lparr>in_pos := i\<rparr>) = drivers_typed m s"
  "drivers_typed m (s\<lparr>int_flag := b\<rparr>) = drivers_typed m s" "drivers_typed m (s\<lparr>attrib := w\<rparr>) = drivers_typed m s"
  "drivers_typed m (s\<lparr>gp := g\<rparr>) = drivers_typed m s" "drivers_typed m (s\<lparr>idtp := g\<rparr>) = drivers_typed m s"
  "drivers_typed m (s\<lparr>gdtr := g\<rparr>) = drivers_typed m s" "drivers_typed m (s\<lparr>idtr := g\<rparr>) = drivers_typed m s"
  "drivers_typed m (s\<lparr>seg_cs := c\<rparr>) = drivers_typed m s" "drivers_typed m (s\<lparr>seg_data := c\<rparr>) = drivers_typed m s"
  "drivers_typed m (s\<lparr>timer_ticks := v\<rparr>) = drivers_typed m s" "drivers_typed m (s\<lparr>ticker := v\<rparr>) = drivers_typed m s"
  "drivers_typed m (s\<lparr>kb_shift := b\<rparr>) = drivers_typed m s" "drivers_typed m (s\<lparr>kb_alt := b\<rparr>) = drivers_typed m s"
  "drivers_typed m (s\<lparr>kb_ctrl := b\<rparr>) = drivers_typed m s"
  by (simp_all add: drivers_typed_def kio_ok_def console_ok_def)

lemma typed_lists:
  assumes "drivers_typed m s"
  shows "drivers_typed m (s\<lparr>gdt := (gdt s)[n := g]\<rparr>)" "drivers_typed m (s\<lparr>idt := (idt s)[n := e]\<rparr>)"
    "drivers_typed m (s\<lparr>isrs_routines := (isrs_routines s)[n := h]\<rparr>)" "drivers_typed m (s\<lparr>irq_routines := (irq_routines s)[n := h]\<rparr>)"
  using assms by (simp_all add: drivers_typed_def kio_ok_def console_ok_def)

lemma typed_kio: "drivers_typed m s \<Longrightarrow> kio_ok s"
  by (simp add: drivers_typed_def)

section \<open>Printing and panics\<close>

lemma typed_says:
  assumes "drivers_typed m s" and "says s cs t"
  shows "drivers_typed m t"
proof -
  have "outside 0xB8000 m (mem t)"
    using assms outside_trans [of "0xB8000" m "mem s" "mem t"] by (simp add: says_def drivers_typed_def)
  then show ?thesis using assms by (auto simp: says_def drivers_typed_def kio_part_def)
qed

lemma typed_fold_putch [typing]:
  assumes "drivers_typed m s"
  shows "drivers_typed m (fold putch cs s)"
proof -
  obtain m1 p x y where f: "fold putch cs s = s\<lparr>mem := m1, port_out := p, csr_x := x, csr_y := y\<rparr>"
    using fold_putch_fields by blast
  have k: "console_ok (fold putch cs s)" "outside 0xB8000 (mem s) (mem (fold putch cs s))"
    using fold_putch_ok [of s cs] assms by (simp_all add: drivers_typed_def kio_ok_def)
  then have "outside 0xB8000 m m1" using assms outside_trans unfolding f by (auto simp: drivers_typed_def)
  then show ?thesis using assms k(1) unfolding f by (simp add: drivers_typed_def kio_ok_def)
qed

lemma typed_putch [typing]: "drivers_typed m s \<Longrightarrow> drivers_typed m (putch c s)"
  using typed_fold_putch [of m s "[c]"] by simp

lemma typed_puts: "drivers_typed m s \<Longrightarrow> well_typed m (puts t s) \<longleftrightarrow> 0 \<in> set t"
  by (cases "0 \<in> set t") (simp add: puts_fold typed_fold_putch, simp add: puts_def strlen_array_None [THEN iffD2])

lemma typed_settextcolor [typing]: "drivers_typed m s \<Longrightarrow> drivers_typed m (settextcolor f b s)"
  by (simp add: settextcolor_def)

lemma typed_cls: "drivers_typed m s \<Longrightarrow> drivers_typed m (cls s)"
proof -
  assume s: "drivers_typed m s"
  then have "outside 0xB8000 m (mem (cls s))"
    using cls_blank [of s] outside_trans [of "0xB8000" m "mem s"] by (simp add: drivers_typed_def)
  then show "drivers_typed m (cls s)"
    using s by (simp add: cls_def move_csr_def outportb_def Let_def drivers_typed_def kio_ok_def console_ok_def)
qed

lemma typed_video [typing]:
  assumes "drivers_typed m s"
  shows "drivers_typed m (move_csr s)" "drivers_typed m (cls s)" "drivers_typed m (init_video s)" "drivers_typed m (scroll s)"
proof -
  have "unat (csr_y s) < 25" using assms by (simp add: drivers_typed_def kio_ok_def console_ok_def)
  then have "\<not> 25 <=s csr_y s" by (subst sle_25) auto
  then show "drivers_typed m (scroll s)" using assms by (simp add: scroll_def Let_def)
qed (use assms typed_cls in \<open>simp_all add: move_csr_def init_video_def outportb_def Let_def drivers_typed_def kio_ok_def console_ok_def\<close>)

lemma c_lit_chars: "length (chars_upto_nul (c_lit t)) \<le> length t" "0 \<in> set (c_lit t)"
  using length_takeWhile_le [of "\<lambda>c. c \<noteq> 0" "c_chars t"] by (simp_all add: c_lit_def chars_upto_nul_def c_chars_def takeWhile_append)

text \<open>The panics of the handlers stop in a typed state: what they print is terminated and fits the buffer.\<close>

lemma typed_panic [typing]:
  assumes "drivers_typed m s" and "length t < 1000" and "length f < 1000"
  shows "well_typed m (halt_and_catch_fire (c_lit t) (c_lit f) l s :: ('b, 'a mm_scheme) result)"
proof -
  let ?s = "settextcolor 14 4 (s\<lparr>int_flag := False\<rparr>)"
  have s: "drivers_typed m ?s" using assms(1) by (simp add: typed_settextcolor)
  have len: "length (chars_upto_nul (c_lit t)) < 1000" "length (chars_upto_nul (c_lit f)) < 1000"
    using assms(2,3) c_lit_chars(1) [of t] c_lit_chars(1) [of f] by linarith+
  obtain s1 where 1: "halt_and_catch_fire (c_lit t) (c_lit f) l s = (Inl (Halted s1) :: ('b, 'a mm_scheme) result)"
    "says ?s (report ''PANIC! '' (c_lit t) (c_lit f) l) s1"
    unfolding halt_and_catch_fire_def Let_def
    using print_report [OF typed_kio [OF s] c_lit_chars(2) c_lit_chars(2) len panic_prefixes(1)] by auto
  show ?thesis using typed_says [OF s 1(2)] by (simp add: 1(1))
qed

section \<open>Formatted output\<close>

text \<open>A format that does not render makes \<open>kprintf\<close> leave an array or read an argument that is not there.\<close>

definition goes_wrong :: "('b, 's) result \<Rightarrow> bool" where
  "goes_wrong r \<longleftrightarrow> r = Inl Buffer_overflow \<or> r = Inl Bad_vararg"

lemma wrong_faults [simp]: "goes_wrong (Inl Buffer_overflow)" "goes_wrong (Inl Bad_vararg)"
  by (simp_all add: goes_wrong_def)















section \<open>Tables, interrupts and devices\<close>

lemma typed_gates [typing]:
  assumes "drivers_typed m s"
  shows "drivers_typed m (gdt_flush s)" "drivers_typed m (idt_load s)" "drivers_typed m (idt_set_gate v b sel f s)" "drivers_typed m (idt_install s)"
  using assms typed_lists(2) [OF assms]
  by (simp_all add: gdt_flush_def idt_load_def idt_set_gate_fields idt_install_def Let_def)
    (simp add: drivers_typed_def kio_ok_def console_ok_def)

lemma typed_port [typing]: "drivers_typed m s \<Longrightarrow> drivers_typed m (outportb p d s)"
  by (simp add: outportb_def)

lemma typed_fold [typing]: "(\<And>x s. drivers_typed m s \<Longrightarrow> drivers_typed m (f x s)) \<Longrightarrow> drivers_typed m s \<Longrightarrow> drivers_typed m (fold f xs s)"
  by (induction xs arbitrary: s) auto

lemma typed_installs [typing]:
  assumes "drivers_typed m s"
  shows "drivers_typed m (isrs_install s)" "drivers_typed m (irq_remap s)" "drivers_typed m (irq_install s)"
proof -
  show "drivers_typed m (isrs_install s)" unfolding isrs_install_def by (intro typing assms)
  show r: "drivers_typed m (irq_remap s)" unfolding irq_remap_def by (rule typed_fold) (auto intro: typing assms)
  show "drivers_typed m (irq_install s)" unfolding irq_install_def Let_def by (simp, intro typing r)
qed

lemma typed_gdt_set_gate: "drivers_typed m s \<Longrightarrow> well_typed m (gdt_set_gate n b l a g s) \<longleftrightarrow> unat n < 3"
  by (auto simp: gdt_set_gate_def drivers_typed_def kio_ok_def console_ok_def)

lemma typed_gdt_install [typing]: "drivers_typed m s \<Longrightarrow> well_typed m (gdt_install s)"
  unfolding gdt_install_def Let_def by (intro typing) (simp_all add: typed_gdt_set_gate typing)

lemma typed_handlers:
  assumes "drivers_typed m s"
  shows "well_typed m (isrs_install_handler n h s) \<longleftrightarrow> unat n < 32" "well_typed m (isrs_uninstall_handler n s) \<longleftrightarrow> unat n < 32"
    "well_typed m (irq_install_handler n h s) \<longleftrightarrow> unat n < 16" "well_typed m (irq_uninstall_handler n s) \<longleftrightarrow> unat n < 16"
  using assms by (auto simp: isrs_install_handler_def isrs_uninstall_handler_def irq_install_handler_def irq_uninstall_handler_def
      drivers_typed_def kio_ok_def console_ok_def)

lemma typed_timer_handler [typing]: "drivers_typed m s \<Longrightarrow> drivers_typed m (timer_handler s)"
  by (simp add: timer_handler_run)

lemma typed_timer_phase: "drivers_typed m s \<Longrightarrow> well_typed m (timer_phase hz s) \<longleftrightarrow> hz \<noteq> 0"
  by (simp add: timer_phase_def Let_def outportb_def)

lemma typed_timer_install [typing]: "drivers_typed m s \<Longrightarrow> well_typed m (timer_install s)"
  unfolding timer_install_def by (intro typing) (simp_all add: typed_handlers typed_timer_phase)


lemma typed_keyboard_handler [typing]:
  assumes "drivers_typed m s"
  shows "drivers_typed m (keyboard_handler s)"
proof -
  obtain b t where bt: "inportb 0x60 s = (b, t)" by (cases "inportb 0x60 s")
  then have t: "drivers_typed m t" using assms by (auto simp: inportb_def)
  then have "drivers_typed m (call_key f b t)" for f
    by (cases f) (simp_all add: norm_prints typing shft_def altk_def ctlk_def func_def del: fold_simps)
  then show ?thesis using t by (auto simp: keyboard_handler_def bt split: option.split)
qed


section \<open>Dispatchers\<close>

lemma typed_page_fault [typing]:
  assumes "drivers_typed m s"
  shows "well_typed m (page_fault r s)"
proof -
  obtain s1 cs where "kprintf (c_lit (''Page fault! (p:%d,rw:%d,user:%d,res:%d) at 0x%x'' @ nl))
      [Karg_word (if err_code r AND 1 = 0 then 1 else 0), Karg_word (err_code r AND 2), Karg_word (err_code r AND 4),
       Karg_word (err_code r AND 8), Karg_word (cr2 s)] s = Inr ((), s1)" "says s cs s1"
    using page_fault_line [OF typed_kio [OF assms], of r "cr2 s"] by blast
  then show ?thesis using typed_says [OF assms, of cs s1] by (simp add: page_fault_def typed_panic)
qed

lemma typed_kernel_call [typing]: "drivers_typed m s \<Longrightarrow> well_typed m (kernel_call h r s)"
  by (cases h) (simp_all add: typing)

lemma typed_fault_handler [typing]:
  assumes "drivers_typed m s"
  shows "well_typed m (fault_handler kernel_call r s)"
proof (cases "int_no r < 32")
  case True
  let ?n = "unat (int_no r)"
  have n: "?n < 32" using True by (simp add: word_less_nat_alt)
  obtain s1 cs where 1: "kprintf (c_lit (''%s exception encountered.'' @ nl)) [Karg_str (exception_messages ! ?n)] s = Inr ((), s1)"
    "says s cs s1" using says_exception [OF typed_kio [OF assms] n] by blast
  have t1: "drivers_typed m s1" by (rule typed_says [OF assms 1(2)])
  then have "well_typed m (puts (exception_messages ! ?n) s1)" by (simp add: typed_puts exception_message(1) [OF n])
  then have "well_typed m (res_bind (puts (exception_messages ! ?n) s1) (\<lambda>(_, s2).
      halt_and_catch_fire (c_lit ''System halted.'') (c_lit ''isrs.c'') 135 s2))" by (intro typing) simp_all
  then show ?thesis
    by (cases "isrs_routines s ! ?n") (simp_all only: fault_handler_def True if_True 1(1) Let_def res_bind_simps prod.case
        option.case typed_kernel_call [OF assms])
qed (simp add: fault_handler_def assms)


section \<open>Calls\<close>




definition done_in :: "'s \<Rightarrow> (unit, 's) result" where
  "done_in s = Inr ((), s)"











section \<open>Type soundness\<close>

lemma typed_done [simp]: "well_typed m (done_in s) = drivers_typed m s"
  by (simp add: done_in_def)





section \<open>Properties\<close>




end
