(* ===== verification/Bringup.thy ===== *)
theory Bringup
  imports System Paging_Install Heap_Api
begin

text \<open>
  From power-on to the heap: \<open>main\<close> of \<open>main.c\<close> as a whole, on the machines on which \<open>paging_install\<close> works, and
  what its callers then find.
\<close>

section \<open>The low map and the screen\<close>

text \<open>The text memory lies below the kernel, so printing leaves the page tables alone.\<close>

lemma text_apart:
  assumes "outside 0xB8000 m m'" and "unat a < 0xB8000 \<or> 0xB9000 \<le> unat a"
  shows "m' a = m a"
proof -
  have b: "(0xB8000 :: nat) < 4294967296" by simp
  have "4000 \<le> unat (a - of_nat 0xB8000)" using unat_above [OF b, of a] assms(2) by (cases "unat a < 0xB8000") simp_all
  then show ?thesis using assms(1) by (simp add: outside_def)
qed

lemma text_apart_word:
  assumes "outside 0xB8000 m m'" and "0x100000 \<le> unat a" and "unat a < 0x40000000"
  shows "load32 m' a = load32 m a"
proof (rule load32_cong)
  fix i :: nat assume "i < 4"
  then have "unat (a + of_nat i) = unat a + i" using assms(3) unat_of_nat32 [of i] by (subst unat_add_small) simp_all
  then show "m' (a + of_nat i) = m (a + of_nat i)" using assms(1,2) by (intro text_apart) simp_all
qed

lemma low_map_cong:
  assumes "low_map s e k" and "\<And>a. e \<le> unat a \<Longrightarrow> unat a < e + 12288 \<Longrightarrow> load32 (mem s') a = load32 (mem s) a"
    and "kernel_directory s' = kernel_directory s" and "frames s' = frames s" and "nframes s' = nframes s"
  shows "low_map s' e k" "capacity s' = capacity s"
proof -
  have pl: "low_place s e" using assms(1) by (simp add: low_map_def)
  then have pl': "low_place s' e" using assms(3-5) by (simp add: low_place_def frames_ok_def)
  have ee: "e + 12288 \<le> 4194304" using pl by (simp add: low_place_def)
  note ap = low_apart [OF pl]
  show cap: "capacity s' = capacity s" by (simp add: capacity_def assms(5))
  have d: "load32 (mem s') (of_nat e) = load32 (mem s) (of_nat e)" "load32 (mem s') (of_nat e + 4096) = load32 (mem s) (of_nat e + 4096)"
    by (rule assms(2); simp add: ap(3,4))+
  have en: "load32 (mem s') (low_entry e i) = load32 (mem s) (low_entry e i)" if "i < 1024" for i
    by (rule assms(2)) (use unat_low_entry [OF ee that] that in simp_all)
  have "frame_bit (mem s') (frames s') f = frame_bit (mem s) (frames s) f" if "f < capacity s" for f
    using assms(2) [of "frames s + 4 * of_nat (f div 32)"] ap(1) [OF in_bitmap_word [OF that]] by (simp add: frame_bit_def assms(4))
  then have u: "used s' = used s" unfolding used_def cap by blast
  note L = assms(1) [unfolded low_map_def]
  have "table_ok (mem s') (of_nat e) 0" using L low_table_cong [OF d] by simp
  moreover have "load32 (mem s') (of_nat e) = of_nat (e + 8192)" using L d(1) by metis
  moreover have "pg_present (load32 (mem s') (low_entry e i)) = 1 \<and> entry_frame s' (low_entry e i) = i" if "i < k" for i
    using L that en [of i] by (simp add: entry_frame_def)
  moreover have "load32 (mem s') (low_entry e i) = 0" if "k \<le> i" "i < 1024" for i using L that en [of i] by simp
  ultimately show "low_map s' e k" using L pl' u unfolding low_map_def by blast
qed

lemma text_rows_cong:
  assumes "\<And>x. 0xB8000 \<le> unat x \<Longrightarrow> unat x < 0xB9000 \<Longrightarrow> m' x = m x"
  shows "text_rows m' 0xB8000 = text_rows m 0xB8000"
proof (rule text_rows_eqI)
  fix r c :: nat
  assume rc: "r < 25" "c < 80"
  define k where "k = 80 * r + c"
  have k: "k < 2000" unfolding k_def by (rule cell_index_bound [OF rc])
  have "m' (0xB8000 + 2 * of_nat k + of_nat i) = m (0xB8000 + 2 * of_nat k + of_nat i)" if "i < 2" for i
  proof -
    have "unat (0xB8000 + 2 * of_nat k :: u32) = 0xB8000 + 2 * k" using unat_2_of_nat [OF k] k by (subst unat_add_small) simp_all
    then have "unat (0xB8000 + 2 * of_nat k + of_nat i :: u32) = 0xB8000 + 2 * k + i"
      using that k unat_of_nat32 [of i] by (subst unat_add_small) simp_all
    then show ?thesis using that k by (intro assms) simp_all
  qed
  then have "cell m' 0xB8000 k = cell m 0xB8000 k" unfolding cell_def by (rule load16_cong)
  then show "cell m' 0xB8000 (80 * r + c) = text_rows m 0xB8000 ! r ! c" using rc by (simp add: text_rows_nth k_def)
qed (simp_all add: text_rows_def)

section \<open>The banner\<close>

definition banner :: "u8 list" where
  "banner = c_chars (''['' @ KERNEL_UNAME @ '' '' @ KERNEL_VERSION @ '']'') @ [0x0A]"

lemma say_banner:
  assumes "kio_ok s"
  shows "\<exists>s'. kprintf (c_lit (''[%s %s]'' @ nl)) [Karg_str (c_lit KERNEL_UNAME), Karg_str (c_lit KERNEL_VERSION)] s = Inr ((), s') \<and>
    says s banner s'"
proof -
  let ?ps = "[Lit ''['', Str (c_lit KERNEL_UNAME), Lit '' '', Str (c_lit KERNEL_VERSION), Lit (CHR '']'' # nl)]"
  have ok: "list_all piece_ok ?ps" by (simp add: c_chars_def nl_def c_lit_def)
  have up: "chars_upto_nul (c_lit KERNEL_UNAME) = c_chars KERNEL_UNAME" "chars_upto_nul (c_lit KERNEL_VERSION) = c_chars KERNEL_VERSION"
    by code_simp+
  have size: "sum_list (map piece_size ?ps) < 1024" using up by (simp add: nl_def KERNEL_UNAME_def KERNEL_VERSION_def c_chars_def)
  have "c_lit (''[%s %s]'' @ nl) = msg_fmt ?ps @ [0]" "msg_args ?ps = [Karg_str (c_lit KERNEL_UNAME), Karg_str (c_lit KERNEL_VERSION)]"
    "msg_out ?ps = banner"
    using up by (simp_all add: c_lit_def c_chars_def nl_def banner_def KERNEL_UNAME_def KERNEL_VERSION_def)
  with message_says [OF assms ok size] show ?thesis by simp
qed

text \<open>The words of the page directory that the saved header has become.\<close>

lemma offset_mod4: "list_all (\<lambda>(g, n). n mod 4 = 0) l \<Longrightarrow> offset_of l f mod 4 = 0"
proof (induction l)
  case (Cons x l)
  then show ?case by (cases x) (auto simp: mod_add_eq [symmetric])
qed simp

lemma multiboot_offset_mod4: "offset_of multiboot_layout f mod 4 = 0"
  by (rule offset_mod4) (simp add: multiboot_layout_def)

lemma field_addr:
  assumes "e + 96 < 4294967296" and "e mod 4 = 0" and "offset_of multiboot_layout f + 4 \<le> 96"
  shows "unat (field_at multiboot_layout (of_nat e) f) = e + offset_of multiboot_layout f"
    "aligned4 (field_at multiboot_layout (of_nat e) f)"
proof -
  have "unat (of_nat (e + offset_of multiboot_layout f) :: u32) = e + offset_of multiboot_layout f"
    using assms(1,3) by (intro unat_of_nat32) simp
  then show u: "unat (field_at multiboot_layout (of_nat e) f) = e + offset_of multiboot_layout f" by (simp add: field_at_def)
  have "(e + offset_of multiboot_layout f) mod 4 = 0"
    using assms(2) multiboot_offset_mod4 [of f] by (metis add_0 mod_add_eq mod_0)
  then show "aligned4 (field_at multiboot_layout (of_nat e) f)" by (simp add: aligned4_def u)
qed

section \<open>The boot sequence to its end\<close>

text \<open>The machine at power-on: the tables as the compiler laid them out, the end of the kernel at \<open>e\<close>, and
  a zero byte among the first 900 of memory, where the erased header will point to for its strings.\<close>

definition power_on :: "u32 \<Rightarrow> 'a mm_scheme \<Rightarrow> nat \<Rightarrow> bool" where
  "power_on mb s e \<longleftrightarrow> length (gdt s) = 3 \<and> length (irq_routines s) = 16 \<and> length (isrs_routines s) = 32 \<and>
     unat (csr_x s) < 80 \<and> length (kbuf s) = 1024 \<and> header_place mb s = of_nat e \<and> apart (of_nat e) 96 mb 96 \<and>
     install_place e (e + 96) (unat (mb_word (mem s) mb ''mem_upper'')) \<and> 0x100000 \<le> e \<and> (\<exists>n < 900. mem s (of_nat n) = 0)"

definition kernel_up :: "'a mm_scheme \<Rightarrow> nat \<Rightarrow> bool" where
  "kernel_up s e \<longleftrightarrow> low_map s e (e div 4096 + 3) \<and> cr3 s = of_nat e + 4096 \<and> bit (cr0 s) 31 \<and> int_flag s \<and>
     kio_ok s \<and> textmemptr s = 0xB8000 \<and> irq_routines s ! 0 = Some Timer_handler \<and> irq_routines s ! 1 = Some Keyboard_handler \<and>
     isrs_routines s ! 14 = Some Page_fault"

text \<open>The gates as \<open>isrs_install\<close> and \<open>irq_install\<close> set them.\<close>

definition vectors_set :: "'a mm_scheme \<Rightarrow> bool" where
  "vectors_set s \<longleftrightarrow>
     (\<forall>v < 48. idt s ! v = idt_entry_of (if v < 32 then isr_stub s v else irq_stub s (v - 32)) 0x08 0x8E)"

text \<open>What \<open>main\<close> does to the devices and their drivers between \<open>s\<close> and \<open>t\<close>: the gates are set and the interrupt controllers
  programmed; the counters, the modifier keys and the input are as they were.\<close>

definition devices_up :: "'a mm_scheme \<Rightarrow> 'a mm_scheme \<Rightarrow> bool" where
  "devices_up s t \<longleftrightarrow> vectors_set t \<and> isr_stub t = isr_stub s \<and> irq_stub t = irq_stub s \<and> length (irq_routines t) = 16 \<and>
     (\<exists>w. port_out t = port_out s @ remap_writes @ w \<and> other_writes w) \<and> timer_ticks t = timer_ticks s \<and> ticker t = ticker s \<and>
     mods_of t = mods_of s \<and> port_in t = port_in s \<and> in_pos t = in_pos s"

lemma devices_up_later:
  assumes "devices_up s t" and "spares_pics t u" and "idt u = idt t" and "isr_stub u = isr_stub t" and "irq_stub u = irq_stub t"
    and "length (irq_routines u) = length (irq_routines t)" and "timer_ticks u = timer_ticks t" and "ticker u = ticker t"
    and "mods_of u = mods_of t" and "port_in u = port_in t" and "in_pos u = in_pos t"
  shows "devices_up s u"
proof -
  obtain w v where "port_out t = port_out s @ remap_writes @ w" "other_writes w" "port_out u = port_out t @ v" "other_writes v"
    using assms(1,2) by (auto simp: devices_up_def spares_pics_def)
  then have "port_out u = port_out s @ remap_writes @ (w @ v)" "other_writes (w @ v)"
    by (simp_all add: other_writes_def image_Un Int_Un_distrib2)
  moreover have "vectors_set u" using assms(1,3-5) by (simp add: devices_up_def vectors_set_def)
  ultimately show ?thesis using assms(1,4-11) by (auto simp: devices_up_def)
qed

lemma devices_up_printed:
  assumes "devices_up s t" and "printed t u"
  shows "devices_up s u"
proof -
  obtain k b m p x y a where u: "u = t\<lparr>kptr := k, kbuf := b, mem := m, port_out := p, csr_x := x, csr_y := y, attrib := a\<rparr>"
    and sp: "spares_pics t u" using assms(2) unfolding printed_def console_only_def by blast
  show ?thesis by (rule devices_up_later [OF assms(1) sp]) (simp_all add: u mods_of_def)
qed

text \<open>So the controllers deliver to the installed handlers.\<close>

lemma devices_up_running:
  assumes "devices_up s t" and "kernel_up t e"
  shows "running (t, pics (drop (length (port_out s)) (port_out t)) mv)" "vectors_set t" "counters m s \<Longrightarrow> counters m t"
    "next_codes n t = next_codes n s" "mods_of t = mods_of s"
proof -
  obtain w where w: "port_out t = port_out s @ remap_writes @ w" "other_writes w" using assms(1) by (auto simp: devices_up_def)
  then have "pics (drop (length (port_out s)) (port_out t)) mv = pics remap_writes mv" by (simp add: pics_append pics_video)
  then show "running (t, pics (drop (length (port_out s)) (port_out t)) mv)"
    using assms by (cases mv) (simp add: running_def devices_up_def kernel_up_def kio_ok_def pics_remapped idle_pics_def)
  show "vectors_set t" "counters m s \<Longrightarrow> counters m t" "next_codes n t = next_codes n s" "mods_of t = mods_of s"
    using assms(1) by (simp_all add: devices_up_def counters_def next_codes_def)
qed

lemma boot_devices:
  assumes "power_on mb s e"
  shows "\<exists>s1. main_devices mb s = Inr (of_nat e, s1) \<and> placement_pointer s1 = of_nat e + 96 \<and>
    mem s1 = memcpy (mem s) (of_nat e) mb 96 \<and>
    irq_routines s1 = (irq_routines s)[0 := Some Timer_handler, 1 := Some Keyboard_handler] \<and> int_flag s1 \<and>
    textmemptr s1 = 0xB8000 \<and> csr_x s1 = csr_x s \<and> csr_y s1 = 10 \<and> isrs_routines s1 = isrs_routines s \<and> kbuf s1 = kbuf s \<and>
    mm.more s1 = mm.more s \<and> devices_up s s1"
proof -
  note a = assms [unfolded power_on_def]
  obtain s1 w v where r: "main_devices mb s = Inr (header_place mb s, s1)"
    "placement_pointer s1 = header_place mb s + 96" "mem s1 = memcpy (mem s) (header_place mb s) mb 96"
    "port_out s1 = port_out s @ remap_writes @ w @ v" "other_writes w" "other_writes v"
    "irq_routines s1 = (irq_routines s)[0 := Some Timer_handler, 1 := Some Keyboard_handler]"
    "int_flag s1" "textmemptr s1 = 0xB8000" "csr_x s1 = csr_x s" "csr_y s1 = 10"
    "timer_ticks s1 = timer_ticks s" "ticker s1 = ticker s" "mods_of s1 = mods_of s" "port_in s1 = port_in s" "in_pos s1 = in_pos s"
    "isrs_routines s1 = isrs_routines s" "kbuf s1 = kbuf s" "isr_stub s1 = isr_stub s" "irq_stub s1 = irq_stub s" "mm.more s1 = mm.more s"
    "\<forall>i < 256. idt s1 ! i = (if i < 32 then idt_entry_of (isr_stub s i) 0x08 0x8E
      else if i < 48 then idt_entry_of (irq_stub s (i - 32)) 0x08 0x8E else idt_entry0)"
    using main_devices_run [of s mb] a by blast
  have "other_writes (w @ v)" using r(5,6) by (simp add: other_writes_def image_Un Int_Un_distrib2)
  then have "devices_up s s1" using r a by (auto simp: devices_up_def vectors_set_def)
  then show ?thesis using r a by simp
qed

lemma boot_paging:
  assumes "power_on mb s e"
  shows "\<exists>s1 s2. main_devices mb s = Inr (of_nat e, s1) \<and>
    paging_install (mb_word (mem s1) (of_nat e) ''mem_upper'') s1 = Inr ((), s2) \<and> kernel_up s2 e \<and> devices_up s s2 \<and>
    capacity s2 = 32 * (unat (mb_word (mem s) mb ''mem_upper'') div 128) \<and> placement_pointer s2 = of_nat (e + 12288) \<and>
    csr_x s2 = csr_x s \<and> csr_y s2 = 10 \<and> mm.more s2 = mm.more s \<and>
    (\<forall>a. aligned4 a \<and> e < unat a \<and> unat a < e + 96 \<longrightarrow> load32 (mem s2) a = 0) \<and>
    (\<forall>x. unat x < e \<or> e + 12288 \<le> unat x \<longrightarrow> mem s2 x = mem s x)"
proof -
  let ?m = "unat (mb_word (mem s) mb ''mem_upper'')"
  note a = assms [unfolded power_on_def]
  have ip: "install_place e (e + 96) ?m" using a by blast
  then have e: "e mod 4096 = 0" "e + 12288 \<le> 4194304" by (simp_all add: install_place_def)
  obtain s1 where s1: "main_devices mb s = Inr (of_nat e, s1)" "placement_pointer s1 = of_nat e + 96"
    "mem s1 = memcpy (mem s) (of_nat e) mb 96"
    "irq_routines s1 = (irq_routines s)[0 := Some Timer_handler, 1 := Some Keyboard_handler]" "int_flag s1"
    "textmemptr s1 = 0xB8000" "csr_x s1 = csr_x s" "csr_y s1 = 10" "isrs_routines s1 = isrs_routines s" "kbuf s1 = kbuf s"
    "mm.more s1 = mm.more s" and dev: "devices_up s s1"
    using boot_devices [OF assms] by blast
  have ap: "apart (of_nat e) 96 mb 96" using a by blast
  have "mb_word (mem s1) (of_nat e) ''mem_upper'' = mb_word (mem s) mb ''mem_upper''"
    by (rule same_bytes_word) (simp_all add: s1(3) copied_byte [OF ap] offsets)
  then have w: "mb_word (mem s1) (of_nat e) ''mem_upper'' = of_nat ?m" by simp
  have pp: "placement_pointer s1 = of_nat (e + 96)" by (simp add: s1(2))
  have l: "14 < length (isrs_routines s1)" using a by (simp add: s1(9))
  define s2 where "s2 m' = s1\<lparr>nframes := of_nat (?m div 4), placement_pointer := of_nat (e + 12288), frames := of_nat (e + 96), mem := m',
      kernel_directory := of_nat e, current_directory := of_nat e, isrs_routines := (isrs_routines s1)[14 := Some Page_fault],
      cr3 := of_nat e + 4096, cr0 := cr0 s1 OR 0x80000000\<rparr>" for m'
  obtain m' where m': "paging_install (of_nat ?m) s1 = Inr ((), s2 m')" "low_map (s2 m') e (e div 4096 + 3)"
    "capacity (s2 m') = 32 * (?m div 128)" "\<And>a. aligned4 a \<Longrightarrow> e < unat a \<Longrightarrow> unat a < e + 96 \<Longrightarrow> load32 m' a = 0"
    "\<And>a. aligned4 a \<Longrightarrow> unat a < e \<or> e + 12288 \<le> unat a \<Longrightarrow> same_word (mem s1) m' a"
    using paging_install_run [OF ip pp l] unfolding Let_def s2_def by blast
  have "(0x80000000 :: u32) = push_bit 31 1" by simp
  then have pg: "bit (cr0 (s2 m')) 31" by (simp add: s2_def bit_or_iff bit_push_bit_iff del: push_bit_numeral)
  have dev2: "devices_up s (s2 m')"
    by (rule devices_up_later [OF dev]) (simp_all add: s2_def spares_pics_same mods_of_def)
  have "kio_ok (s2 m')" using a by (simp add: kio_ok_def console_ok_def s2_def s1(7,8,10))
  then have up: "kernel_up (s2 m') e"
    using m'(2) pg a by (simp add: kernel_up_def s2_def s1)
  have "e mod 4096 mod 4 = e mod 4" by (rule mod_mod_cancel) simp
  then have e4: "e mod 4 = 0" "(e + 12288) mod 4 = 0" using e(1) by (simp_all add: mod_add_eq [symmetric, of e])
  have "m' x = mem s x" if x: "unat x < e \<or> e + 12288 \<le> unat x" for x
  proof -
    have be: "e < 4294967296" using e(2) by simp
    have "\<not> unat (x - of_nat e) < 96" using x unat_above [OF be, of x] e(2) by (cases "unat x < e") simp_all
    then have "mem s1 x = mem s x" using memcpy_byte [of "of_nat e" 96 mb "mem s" x] ap by (simp add: s1(3))
    then show ?thesis using same_bytes [OF m'(5) e4 x] by simp
  qed
  then show ?thesis
    using s1(1) w m'(1,3,4) up dev2
    by (intro exI [of _ s1] exI [of _ "s2 m'"]) (simp add: s2_def s1(7,8,11))
qed

text \<open>Printing keeps all of this.\<close>

lemma printed_keeps_kernel:
  assumes "printed s t" and "kernel_up s e" and "0x100000 \<le> e"
  shows "kernel_up t e" "capacity t = capacity s" "heap_end t = heap_end s" "placement_pointer t = placement_pointer s"
    "mm.more t = mm.more s" "\<And>x. unat x < 0xB8000 \<or> 0xB9000 \<le> unat x \<Longrightarrow> mem t x = mem s x"
    "\<And>a. 0x100000 \<le> unat a \<Longrightarrow> unat a < 0x40000000 \<Longrightarrow> load32 (mem t) a = load32 (mem s) a"
proof -
  obtain k b m p x y a where t: "t = s\<lparr>kptr := k, kbuf := b, mem := m, port_out := p, csr_x := x, csr_y := y, attrib := a\<rparr>"
    using assms(1) unfolding printed_def console_only_def by blast
  have o: "outside 0xB8000 (mem s) (mem t)" "kio_ok t" using assms(1,2) by (simp_all add: printed_def kernel_up_def)
  show w: "load32 (mem t) a = load32 (mem s) a" if "0x100000 \<le> unat a" "unat a < 0x40000000" for a
    by (rule text_apart_word [OF o(1) that])
  show "mem t x = mem s x" if "unat x < 0xB8000 \<or> 0xB9000 \<le> unat x" for x by (rule text_apart [OF o(1) that])
  have L: "low_map s e (e div 4096 + 3)" using assms(2) by (simp add: kernel_up_def)
  then have "e + 12288 \<le> 4194304" by (simp add: low_map_def low_place_def)
  then have "load32 (mem t) a = load32 (mem s) a" if "e \<le> unat a" "unat a < e + 12288" for a
    using that assms(3) by (intro w) simp_all
  note low = low_map_cong [OF L this]
  show "capacity t = capacity s" by (rule low(2)) (simp_all add: t)
  have "low_map t e (e div 4096 + 3)" by (rule low(1)) (simp_all add: t)
  moreover have "cr3 t = cr3 s" "cr0 t = cr0 s" "int_flag t = int_flag s" "textmemptr t = textmemptr s"
    "irq_routines t = irq_routines s" "isrs_routines t = isrs_routines s" by (simp_all add: t)
  ultimately show "kernel_up t e" using assms(2) o(2) unfolding kernel_up_def by (simp only: simp_thms)
  show "heap_end t = heap_end s" "placement_pointer t = placement_pointer s" "mm.more t = mm.more s" by (simp_all add: t)
qed

text \<open>With paging on, the break is set and the banner printed; the header that \<open>dump_multiboot\<close> then gets is the page
  directory's beginning.\<close>

lemma boot_banner:
  assumes "power_on mb s e"
  shows "\<exists>s1 s2 s5. main_devices mb s = Inr (of_nat e, s1) \<and>
    paging_install (mb_word (mem s1) (of_nat e) ''mem_upper'') s1 = Inr ((), s2) \<and>
    kprintf (c_lit (''[%s %s]'' @ nl)) [Karg_str (c_lit KERNEL_UNAME), Karg_str (c_lit KERNEL_VERSION)]
      (settextcolor 12 0 (heap_install s2)) = Inr ((), s5) \<and> kernel_up s5 e \<and> devices_up s s5 \<and>
    screen_of s5 = fold scr_putch banner \<lparr>rows = text_rows (mem s) 0xB8000, cx = unat (csr_x s), cy = 10, colour = 0x0C\<rparr> \<and>
    capacity s5 = 32 * (unat (mb_word (mem s) mb ''mem_upper'') div 128) \<and> heap_end s5 = of_nat (e + 12288) \<and>
    placement_pointer s5 = 0 \<and> mm.more s5 = mm.more s \<and>
    (\<forall>x. unat x < e \<and> (unat x < 0xB8000 \<or> 0xB9000 \<le> unat x) \<longrightarrow> mem s5 x = mem s x) \<and>
    mb_word (mem s5) (of_nat e) ''flags'' = of_nat (e + 8192) \<and>
    (\<forall>f. 4 \<le> offset_of multiboot_layout f \<and> offset_of multiboot_layout f + 4 \<le> 96 \<longrightarrow> mb_word (mem s5) (of_nat e) f = 0)"
proof -
  obtain s1 s2 where b: "main_devices mb s = Inr (of_nat e, s1)"
    "paging_install (mb_word (mem s1) (of_nat e) ''mem_upper'') s1 = Inr ((), s2)" "kernel_up s2 e"
    "capacity s2 = 32 * (unat (mb_word (mem s) mb ''mem_upper'') div 128)" "placement_pointer s2 = of_nat (e + 12288)"
    "csr_x s2 = csr_x s" "csr_y s2 = 10" "mm.more s2 = mm.more s"
    "\<And>a. aligned4 a \<Longrightarrow> e < unat a \<Longrightarrow> unat a < e + 96 \<Longrightarrow> load32 (mem s2) a = 0"
    "\<And>x. unat x < e \<or> e + 12288 \<le> unat x \<Longrightarrow> mem s2 x = mem s x" "devices_up s s2"
    using boot_paging [OF assms] by metis
  have e: "0x100000 \<le> e" "e + 12288 \<le> 4194304" "e mod 4096 = 0" using assms by (simp_all add: power_on_def install_place_def)
  have "e mod 4096 mod 4 = e mod 4" by (rule mod_mod_cancel) simp
  then have e4: "e mod 4 = 0" and be: "e + 96 < 4294967296" and ue: "unat (of_nat e :: u32) = e"
    using e by (simp_all add: unat_of_nat32)
  define s4 where "s4 = settextcolor 12 0 (heap_install s2)"
  have f4: "mem s4 = mem s2" "heap_end s4 = of_nat (e + 12288)" "placement_pointer s4 = 0" "capacity s4 = capacity s2" "mm.more s4 = mm.more s2"
    by (simp_all add: s4_def settextcolor_def heap_install_def b(5) capacity_def)
  have L2: "low_map s2 e (e div 4096 + 3)" using b(3) by (simp add: kernel_up_def)
  then have "low_map s4 e (e div 4096 + 3)" by (rule low_map_cong(1)) (simp_all add: s4_def settextcolor_def heap_install_def)
  then have k4: "kernel_up s4 e" using b(3) by (simp add: kernel_up_def s4_def settextcolor_def heap_install_def kio_ok_def console_ok_def)
  then have ok4: "kio_ok s4" "textmemptr s4 = 0xB8000" by (simp_all add: kernel_up_def)
  have "text_rows (mem s2) 0xB8000 = text_rows (mem s) 0xB8000" using e(1) b(10) by (intro text_rows_cong) simp
  moreover have "attrib s4 = 0x0C" by (simp add: s4_def settextcolor_def)
  ultimately have sc4: "screen_of s4 = \<lparr>rows = text_rows (mem s) 0xB8000, cx = unat (csr_x s), cy = 10, colour = 0x0C\<rparr>"
    by (simp add: screen_of_def f4(1) ok4(2)) (simp add: s4_def settextcolor_def heap_install_def b(6,7))
  obtain s5 where s5: "kprintf (c_lit (''[%s %s]'' @ nl)) [Karg_str (c_lit KERNEL_UNAME), Karg_str (c_lit KERNEL_VERSION)] s4 = Inr ((), s5)"
    "says s4 banner s5" using say_banner [OF ok4(1)] by blast
  note p5 = printed_says [OF printed_refl [OF ok4(1)] s5(2)]
  note k5 = printed_keeps_kernel [OF p5 k4 e(1)]
  have "devices_up s s4" by (rule devices_up_later [OF b(11)])
    (simp_all add: s4_def settextcolor_def heap_install_def spares_pics_same mods_of_def)
  then have d5: "devices_up s s5" by (rule devices_up_printed [OF _ p5])
  have word: "load32 (mem s5) a = load32 (mem s2) a" if "e \<le> unat a" "unat a < e + 96" for a
    using k5(7) [of a] that e(1,2) by (simp add: f4(1))
  have fl: "mb_word (mem s5) (of_nat e) ''flags'' = of_nat (e + 8192)"
    using word [of "of_nat e"] L2 by (simp add: get_word_def field_at_def multiboot_layout_def ue low_map_def)
  have z: "mb_word (mem s5) (of_nat e) f = 0" if f: "4 \<le> offset_of multiboot_layout f" "offset_of multiboot_layout f + 4 \<le> 96" for f
    using field_addr [OF be e4 f(2)] f word [of "field_at multiboot_layout (of_nat e) f"] b(9) by (simp add: get_word_def)
  have "mem s5 x = mem s x" if "unat x < e" "unat x < 0xB8000 \<or> 0xB9000 \<le> unat x" for x
    using k5(6) [of x] b(10) [of x] that by (simp add: f4(1))
  moreover have "screen_of s5 = fold scr_putch banner (screen_of s4)" using s5(2) by (simp add: says_def)
  ultimately show ?thesis
    using b(1,2,4,8) s5(1) k5(1-5) f4 sc4 fl z d5
    by (intro exI [of _ s1] exI [of _ s2] exI [of _ s5]) (simp add: s4_def [symmetric])
qed

lemma header_clear_of_text:
  assumes "0x100000 \<le> e" and "e + 12288 \<le> 4194304" and "textmemptr s = 0xB8000"
  shows "clear_of_text s (of_nat e) 96"
proof -
  have b: "(0xB8000 :: nat) < 4294967296" "e < 4294967296" and ue: "unat (of_nat e :: u32) = e"
    using assms(2) by (simp_all add: unat_of_nat32)
  have "unat (of_nat e - of_nat 0xB8000 :: u32) = e - 0xB8000" using unat_above(1) [OF b(1), of "of_nat e"] assms(1) ue by simp
  moreover have "unat (of_nat 0xB8000 - of_nat e :: u32) = 0xB8000 + 4294967296 - e"
    using unat_above(2) [OF b(2), of "of_nat 0xB8000"] assms(1) by simp
  moreover have "4000 \<le> e - 0xB8000" "96 \<le> 0xB8000 + 4294967296 - e" using assms(1,2) by linarith+
  ultimately show ?thesis by (simp add: clear_of_text_def assms(3) apart_def)
qed

lemma main_run:
  assumes "power_on mb s e"
  shows "\<exists>s' m. main mb s = Inr (0, s') \<and> kernel_up s' e \<and> devices_up s s' \<and>
    heap_end s' = of_nat (e + 12288) \<and> placement_pointer s' = 0 \<and>
    capacity s' = 32 * (unat (mb_word (mem s) mb ''mem_upper'') div 128) \<and> mm.more s' = mm.more s \<and>
    (\<forall>x. unat x < e \<and> (unat x < 0xB8000 \<or> 0xB9000 \<le> unat x) \<longrightarrow> mem s' x = mem s x) \<and>
    screen_of s' = header_screen m (of_nat e)
      (fold scr_putch banner \<lparr>rows = text_rows (mem s) 0xB8000, cx = unat (csr_x s), cy = 10, colour = 0x0C\<rparr>) \<and>
    mb_word m (of_nat e) ''flags'' = of_nat (e + 8192) \<and>
    (\<forall>f. 4 \<le> offset_of multiboot_layout f \<and> offset_of multiboot_layout f + 4 \<le> 96 \<longrightarrow> mb_word m (of_nat e) f = 0)"
proof -
  have e: "0x100000 \<le> e" "e + 12288 \<le> 4194304" using assms by (simp_all add: power_on_def install_place_def)
  obtain s1 s2 s5 where b: "main_devices mb s = Inr (of_nat e, s1)"
    "paging_install (mb_word (mem s1) (of_nat e) ''mem_upper'') s1 = Inr ((), s2)"
    "kprintf (c_lit (''[%s %s]'' @ nl)) [Karg_str (c_lit KERNEL_UNAME), Karg_str (c_lit KERNEL_VERSION)]
      (settextcolor 12 0 (heap_install s2)) = Inr ((), s5)" "kernel_up s5 e"
    "screen_of s5 = fold scr_putch banner \<lparr>rows = text_rows (mem s) 0xB8000, cx = unat (csr_x s), cy = 10, colour = 0x0C\<rparr>"
    "capacity s5 = 32 * (unat (mb_word (mem s) mb ''mem_upper'') div 128)" "heap_end s5 = of_nat (e + 12288)"
    "placement_pointer s5 = 0" "mm.more s5 = mm.more s"
    "\<And>x. unat x < e \<Longrightarrow> unat x < 0xB8000 \<or> 0xB9000 \<le> unat x \<Longrightarrow> mem s5 x = mem s x"
    "mb_word (mem s5) (of_nat e) ''flags'' = of_nat (e + 8192)"
    "\<And>f. 4 \<le> offset_of multiboot_layout f \<Longrightarrow> offset_of multiboot_layout f + 4 \<le> 96 \<Longrightarrow> mb_word (mem s5) (of_nat e) f = 0"
    "devices_up s s5"
    using boot_banner [OF assms] by metis
  have tm: "textmemptr s5 = 0xB8000" "kio_ok s5" using b(4) by (simp_all add: kernel_up_def)
  obtain n where n: "n < 900" "mem s (of_nat n) = 0" using assms by (auto simp: power_on_def)
  have "unat (of_nat n :: u32) = n" using n(1) by (intro unat_of_nat32) simp
  then have "mem s5 (of_nat n) = 0" using b(10) [of "of_nat n"] n e(1) by simp
  moreover have "clear_of_text s5 0 (Suc n)" using n(1) by (simp add: clear_of_text_def tm(1) apart_def)
  ultimately have st: "boot_string s5 0" using n(1) by (auto simp: boot_string_def)
  have w0: "mb_word (mem s5) (of_nat e) ''cmdline'' = 0" "mb_word (mem s5) (of_nat e) ''boot_loader_name'' = 0"
    by (rule b(12); simp add: offsets)+
  obtain s6 where s6: "dump_multiboot (of_nat e) s5 = Inr ((), s6)"
    "screen_of s6 = header_screen (mem s5) (of_nat e) (screen_of s5)" "kio_ok s6"
    "outside (textmemptr s5) (mem s5) (mem s6)" "console_only s5 s6"
    using dump_multiboot_run [OF tm(2) header_clear_of_text [OF e tm(1)], unfolded w0, OF st st] by blast
  have p6: "printed s5 s6" using s6(3-5) console_only_text [OF s6(5)] by (simp add: printed_def)
  note k6 = printed_keeps_kernel [OF p6 b(4) e(1)]
  have "main mb s = Inr (0, s6)"
    unfolding main_def by (simp only: b(1-3) s6(1) res_bind_simps prod.case Let_def)
  then show ?thesis
    using k6(1-6) b(5-12) s6(2) devices_up_printed [OF b(13) p6] by (intro exI [of _ s6] exI [of _ "mem s5"]) simp
qed

section \<open>The heap after boot\<close>

text \<open>The static variables of \<open>core/alloc.c\<close> as they are before any call: no bins, an empty skip list, whose head
  is 44 zero bytes inside the kernel.\<close>

definition heap_fresh :: "'a heap_scheme \<Rightarrow> nat \<Rightarrow> bool" where
  "heap_fresh s e \<longleftrightarrow> bin_head s = replicate 10 0 \<and> big_level s = 0 \<and> newest_big s = 0 \<and> aligned4 (big_head s) \<and>
     0x100000 \<le> unat (big_head s) \<and> unat (big_head s) + 44 \<le> e \<and> (\<forall>i < 44. mem s (big_head s + of_nat i) = 0)"

lemma heap_variables:
  assumes "mm.more s' = mm.more s"
  shows "bin_head s' = bin_head s" "big_head s' = big_head s" "big_level s' = big_level s" "newest_big s' = newest_big s"
  using assms by (cases s rule: heap.cases_scheme, cases s' rule: heap.cases_scheme, simp)+

lemma heap_fresh_ok:
  assumes "heap_fresh s e" and "e < 4294967296"
  shows "heap_ok s Map.empty"
proof -
  note f = assms(1) [unfolded heap_fresh_def]
  have z: "load32 (mem s) (big_head s + 4 * of_nat j) = 0" if "j < 11" for j
  proof -
    have "load32 (mem s) (big_head s + 4 * of_nat j) = load32 (\<lambda>_. 0) (big_head s + 4 * of_nat j)"
    proof (rule load32_cong)
      fix i :: nat assume "i < 4"
      then have "4 * j + i < 44" using that by simp
      then have "mem s (big_head s + of_nat (4 * j + i)) = 0" using f by blast
      then show "mem s (big_head s + 4 * of_nat j + of_nat i) = 0" by (simp add: add.assoc)
    qed
    then show ?thesis by simp
  qed
  have "chain (mem s) i (big_head s) []" if "i \<le> SKIP_MAX_LEVEL" for i
    using z [of "4 + i"] that by (simp add: fields fld_def SKIP_MAX_LEVEL_def)
  then have "skip_ok s [] (\<lambda>_. 0)" using f by (simp add: skip_ok_def at_level_def headers_def)
  then have "free_list s []" by (auto simp: free_list_def)
  then have "bigs_ok s Map.empty" using f by (auto simp: bigs_ok_def)
  moreover have "linked_list (mem s) (bin_head s ! k) []" if "k < 10" for k using that f by simp
  then have "bins_ok s Map.empty" using f unfolding bins_ok_def by (auto intro!: exI [of _ "[]"])
  moreover have "blocks_ok s Map.empty" using f assms(2) by (simp add: blocks_ok_def)
  ultimately show ?thesis by (simp add: heap_ok_def)
qed

lemma low_heap_ready:
  assumes "low_map s e k" and "4096 * k = e + 12288" and "heap_end s = of_nat (e + 12288)" and "heap_fresh s e"
    and "sz \<noteq> 0" and "k + pages_for sz \<le> 1024" and "k + pages_for sz \<le> capacity s"
  shows "ready s Map.empty sz"
proof -
  let ?n = "pages_for sz"
  have pl: "low_place s e" and u: "used s = {..<k}" using assms(1) by (simp_all add: low_map_def)
  then have e: "e + 12288 \<le> 4194304" by (simp add: low_place_def)
  have he: "unat (heap_end s) = 4096 * k" unfolding assms(2,3) by (rule unat_of_nat32) (use e in simp)
  note un = low_unmapped [OF assms(1,6)] and en = low_entries [OF assms(1,6)]
  have bh: "unat (big_head s) + 44 \<le> e" using assms(4) by (simp add: heap_fresh_def)
  have tw: "e \<le> unat w" if w: "w \<in> table_words s ?n" for w
  proof -
    consider "w \<in> low_entry e ` {k..<k + ?n}" | "in_bitmap s w" using w by (auto simp: table_words_def he en)
    then show ?thesis
    proof cases
      case 1
      then obtain i where "w = low_entry e i" "i < 1024" using assms(6) by auto
      then show ?thesis using unat_low_entry [OF e] by simp
    next
      case 2
      then show ?thesis using low_apart(1) [OF pl 2] by linarith
    qed
  qed
  have "table_words s ?n \<inter> area (big_head s) 44 = {}" using tw bh by (fastforce simp: area_def)
  moreover have "area (heap_end s) (4096 * ?n) \<inter> area (big_head s) 44 = {}" using he bh assms(2) by (auto simp: area_def)
  moreover have "heap_end s \<noteq> 0" using he assms(2) by auto
  ultimately have "can_grow s Map.empty ?n" using un he u assms(7) by (simp add: can_grow_def)
  moreover have "unat sz + 44 < 2147483648"
  proof -
    have "(unat sz + 44) div 4096 < 1024" using assms(6) by (simp add: pages_for_def)
    then show ?thesis by (simp add: div_less_iff_less_mult)
  qed
  ultimately show ?thesis using assms(5) by (simp add: ready_def)
qed

lemma boot_heap:
  assumes "power_on mb s e" and "heap_fresh s e"
  shows "\<exists>s'. main mb s = Inr (0, s') \<and> heap_ok s' Map.empty \<and>
    (\<forall>sz. sz \<noteq> 0 \<and> e div 4096 + 3 + pages_for sz \<le> 1024 \<and>
       e div 4096 + 3 + pages_for sz \<le> 32 * (unat (mb_word (mem s) mb ''mem_upper'') div 128) \<longrightarrow> ready s' Map.empty sz)"
proof -
  let ?c = "32 * (unat (mb_word (mem s) mb ''mem_upper'') div 128)"
  have e: "e mod 4096 = 0" "e + 12288 \<le> 4194304" using assms(1) by (simp_all add: power_on_def install_place_def)
  obtain q where q: "e = 4096 * q" using e(1) by (metis mod_0_imp_dvd dvdE)
  obtain s' where s': "main mb s = Inr (0, s')" "kernel_up s' e" "heap_end s' = of_nat (e + 12288)" "capacity s' = ?c"
    "mm.more s' = mm.more s" "\<And>x. unat x < e \<Longrightarrow> unat x < 0xB8000 \<or> 0xB9000 \<le> unat x \<Longrightarrow> mem s' x = mem s x"
    using main_run [OF assms(1)] by metis
  note v = heap_variables [OF s'(5)]
  have bh: "0x100000 \<le> unat (big_head s)" "unat (big_head s) + 44 \<le> e" using assms(2) by (simp_all add: heap_fresh_def)
  have "mem s' (big_head s + of_nat i) = 0" if "i < 44" for i
  proof -
    have "unat (big_head s + of_nat i) = unat (big_head s) + i"
      using that bh e(2) unat_of_nat32 [of i] by (subst unat_add_small) simp_all
    then show ?thesis using s'(6) [of "big_head s + of_nat i"] that bh assms(2) by (simp add: heap_fresh_def)
  qed
  then have fresh: "heap_fresh s' e" using assms(2) by (simp add: heap_fresh_def v)
  have low: "low_map s' e (e div 4096 + 3)" using s'(2) by (simp add: kernel_up_def)
  have k: "4096 * (e div 4096 + 3) = e + 12288" by (simp add: q)
  have "ready s' Map.empty sz" if "sz \<noteq> 0" "e div 4096 + 3 + pages_for sz \<le> 1024" "e div 4096 + 3 + pages_for sz \<le> ?c" for sz
    by (rule low_heap_ready [OF low k s'(3) fresh that(1,2)]) (simp add: s'(4) that(3))
  then show ?thesis using s'(1) heap_fresh_ok [OF fresh] e(2) by auto
qed

section \<open>Properties\<close>

text \<open>C3. The kernel boots. From power-on with a page-aligned end of the kernel between 1 MB and 4 MB and a bitmap that fits,
  \<open>main\<close> returns 0. Then interrupts and paging are on, the timer, keyboard and page fault handlers are installed, the
  low memory up to the end of the first page table is mapped one to one with just its frames in use, the break of the
  heap is right behind it, and no memory below the kernel but the screen has changed. The screen shows
  the banner in red and the report of a header that paging has erased: its flags are the address of
  the first page table, and all other fields are zero.\<close>

theorem main_boots:
  assumes "power_on mb s e"
  shows "\<exists>s' m. main mb s = Inr (0, s') \<and> kernel_up s' e \<and> heap_end s' = of_nat (e + 12288) \<and>
    (\<forall>v. unat v < 4194304 \<longrightarrow> mmu_walk (mem s') (cr3 s') v = (if unat v < e + 12288 then Some v else None)) \<and>
    (\<forall>x. unat x < e \<and> (unat x < 0xB8000 \<or> 0xB9000 \<le> unat x) \<longrightarrow> mem s' x = mem s x) \<and>
    screen_of s' = header_screen m (of_nat e)
      (fold scr_putch banner \<lparr>rows = text_rows (mem s) 0xB8000, cx = unat (csr_x s), cy = 10, colour = 0x0C\<rparr>) \<and>
    mb_word m (of_nat e) ''flags'' = of_nat (e + 8192) \<and>
    (\<forall>f. 4 \<le> offset_of multiboot_layout f \<and> offset_of multiboot_layout f + 4 \<le> 96 \<longrightarrow> mb_word m (of_nat e) f = 0)"
proof -
  have "e mod 4096 = 0" using assms by (simp add: power_on_def install_place_def)
  then obtain q where q: "e = 4096 * q" by (metis mod_0_imp_dvd dvdE)
  have k: "4096 * (e div 4096 + 3) = e + 12288" by (simp add: q)
  have "mmu_walk (mem s') (cr3 s') v = (if unat v < e + 12288 then Some v else None)"
    if "kernel_up s' e" "unat v < 4194304" for s' :: "'a mm_scheme" and v
    using that low_walk [of s' e "e div 4096 + 3" v] unfolding kernel_up_def k by simp
  with main_run [OF assms] show ?thesis by blast
qed

text \<open>C7. From power-on to the heap: once \<open>main\<close> has returned the heap serves. Every request that fits, with its header, into the
  rest of the first 4 MB - and into the frames there are - gets a block of its own; and whatever clients
  then do with requests that can be served, frees and writes, the blocks they hold stay disjoint and can be freed.\<close>

theorem boot_then_malloc:
  assumes "power_on mb s e" and "heap_fresh s e" and "sz \<noteq> 0" and "e div 4096 + 3 + pages_for sz \<le> 1024"
    and "e div 4096 + 3 + pages_for sz \<le> 32 * (unat (mb_word (mem s) mb ''mem_upper'') div 128)"
  shows "\<exists>s' p n s''. main mb s = Inr (0, s') \<and> malloc sz s' = Inr (p, s'') \<and> p \<noteq> 0 \<and> unat sz \<le> n \<and> sound (s'', {(p, n)}) \<and>
    (\<forall>t L. client_step\<^sup>*\<^sup>* (s'', {(p, n)}) (t, L) \<longrightarrow> sound (t, L) \<and> (\<forall>(a, m) \<in> L. a \<noteq> 0 \<and> (\<exists>t'. free a t = Inr ((), t'))))"
proof -
  obtain s' where s': "main mb s = Inr (0, s')" "heap_ok s' Map.empty" "ready s' Map.empty sz"
    using boot_heap [OF assms(1,2)] assms(3-5) by blast
  have e: "live Map.empty = {}" by (simp add: live_def)
  obtain p n s'' B where m: "klmalloc sz s' = Inr (p, s'')" "unat sz \<le> n" "heap_ok s'' B" "live B = {(p, n)}"
    using klmalloc_ok [OF s'(2,3)] unfolding e by blast
  have snd: "sound (s'', {(p, n)})" using m(3,4) by (auto simp: sound_def)
  have all: "a \<noteq> 0 \<and> (\<exists>t'. free a t = Inr ((), t'))" if "sound (t, L)" "(a, k) \<in> L" for t :: "'a heap_scheme" and L a k
  proof -
    obtain C where C: "heap_ok t C" "live C = L" using \<open>sound (t, L)\<close> by (auto simp: sound_def)
    show ?thesis using live_header(1) [OF C(1)] klfree_ok [OF C(1)] that(2) unfolding C(2) free_def by blast
  qed
  have "p \<noteq> 0" using all [OF snd] by blast
  then show ?thesis
    using s'(1) m(1,2) snd session_sound [OF _ snd] all unfolding malloc_def by blast
qed

text \<open>A machine with 32 MB and the end of the kernel at \<open>0x10B000\<close>.\<close>

definition machine1 :: mm where
  "machine1 = sys0\<lparr>mem := (\<lambda>_. 0)(0x9009 := 0x80), placement_pointer := 0x10B000\<rparr>"

definition heap3 :: heap where
  "heap3 = mm.extend machine1 (heap.fields (replicate 10 0) 0x104000 0 0 (123456789, 362436069, 521288629, 88675123))"

lemma machine1_on: "power_on 0x9000 machine1 0x10B000"
proof -
  have w: "mb_word (mem machine1) 0x9000 ''mods_count'' = 0" "mb_word (mem machine1) 0x9000 ''mem_upper'' = 0x8000"
    by (simp_all add: get_word_def field_at_def offsets machine1_def load32_def)
  then have h: "header_place 0x9000 machine1 = of_nat 0x10B000" by (simp add: header_place_def machine1_def)
  have i: "install_place 0x10B000 (0x10B000 + 96) 32768" by (simp add: install_place_def)
  have a: "apart (of_nat 0x10B000) 96 0x9000 (96 :: nat)" by (simp add: apart_def)
  have l: "length (isrs_routines mm0) = 32" "length (kbuf mm0) = 1024"
    by (simp_all add: mm0_def kbd.defs kbd0_def timer.defs timer0_def intr.defs intr0_def desc.defs desc0_def kio.defs kio0_def
        console.defs console0_def machine.defs machine0_def)
  have n: "mem machine1 (of_nat 0) = 0" by (simp add: machine1_def)
  show ?thesis
    unfolding power_on_def w h using i a mm0_boot l n
    by (intro conjI exI [of _ 0]) (simp_all add: machine1_def sys0_def)
qed

lemma power_on_extend: "power_on mb (mm.extend s x) e = power_on mb s e"
  by (simp add: power_on_def header_place_def mm.defs)

lemma heap3_fresh: "heap_fresh heap3 0x10B000"
proof -
  have "mem heap3 (0x104000 + of_nat i) = 0" if "i < 44" for i
  proof -
    have "unat (0x104000 + of_nat i :: u32) = 0x104000 + i" using that unat_of_nat32 [of i] by (subst unat_add_small) simp_all
    then have "unat (0x104000 + of_nat i :: u32) \<noteq> unat (0x9009 :: u32)" by simp
    then have "0x104000 + of_nat i \<noteq> (0x9009 :: u32)" by (rule contrapos_nn) (rule arg_cong)
    then show ?thesis by (simp add: heap3_def mm.defs machine1_def)
  qed
  then show ?thesis by (simp add: heap_fresh_def heap3_def mm.defs heap.defs aligned4_def)
qed

theorem main_boots_witness:
  "\<exists>s'. main 0x9000 machine1 = Inr (0, s') \<and> heap_end s' = 0x10E000 \<and> mmu_walk (mem s') (cr3 s') 0x104321 = Some 0x104321"
proof -
  from main_boots [OF machine1_on] obtain s' where s': "main 0x9000 machine1 = Inr (0, s')"
    "heap_end s' = of_nat (0x10B000 + 12288)"
    "\<forall>v. unat v < 4194304 \<longrightarrow> mmu_walk (mem s') (cr3 s') v = (if unat v < 0x10B000 + 12288 then Some v else None)" by blast
  have "unat (0x104321 :: u32) < 4194304" "unat (0x104321 :: u32) < 0x10B000 + 12288" by simp_all
  with s' show ?thesis by (intro exI [of _ s']) simp
qed

theorem boot_then_malloc_witness:
  "\<exists>s' p n s''. main 0x9000 heap3 = Inr (0, s') \<and> malloc 5000 s' = Inr (p, s'') \<and> 5000 \<le> n \<and> sound (s'', {(p, n)})"
proof -
  have p: "power_on 0x9000 heap3 0x10B000" unfolding heap3_def power_on_extend by (rule machine1_on)
  have w: "mb_word (mem heap3) 0x9000 ''mem_upper'' = 0x8000"
    by (simp add: get_word_def field_at_def offsets heap3_def mm.defs machine1_def load32_def)
  have f: "pages_for 5000 = 2" by (simp add: pages_for_def)
  have "0x10B000 div 4096 + 3 + pages_for 5000 \<le> (1024 :: nat)" unfolding f by simp
  moreover have "0x10B000 div 4096 + 3 + pages_for 5000 \<le> 32 * (unat (mb_word (mem heap3) 0x9000 ''mem_upper'') div 128)"
    unfolding f w by simp
  ultimately show ?thesis using boot_then_malloc [OF p heap3_fresh, of 5000] by auto
qed

end
