(* ===== verification/Stubs.thy ===== *)
theory Stubs
  imports Bringup
begin

text \<open>
  The entry points of \<open>start.asm\<close>: the start-up code that calls \<open>main\<close>, the routines behind \<open>gdt_flush\<close> and
  \<open>idt_load\<close>, and the 48 interrupt stubs, each a list of instructions that is run on the registers of the
  processor and the state of the kernel. An interrupt runs the stub that the gate of its vector names; the stub
  builds the \<open>struct regs\<close> that the dispatcher in C gets, and returns to the interrupted code.
\<close>

section \<open>The processor\<close>

datatype segreg = DS | ES | FS | GS

text \<open>
  The registers the C code has no name for. The interrupt flag, \<open>cs\<close> and \<open>ss\<close> are in the kernel's state
  (\<open>int_flag\<close>, \<open>seg_cs\<close>, \<open>seg_data\<close>); \<open>eflags\<close> is the flags register without the interrupt flag, bit 9.
\<close>

record cpu =
  eax :: u32
  ecx :: u32
  edx :: u32
  ebx :: u32
  esp :: u32
  ebp :: u32
  esi :: u32
  edi :: u32
  eip :: u32
  eflags :: u32
  sreg :: "segreg \<Rightarrow> u16"

datatype cfun = C_main | C_fault_handler | C_irq_handler

datatype instr =
    Cli | Iret | Ret | Lgdt | Lidt | Far_jmp u16
  | Push_byte u8 | Push_eax | Push_ebx | Pop_eax | Pusha | Popa | Push_seg segreg | Pop_seg segreg
  | Mov_seg segreg | Mov_ss | Mov_ax u16 | Mov_eax_esp | Mov_eax_fun cfun | Mov_esp_stack | Add_esp u32
  | Call_eax | Call_main

text \<open>
  What the compiler and the linker make of the program: the addresses of the C functions and of the stack, the code
  at an address, the return addresses that calls push, and what a compiled function leaves in the registers and
  in the memory of the stack beyond what its source says.
\<close>

record image =
  fun_addr :: "cfun \<Rightarrow> u32"
  ret_addr :: "cfun \<Rightarrow> u32"
  code_at :: "u32 \<Rightarrow> instr list"
  sys_stack :: u32
  scratch :: "cpu \<Rightarrow> mem \<Rightarrow> cpu \<times> mem"

section \<open>Instructions\<close>

fun push32 :: "u32 \<Rightarrow> cpu \<times> 'a machine_scheme \<Rightarrow> cpu \<times> 'a machine_scheme" where
  "push32 v (c, s) = (c\<lparr>esp := esp c - 4\<rparr>, s\<lparr>mem := store32 (mem s) (esp c - 4) v\<rparr>)"

fun pop32 :: "cpu \<times> 'a machine_scheme \<Rightarrow> u32 \<times> cpu \<times> 'a machine_scheme" where
  "pop32 (c, s) = (load32 (mem s) (esp c), c\<lparr>esp := esp c + 4\<rparr>, s)"

definition flags_word :: "cpu \<Rightarrow> 'a machine_scheme \<Rightarrow> u32" where
  "flags_word c s = (if int_flag s then eflags c OR 0x200 else eflags c)"

definition regs_at :: "mem \<Rightarrow> u32 \<Rightarrow> regs" where
  "regs_at m p = \<lparr>r_gs = load32 m p, r_fs = load32 m (p + 4), r_es = load32 m (p + 8), r_ds = load32 m (p + 12),
     r_edi = load32 m (p + 16), r_esi = load32 m (p + 20), r_ebp = load32 m (p + 24), r_esp = load32 m (p + 28),
     r_ebx = load32 m (p + 32), r_edx = load32 m (p + 36), r_ecx = load32 m (p + 40), r_eax = load32 m (p + 44),
     int_no = load32 m (p + 48), err_code = load32 m (p + 52), r_eip = load32 m (p + 56), r_cs = load32 m (p + 60),
     r_eflags = load32 m (p + 64), r_useresp = load32 m (p + 68), r_ss = load32 m (p + 72)\<rparr>"

text \<open>A call pushes the return address; the function finds its argument above it, and its \<open>ret\<close> takes the address off.\<close>

definition c_call ::
  "image \<Rightarrow> cfun \<Rightarrow> (u32 \<Rightarrow> 'a machine_scheme \<Rightarrow> ('r, 'a machine_scheme) result) \<Rightarrow> cpu \<times> 'a machine_scheme \<Rightarrow>
     (cpu, 'a machine_scheme) result" where
  "c_call B f body x =
     (let (c1, s1) = push32 (ret_addr B f) x in
      res_bind (body (load32 (mem s1) (esp c1 + 4)) s1) (\<lambda>(_, s2).
        let (c2, m) = scratch B c1 (mem s2) in Inr (c2\<lparr>esp := esp c2 + 4\<rparr>, s2\<lparr>mem := m\<rparr>)))"

fun c_body :: "cfun \<Rightarrow> u32 \<Rightarrow> 'a mm_scheme \<Rightarrow> (unit, 'a mm_scheme) result" where
  "c_body C_main p s = res_bind (main p s) (\<lambda>(_, s1). Inr ((), s1))"
| "c_body C_fault_handler p s = fault_handler kernel_call (regs_at (mem s) p) s"
| "c_body C_irq_handler p s = irq_handler kernel_call (regs_at (mem s) p) s"

text \<open>
  \<open>push\<close> of a segment register extends it with zeros; \<open>iret\<close> sets all flags. An indirect call goes to the two
  dispatchers only.
\<close>

fun exec :: "image \<Rightarrow> instr \<Rightarrow> cpu \<times> 'a mm_scheme \<Rightarrow> (cpu, 'a mm_scheme) result" where
  "exec B Cli (c, s) = Inr (c, s\<lparr>int_flag := False\<rparr>)"
| "exec B Iret x =
     (let (ip, x1) = pop32 x; (sel, x2) = pop32 x1; (fl, c3, s3) = pop32 x2
      in Inr (c3\<lparr>eip := ip, eflags := fl AND NOT 0x200\<rparr>, s3\<lparr>seg_cs := ucast sel, int_flag := bit fl 9\<rparr>))"
| "exec B Ret x = (let (ip, c1, s1) = pop32 x in Inr (c1\<lparr>eip := ip\<rparr>, s1))"
| "exec B Lgdt (c, s) = Inr (c, s\<lparr>gdtr := gp s\<rparr>)"
| "exec B Lidt (c, s) = Inr (c, s\<lparr>idtr := idtp s\<rparr>)"
| "exec B (Far_jmp sel) (c, s) = Inr (c, s\<lparr>seg_cs := sel\<rparr>)"
| "exec B (Push_byte b) x = Inr (push32 (scast b) x)"
| "exec B Push_eax (c, s) = Inr (push32 (eax c) (c, s))"
| "exec B Push_ebx (c, s) = Inr (push32 (ebx c) (c, s))"
| "exec B Pop_eax x = (let (v, c1, s1) = pop32 x in Inr (c1\<lparr>eax := v\<rparr>, s1))"
| "exec B Pusha (c, s) = Inr (fold push32 [eax c, ecx c, edx c, ebx c, esp c, ebp c, esi c, edi c] (c, s))"
| "exec B Popa x =
     (let (di, x1) = pop32 x; (si, x2) = pop32 x1; (bp, x3) = pop32 x2; (_, x4) = pop32 x3;
          (b, x5) = pop32 x4; (d, x6) = pop32 x5; (k, x7) = pop32 x6; (a, c8, s8) = pop32 x7
      in Inr (c8\<lparr>edi := di, esi := si, ebp := bp, ebx := b, edx := d, ecx := k, eax := a\<rparr>, s8))"
| "exec B (Push_seg r) (c, s) = Inr (push32 (ucast (sreg c r)) (c, s))"
| "exec B (Pop_seg r) x = (let (v, c1, s1) = pop32 x in Inr (c1\<lparr>sreg := (sreg c1)(r := ucast v)\<rparr>, s1))"
| "exec B (Mov_seg r) (c, s) = Inr (c\<lparr>sreg := (sreg c)(r := ucast (eax c))\<rparr>, s)"
| "exec B Mov_ss (c, s) = Inr (c, s\<lparr>seg_data := ucast (eax c)\<rparr>)"
| "exec B (Mov_ax v) (c, s) = Inr (c\<lparr>eax := (eax c AND 0xFFFF0000) OR ucast v\<rparr>, s)"
| "exec B Mov_eax_esp (c, s) = Inr (c\<lparr>eax := esp c\<rparr>, s)"
| "exec B (Mov_eax_fun f) (c, s) = Inr (c\<lparr>eax := fun_addr B f\<rparr>, s)"
| "exec B Mov_esp_stack (c, s) = Inr (c\<lparr>esp := sys_stack B\<rparr>, s)"
| "exec B (Add_esp n) (c, s) = Inr (c\<lparr>esp := esp c + n\<rparr>, s)"
| "exec B Call_eax (c, s) =
     (if eax c = fun_addr B C_fault_handler then c_call B C_fault_handler (c_body C_fault_handler) (c, s)
      else if eax c = fun_addr B C_irq_handler then c_call B C_irq_handler (c_body C_irq_handler) (c, s)
      else Inl Null_call)"
| "exec B Call_main x = c_call B C_main (c_body C_main) x"

fun run_code :: "image \<Rightarrow> instr list \<Rightarrow> cpu \<times> 'a mm_scheme \<Rightarrow> (cpu, 'a mm_scheme) result" where
  "run_code B [] x = Inr x"
| "run_code B (i # is) x = res_bind (exec B i x) (run_code B is)"

lemma run_code_append: "run_code B (xs @ ys) x = res_bind (run_code B xs x) (run_code B ys)"
proof (induction xs arbitrary: x)
  case (Cons i xs)
  show ?case by (cases "exec B i x") (simp_all add: Cons.IH)
qed simp

section \<open>The code\<close>

definition mboot_header :: "u32 list" where
  "mboot_header = [0x1BADB002, 1 OR 2, - (0x1BADB002 + (1 OR 2))]"

definition start_code :: "instr list" where
  "start_code = [Mov_esp_stack, Push_ebx, Cli, Call_main]"

definition gdt_flush_code :: "instr list" where
  "gdt_flush_code = [Lgdt, Mov_ax 0x10, Mov_seg DS, Mov_seg ES, Mov_seg FS, Mov_seg GS, Mov_ss, Far_jmp 0x08, Ret]"

definition idt_load_code :: "instr list" where
  "idt_load_code = [Lidt, Ret]"

definition stub_entry :: "cfun \<Rightarrow> instr list" where
  "stub_entry f = [Pusha, Push_seg DS, Push_seg ES, Push_seg FS, Push_seg GS, Mov_ax 0x10, Mov_seg DS, Mov_seg ES,
     Mov_seg FS, Mov_seg GS, Mov_eax_esp, Push_eax, Mov_eax_fun f]"

definition stub_exit :: "instr list" where
  "stub_exit = [Pop_eax, Pop_seg GS, Pop_seg FS, Pop_seg ES, Pop_seg DS, Popa, Add_esp 8, Iret]"

definition isr_common_stub :: "instr list" where
  "isr_common_stub = stub_entry C_fault_handler @ Call_eax # stub_exit"

definition irq_common_stub :: "instr list" where
  "irq_common_stub = stub_entry C_irq_handler @ Call_eax # stub_exit"

definition isr_noerr :: "nat \<Rightarrow> instr list" where
  "isr_noerr n = [Cli, Push_byte 0, Push_byte (of_nat n)] @ isr_common_stub"

definition isr_err :: "nat \<Rightarrow> instr list" where
  "isr_err n = [Cli, Push_byte (of_nat n)] @ isr_common_stub"

definition isr_code :: "nat \<Rightarrow> instr list" where
  "isr_code n = (if n \<in> {8, 10, 11, 12, 13, 14} then isr_err n else isr_noerr n)"

definition irq_code :: "nat \<Rightarrow> instr list" where
  "irq_code n = [Cli, Push_byte 0, Push_byte (of_nat (32 + n))] @ irq_common_stub"

section \<open>Interrupts\<close>

text \<open>
  The processor takes an interrupt through an interrupt gate: it saves the flags, \<open>cs\<close> and \<open>eip\<close>, for some
  exceptions an error code, and turns interrupts off.
\<close>

definition enter_gate :: "nat \<Rightarrow> u32 option \<Rightarrow> cpu \<times> 'a mm_scheme \<Rightarrow> cpu \<times> 'a mm_scheme" where
  "enter_gate v ec = (\<lambda>(c, s).
     let g = idt s ! v;
         ws = [flags_word c s, ucast (seg_cs s), eip c] @ (case ec of None \<Rightarrow> [] | Some e \<Rightarrow> [e]);
         (c1, s1) = fold push32 ws (c, s)
     in (c1\<lparr>eip := gate_offset g, eflags := eflags c AND NOT 0x34100\<rparr>,
         s1\<lparr>seg_cs := i_sel g, int_flag := (if i_flags g AND 0x0F = 0x0E then False else int_flag s)\<rparr>))"

definition interrupt :: "image \<Rightarrow> nat \<Rightarrow> u32 option \<Rightarrow> cpu \<times> 'a mm_scheme \<Rightarrow> (cpu, 'a mm_scheme) result" where
  "interrupt B v ec x = (let x1 = enter_gate v ec x in run_code B (code_at B (eip (fst x1))) x1)"

section \<open>The stack\<close>

text \<open>\<open>stacked m p ws\<close>: the words from \<open>p\<close> on are \<open>ws\<close>; \<open>push_words ws p m\<close>: the memory after pushing \<open>ws\<close> below \<open>p\<close>.\<close>

fun stacked :: "mem \<Rightarrow> u32 \<Rightarrow> u32 list \<Rightarrow> bool" where
  "stacked m p [] \<longleftrightarrow> True"
| "stacked m p (w # ws) \<longleftrightarrow> load32 m p = w \<and> stacked m (p + 4) ws"

fun push_words :: "u32 list \<Rightarrow> u32 \<Rightarrow> mem \<Rightarrow> mem" where
  "push_words [] p m = m"
| "push_words (w # ws) p m = push_words ws (p - 4) (store32 m (p - 4) w)"

lemma push_words_append: "push_words (vs @ ws) p m = push_words ws (p - 4 * of_nat (length vs)) (push_words vs p m)"
  by (induction vs arbitrary: p m) (simp_all add: algebra_simps)

lemma fold_push32:
  "fold push32 ws (c, s) = (c\<lparr>esp := esp c - 4 * of_nat (length ws)\<rparr>, s\<lparr>mem := push_words ws (esp c) (mem s)\<rparr>)"
  by (induction ws arbitrary: c s) (simp_all add: algebra_simps)

text \<open>What lies outside of the pushed words stays.\<close>

lemma unat_below:
  fixes p :: u32
  assumes "k \<le> unat p"
  shows "unat (p - of_nat k) = unat p - k"
proof -
  have "k < 4294967296" using assms unat_u32_bound [of p] by linarith
  then have "unat (of_nat k :: u32) = k" by (rule unat_of_nat32)
  moreover from this have "of_nat k \<le> p" using assms by (simp add: word_le_nat_alt)
  ultimately show ?thesis using unat_sub [of "of_nat k" p] by simp
qed

lemma push_words_other:
  assumes "4 * length ws \<le> unat p" and "unat x < unat p - 4 * length ws \<or> unat p \<le> unat x"
  shows "push_words ws p m x = m x"
  using assms
proof (induction ws arbitrary: p m)
  case (Cons w ws)
  have p4: "unat (p - 4) = unat p - 4" using unat_below [of 4 p] Cons.prems(1) by simp
  have "4 \<le> unat (x - (p - 4))"
  proof (cases "unat p \<le> unat x")
    case True
    then have "p - 4 \<le> x" by (simp add: word_le_nat_alt p4)
    then show ?thesis using unat_sub [of "p - 4" x] True p4 Cons.prems(1) by simp
  next
    case False
    then have "unat x < unat (p - 4)" using Cons.prems p4 by simp
    then have "unat x < unat p - 4" "unat (x - (p - 4)) = 4294967296 + unat x - (unat p - 4)"
      using unat_sub_mod [of x "p - 4"] p4 unat_u32_bound [of x] unat_u32_bound [of p] by (simp_all add: p4)
    then show ?thesis using unat_u32_bound [of p] by linarith
  qed
  moreover have "push_words ws (p - 4) (store32 m (p - 4) w) x = store32 m (p - 4) w x"
    by (rule Cons.IH) (use Cons.prems p4 in auto)
  ultimately show ?case by (simp add: store32_other)
qed simp

lemma stacked_cong:
  assumes "stacked m p ws" and "\<And>x. unat p \<le> unat x \<Longrightarrow> unat x < unat p + 4 * length ws \<Longrightarrow> m' x = m x"
    and "unat p + 4 * length ws < 4294967296"
  shows "stacked m' p ws"
  using assms
proof (induction ws arbitrary: p)
  case (Cons w ws)
  have p4: "unat (p + 4) = unat p + 4" using Cons.prems(3) by (subst unat_add_small) simp_all
  have "load32 m' p = load32 m p"
  proof (rule load32_cong)
    fix i :: nat assume "i < 4"
    then have "unat (p + of_nat i) = unat p + i" using Cons.prems(3) unat_of_nat32 [of i] by (subst unat_add_small) simp_all
    then show "m' (p + of_nat i) = m (p + of_nat i)" using \<open>i < 4\<close> by (intro Cons.prems(2)) simp_all
  qed
  then show ?case using Cons.prems Cons.IH [of "p + 4"] p4 by simp
qed simp

lemma stacked_append: "stacked m p (vs @ ws) \<longleftrightarrow> stacked m p vs \<and> stacked m (p + 4 * of_nat (length vs)) ws"
  by (induction vs arbitrary: p) (simp_all add: algebra_simps)

lemma stacked_push:
  assumes "stacked m p ws" and "4 * length vs \<le> unat p" and "unat p + 4 * length ws < 4294967296"
  shows "stacked (push_words vs p m) (p - 4 * of_nat (length vs)) (rev vs @ ws)"
  using assms
proof (induction vs arbitrary: p m ws)
  case (Cons v vs)
  have p4: "unat (p - 4) = unat p - 4" using unat_below [of 4 p] Cons.prems(2) by simp
  have "stacked (store32 m (p - 4) v) p ws"
    using push_words_other [of "[v]" p _ m] Cons.prems by (intro stacked_cong [OF Cons.prems(1)]) simp_all
  then have "stacked (store32 m (p - 4) v) (p - 4) (v # ws)" by simp
  from Cons.IH [OF this] show ?case using Cons.prems p4 by (simp add: algebra_simps)
qed simp

section \<open>Into the dispatcher and out of it\<close>

definition saved_regs :: "cpu \<Rightarrow> u32 \<Rightarrow> u32 list" where
  "saved_regs c e = [eax c, ecx c, edx c, ebx c, e, ebp c, esi c, edi c] @ map (\<lambda>r. ucast (sreg c r)) [DS, ES, FS, GS]"

lemma saved_regs_update [simp]:
  "saved_regs (c\<lparr>esp := a\<rparr>) e = saved_regs c e" "saved_regs (c\<lparr>eip := a\<rparr>) e = saved_regs c e"
  "saved_regs (c\<lparr>eflags := a\<rparr>) e = saved_regs c e"
  by (simp_all add: saved_regs_def)

lemma all_sregs: "f(DS := v, ES := v, FS := v, GS := v) = (\<lambda>_. v)"
proof
  fix r show "(f(DS := v, ES := v, FS := v, GS := v)) r = v" by (cases r) simp_all
qed

lemma low_half: "ucast ((w AND 0xFFFF0000) OR ucast v) = v" for w :: u32 and v :: u16
proof (rule bit_word_eqI)
  fix n assume n: "n < LENGTH(16)"
  have m: "(0xFFFF0000 :: u32) = NOT (mask 16)" by (simp add: mask_eq_exp_minus_1)
  show "bit (ucast ((w AND 0xFFFF0000) OR ucast v) :: u16) n = bit v n" using n by (auto simp: m bit_simps)
qed

lemma run_pushes:
  "run_code B (map Push_byte bs) (c, s) =
     Inr (c\<lparr>esp := esp c - 4 * of_nat (length bs)\<rparr>, s\<lparr>mem := push_words (map scast bs) (esp c) (mem s)\<rparr>)"
  by (induction bs arbitrary: c s) (simp_all add: algebra_simps)

lemma stub_entry_run:
  "run_code B (stub_entry f) (c, s) =
     Inr (c\<lparr>esp := esp c - 52, eax := fun_addr B f, sreg := \<lambda>_. 0x10\<rparr>,
          s\<lparr>mem := push_words (saved_regs c (esp c) @ [esp c - 48]) (esp c) (mem s)\<rparr>)"
  using low_half [where w = "eax c" and v = "0x10"] by (simp add: stub_entry_def saved_regs_def all_sregs)

text \<open>A vector whose gate leads to a stub that pushes the bytes \<open>bs\<close> gets to the dispatcher with this on the stack.\<close>

definition gate_words :: "u32 option \<Rightarrow> u8 list \<Rightarrow> cpu \<times> 'a mm_scheme \<Rightarrow> u32 list" where
  "gate_words ec bs = (\<lambda>(c, s). [flags_word c s, ucast (seg_cs s), eip c] @ (case ec of None \<Rightarrow> [] | Some e \<Rightarrow> [e]) @ map scast bs)"

definition stub_words :: "u32 option \<Rightarrow> u8 list \<Rightarrow> cpu \<times> 'a mm_scheme \<Rightarrow> u32 list" where
  "stub_words ec bs x = (let ws = gate_words ec bs x; e = esp (fst x) - 4 * of_nat (length ws)
     in ws @ saved_regs (fst x) e @ [e - 48])"

definition stub_gate :: "image \<Rightarrow> nat \<Rightarrow> u8 list \<Rightarrow> cfun \<Rightarrow> 'a mm_scheme \<Rightarrow> bool" where
  "stub_gate B v bs f s \<longleftrightarrow> (\<exists>a. idt s ! v = idt_entry_of a 0x08 0x8E \<and>
     code_at B a = Cli # map Push_byte bs @ stub_entry f @ Call_eax # stub_exit)"

lemma enter_stub_gate:
  fixes ec c and s :: "'a mm_scheme"
  assumes "stub_gate B v bs f s"
  defines "ws \<equiv> [flags_word c s, ucast (seg_cs s), eip c] @ (case ec of None \<Rightarrow> [] | Some e \<Rightarrow> [e])"
  shows "\<exists>a. enter_gate v ec (c, s) =
      (c\<lparr>esp := esp c - 4 * of_nat (length ws), eip := a, eflags := eflags c AND NOT 0x34100\<rparr>,
       s\<lparr>mem := push_words ws (esp c) (mem s), seg_cs := 0x08, int_flag := False\<rparr>) \<and>
    code_at B a = Cli # map Push_byte bs @ stub_entry f @ Call_eax # stub_exit"
proof -
  obtain a where a: "idt s ! v = idt_entry_of a 0x08 0x8E"
    "code_at B a = Cli # map Push_byte bs @ stub_entry f @ Call_eax # stub_exit" using assms(1) by (auto simp: stub_gate_def)
  have "gate_offset (idt_entry_of a 0x08 0x8E) = a" by (simp add: gate_offset_def idt_entry_of_def split_offset)
  moreover have "i_sel (idt_entry_of a 0x08 0x8E) = 0x08" "i_flags (idt_entry_of a 0x08 0x8E) = 0x8E"
    by (simp_all add: idt_entry_of_def)
  ultimately show ?thesis
    unfolding enter_gate_def prod.case Let_def ws_def [symmetric] fold_push32 a(1) by (intro exI [of _ a]) (simp add: a(2))
qed

lemma interrupt_dispatch:
  fixes ec c and s :: "'a mm_scheme"
  assumes "stub_gate B v bs f s"
  defines "ws \<equiv> stub_words ec bs (c, s)"
  shows "\<exists>a. interrupt B v ec (c, s) =
    res_bind (exec B Call_eax
      (c\<lparr>eip := a, eflags := eflags c AND NOT 0x34100, esp := esp c - 4 * of_nat (length ws), eax := fun_addr B f, sreg := \<lambda>_. 0x10\<rparr>,
       s\<lparr>seg_cs := 0x08, int_flag := False, mem := push_words ws (esp c) (mem s)\<rparr>)) (run_code B stub_exit)"
proof -
  define us where "us = [flags_word c s, ucast (seg_cs s), eip c] @ (case ec of None \<Rightarrow> [] | Some e \<Rightarrow> [e])"
  obtain a where a: "enter_gate v ec (c, s) =
      (c\<lparr>esp := esp c - 4 * of_nat (length us), eip := a, eflags := eflags c AND NOT 0x34100\<rparr>,
       s\<lparr>mem := push_words us (esp c) (mem s), seg_cs := 0x08, int_flag := False\<rparr>)"
    "code_at B a = Cli # map Push_byte bs @ stub_entry f @ Call_eax # stub_exit"
    using enter_stub_gate [OF assms(1)] unfolding us_def by blast
  define vs where "vs = us @ map scast bs"
  let ?e = "esp c - 4 * of_nat (length vs)"
  have ws: "ws = vs @ saved_regs c ?e @ [?e - 48]"
    by (simp add: ws_def stub_words_def gate_words_def vs_def us_def Let_def)
  have len: "esp c - 4 * of_nat (length ws) = ?e - 52"
    by (simp add: ws saved_regs_def algebra_simps)
  have e: "esp c - 4 * of_nat (length us) - 4 * of_nat (length bs) = ?e" by (simp add: vs_def algebra_simps)
  have "push_words vs (esp c) (mem s) = push_words (map scast bs) (esp c - 4 * of_nat (length us)) (push_words us (esp c) (mem s))"
    by (simp only: vs_def push_words_append)
  then have "push_words (saved_regs c ?e @ [?e - 48]) ?e (push_words (map scast bs) (esp c - 4 * of_nat (length us)) (push_words us (esp c) (mem s))) =
      push_words ws (esp c) (mem s)"
    by (simp only: ws push_words_append [where vs = vs])
  then show ?thesis
    unfolding interrupt_def a(1) Let_def fst_conv
    by (intro exI [of _ a])
      (simp add: a(2) run_code_append run_pushes stub_entry_run e len del: push_words.simps exec.simps(22))
qed

lemma stub_exit_run:
  assumes "stacked (mem s) (esp c) [arg, vgs, vfs, ves, vds, vdi, vsi, vbp, e, vbx, vdx, vcx, vax, n, err, ip, sel, fl]"
  shows "run_code B stub_exit (c, s) =
    Inr (\<lparr>eax = vax, ecx = vcx, edx = vdx, ebx = vbx, esp = esp c + 72, ebp = vbp, esi = vsi, edi = vdi, eip = ip,
          eflags = fl AND NOT 0x200, sreg = (\<lambda>r. case r of DS \<Rightarrow> ucast vds | ES \<Rightarrow> ucast ves | FS \<Rightarrow> ucast vfs | GS \<Rightarrow> ucast vgs),
          \<dots> = cpu.more c\<rparr>,
         s\<lparr>seg_cs := ucast sel, int_flag := bit fl 9\<rparr>)"
proof -
  have "(sreg c)(GS := ucast vgs, FS := ucast vfs, ES := ucast ves, DS := ucast vds) =
      (\<lambda>r. case r of DS \<Rightarrow> ucast vds | ES \<Rightarrow> ucast ves | FS \<Rightarrow> ucast vfs | GS \<Rightarrow> ucast vgs)"
  proof
    fix r show "((sreg c)(GS := ucast vgs, FS := ucast vfs, ES := ucast ves, DS := ucast vds)) r =
      (case r of DS \<Rightarrow> ucast vds | ES \<Rightarrow> ucast ves | FS \<Rightarrow> ucast vfs | GS \<Rightarrow> ucast vgs)" by (cases r) simp_all
  qed
  then show ?thesis using assms by (simp add: stub_exit_def add.assoc)
qed

section \<open>What compiled functions keep\<close>

text \<open>
  The calling convention: a function keeps the registers but \<open>eax\<close>, \<open>ecx\<close>, \<open>edx\<close> and the flags, and of the memory,
  beyond what its source says, it writes only its own frame: the stack up to its first argument.
\<close>

definition stack_low :: "image \<Rightarrow> nat" where
  "stack_low B = unat (sys_stack B) - 8192"

definition cdecl :: "image \<Rightarrow> bool" where
  "cdecl B \<longleftrightarrow> (\<forall>c m. case scratch B c m of (c', m') \<Rightarrow>
     c' = c\<lparr>eax := eax c', ecx := ecx c', edx := edx c', eflags := eflags c'\<rparr> \<and> \<not> bit (eflags c') 9 \<and>
     (\<forall>x. unat x < stack_low B \<or> unat (esp c) + 8 \<le> unat x \<longrightarrow> m' x = m x))"

text \<open>The stack lies above the text memory, and there is room for the frame of an interrupt.\<close>

definition stack_room :: "image \<Rightarrow> cpu \<Rightarrow> bool" where
  "stack_room B c \<longleftrightarrow> 0xB9000 + 8192 \<le> unat (sys_stack B) \<and> stack_low B + 128 \<le> unat (esp c) \<and> unat (esp c) \<le> unat (sys_stack B)"

text \<open>The memory that an interrupt of code with the registers \<open>c\<close> leaves alone.\<close>

definition off_stack :: "image \<Rightarrow> cpu \<Rightarrow> u32 \<Rightarrow> bool" where
  "off_stack B c x \<longleftrightarrow> unat x < stack_low B \<or> unat (esp c) \<le> unat x"

lemma cdecl_frame:
  assumes "cdecl B" and "scratch B c m = (c', m')"
  shows "c' = c\<lparr>eax := eax c', ecx := ecx c', edx := edx c', eflags := eflags c'\<rparr>" "\<not> bit (eflags c') 9"
    "unat x < stack_low B \<or> unat (esp c) + 8 \<le> unat x \<Longrightarrow> m' x = m x"
  using assms by (auto simp: cdecl_def split: prod.splits)

lemma run_code_stub: "run_code B (Call_eax # stub_exit) x = res_bind (exec B Call_eax x) (run_code B stub_exit)"
  by simp

text \<open>The argument of the dispatcher, and the registers it finds there.\<close>

lemma frame_regs:
  assumes "stacked m p [vgs, vfs, ves, vds, vdi, vsi, vbp, e, vbx, vdx, vcx, vax, n, err, ip, sel, fl]"
  shows "regs_at m p = \<lparr>r_gs = vgs, r_fs = vfs, r_es = ves, r_ds = vds, r_edi = vdi, r_esi = vsi, r_ebp = vbp, r_esp = e,
    r_ebx = vbx, r_edx = vdx, r_ecx = vcx, r_eax = vax, int_no = n, err_code = err, r_eip = ip, r_cs = sel, r_eflags = fl,
    r_useresp = load32 m (p + 68), r_ss = load32 m (p + 72)\<rparr>"
  using assms by (simp add: regs_at_def add.assoc)

text \<open>The registers a stub saves, as the dispatcher is to see them.\<close>

definition shown_regs :: "cpu \<Rightarrow> 'a mm_scheme \<Rightarrow> u32 \<Rightarrow> u32 \<Rightarrow> regs \<Rightarrow> bool" where
  "shown_regs c s n err r \<longleftrightarrow> r_eax r = eax c \<and> r_ecx r = ecx c \<and> r_edx r = edx c \<and> r_ebx r = ebx c \<and> r_ebp r = ebp c \<and>
     r_esi r = esi c \<and> r_edi r = edi c \<and> r_ds r = ucast (sreg c DS) \<and> r_es r = ucast (sreg c ES) \<and> r_fs r = ucast (sreg c FS) \<and>
     r_gs r = ucast (sreg c GS) \<and> r_eip r = eip c \<and> r_cs r = ucast (seg_cs s) \<and> r_eflags r = flags_word c s \<and>
     int_no r = n \<and> err_code r = err"

definition frame :: "cpu \<Rightarrow> 'a mm_scheme \<Rightarrow> u32 \<Rightarrow> u32 \<Rightarrow> u32 list" where
  "frame c s n err = [ucast (sreg c GS), ucast (sreg c FS), ucast (sreg c ES), ucast (sreg c DS), edi c, esi c, ebp c, esp c - 20,
     ebx c, edx c, ecx c, eax c, n, err, eip c, ucast (seg_cs s), flags_word c s]"

lemma frame_shown: "stacked m p (frame c s n err) \<Longrightarrow> shown_regs c s n err (regs_at m p)"
  unfolding frame_def by (drule frame_regs) (simp add: shown_regs_def)

text \<open>The state in which the dispatcher runs: on the stack are the return address, the pointer to the frame, and the frame.\<close>

definition in_handler :: "image \<Rightarrow> cfun \<Rightarrow> u32 list \<Rightarrow> cpu \<Rightarrow> 'a mm_scheme \<Rightarrow> 'a mm_scheme" where
  "in_handler B f ws c s = s\<lparr>seg_cs := 0x08, int_flag := False,
     mem := push_words (ws @ [ret_addr B f]) (esp c) (mem s)\<rparr>"

lemma in_handler_words:
  assumes "4 * length ws + 4 \<le> unat (esp c)"
  shows "stacked (mem (in_handler B f ws c s)) (esp c - 4 * of_nat (length ws) - 4) (ret_addr B f # rev ws)"
    "\<And>x. unat x < unat (esp c) - (4 * length ws + 4) \<or> unat (esp c) \<le> unat x \<Longrightarrow> mem (in_handler B f ws c s) x = mem s x"
proof -
  have "stacked (push_words (ws @ [ret_addr B f]) (esp c) (mem s)) (esp c - 4 * of_nat (length (ws @ [ret_addr B f])))
      (rev (ws @ [ret_addr B f]) @ [])"
    by (rule stacked_push) (use assms unat_u32_bound [of "esp c"] in simp_all)
  then show "stacked (mem (in_handler B f ws c s)) (esp c - 4 * of_nat (length ws) - 4) (ret_addr B f # rev ws)"
    by (simp add: in_handler_def algebra_simps)
  show "mem (in_handler B f ws c s) x = mem s x" if "unat x < unat (esp c) - (4 * length ws + 4) \<or> unat (esp c) \<le> unat x" for x
    unfolding in_handler_def by simp (rule push_words_other; use that assms in \<open>simp add: add.commute\<close>)
qed

lemma in_handler_stack:
  assumes "rev ws = (esp c - 68) # frame c s n err" and "stack_room B c"
  shows "stacked (mem (in_handler B f ws c s)) (esp c - 76) (ret_addr B f # (esp c - 68) # frame c s n err)"
    "stacked (mem (in_handler B f ws c s)) (esp c - 68) (frame c s n err)"
    "\<And>x. unat x < unat (esp c) - 76 \<or> unat (esp c) \<le> unat x \<Longrightarrow> mem (in_handler B f ws c s) x = mem s x"
proof -
  have l: "length ws = 18" using arg_cong [OF assms(1), of length] by (simp add: frame_def)
  then have r: "4 * length ws + 4 \<le> unat (esp c)" using assms(2) by (simp add: stack_room_def)
  show *: "stacked (mem (in_handler B f ws c s)) (esp c - 76) (ret_addr B f # (esp c - 68) # frame c s n err)"
    using in_handler_words(1) [OF r, of B f s] by (simp add: l assms(1) diff_diff_eq)
  show "stacked (mem (in_handler B f ws c s)) (esp c - 68) (frame c s n err)" using * by (simp add: add.assoc)
  show "mem (in_handler B f ws c s) x = mem s x" if "unat x < unat (esp c) - 76 \<or> unat (esp c) \<le> unat x" for x
    by (rule in_handler_words(2) [OF r]) (use that l in simp)
qed

lemma flags_word_back:
  assumes "\<not> bit (eflags c) 9"
  shows "flags_word c s AND NOT 0x200 = eflags c" "bit (flags_word c s) 9 = int_flag s"
proof -
  have m: "(0x200 :: u32) = push_bit 9 1" by simp
  have b: "bit (0x200 :: u32) n \<longleftrightarrow> n = 9" for n
    unfolding m bit_push_bit_iff by (auto simp: bit_1_iff)
  show "flags_word c s AND NOT 0x200 = eflags c"
  proof (rule bit_word_eqI)
    fix n assume "n < LENGTH(32)"
    then show "bit (flags_word c s AND NOT 0x200) n = bit (eflags c) n"
      using assms by (cases "int_flag s") (simp_all only: flags_word_def if_True if_False bit_and_iff bit_or_iff bit_not_iff b, auto)
  qed
  show "bit (flags_word c s) 9 = int_flag s" using assms by (cases "int_flag s") (simp_all only: flags_word_def if_True if_False bit_or_iff b, auto)
qed

text \<open>\<open>iret\<close> at the end of a stub finds the frame: every register is restored.\<close>

lemma stub_exit_frame:
  assumes "stacked (mem s) (esp c - 68) (frame c t n err)" and "\<not> bit (eflags c) 9" and "esp c2 = esp c - 72"
  shows "run_code B stub_exit (c2, s) = Inr (c, s\<lparr>seg_cs := seg_cs t, int_flag := int_flag t\<rparr>)"
proof -
  have "stacked (mem s) (esp c2) (load32 (mem s) (esp c2) # frame c t n err)" using assms(1,3) by simp
  note ex = stub_exit_run [OF this [unfolded frame_def]]
  have "(\<lambda>r. case r of DS \<Rightarrow> sreg c DS | ES \<Rightarrow> sreg c ES | FS \<Rightarrow> sreg c FS | GS \<Rightarrow> sreg c GS) = sreg c"
    by (rule ext) (simp split: segreg.split)
  moreover have "ucast (ucast w :: u32) = w" for w :: u16 by (rule bit_word_eqI) (simp add: bit_simps)
  moreover note flags_word_back [OF assms(2), of t]
  ultimately show ?thesis unfolding ex using assms(3) by (auto intro: cpu.equality)
qed

text \<open>A dispatcher that returns and leaves the frame alone: the stub restores every register, and execution goes on where it was
  interrupted.\<close>

text \<open>The call: the body runs on the argument on top of the stack.\<close>

lemma c_call_body:
  assumes "ws = vs @ [arg]" and "4 * length ws + 4 \<le> unat (esp c)" and "esp c1 = esp c - 4 * of_nat (length ws)"
  shows "c_call B f body (c1, s\<lparr>seg_cs := 0x08, int_flag := False, mem := push_words ws (esp c) (mem s)\<rparr>) =
    res_bind (body arg (in_handler B f ws c s)) (\<lambda>(_, s2).
      let (c2, m) = scratch B (c1\<lparr>esp := esp c1 - 4\<rparr>) (mem s2) in Inr (c2\<lparr>esp := esp c2 + 4\<rparr>, s2\<lparr>mem := m\<rparr>))"
proof -
  let ?s1 = "in_handler B f ws c s"
  have p: "push32 (ret_addr B f) (c1, s\<lparr>seg_cs := 0x08, int_flag := False, mem := push_words ws (esp c) (mem s)\<rparr>) =
      (c1\<lparr>esp := esp c1 - 4\<rparr>, ?s1)"
    by (simp add: in_handler_def push_words_append assms(3))
  have "load32 (mem ?s1) (esp c1 - 4 + 4) = arg"
    using in_handler_words(1) [OF assms(2), of B f s] by (simp add: assms(1,3))
  then show ?thesis unfolding c_call_def p Let_def prod.case by simp
qed

lemma c_call_run:
  assumes "rev ws = (esp c - 68) # frame c s n err" and "stack_room B c"
    and "body (esp c - 68) (in_handler B f ws c s) = Inr (u, s2)" and "esp c1 = esp c - 72"
    and "scratch B (c1\<lparr>esp := esp c - 76\<rparr>) (mem s2) = (c2, m)"
  shows "c_call B f body (c1, s\<lparr>seg_cs := 0x08, int_flag := False, mem := push_words ws (esp c) (mem s)\<rparr>) =
    Inr (c2\<lparr>esp := esp c2 + 4\<rparr>, s2\<lparr>mem := m\<rparr>)"
proof -
  have ws: "ws = rev (frame c s n err) @ [esp c - 68]" using arg_cong [OF assms(1), of rev] by simp
  have l: "length ws = 18" using arg_cong [OF assms(1), of length] by (simp add: frame_def)
  have "4 * length ws + 4 \<le> unat (esp c)" using l assms(2) by (simp add: stack_room_def)
  from c_call_body [where body = body, OF ws this, of c1 B f s] show ?thesis using assms(3-5) l by (simp add: diff_diff_eq)
qed

lemma stub_returns:
  assumes "cdecl B" and "stack_room B c" and "\<not> bit (eflags c) 9" and "rev ws = (esp c - 68) # frame c s n err"
    and "body (esp c - 68) (in_handler B f ws c s) = Inr (u, s2)"
    and "\<And>x. unat (esp c) - 68 \<le> unat x \<Longrightarrow> unat x < unat (esp c) \<Longrightarrow> mem s2 x = mem (in_handler B f ws c s) x"
  shows "\<exists>m. res_bind (c_call B f body (c\<lparr>eip := a, eflags := fl, esp := esp c - 72, eax := v, sreg := g\<rparr>,
        s\<lparr>seg_cs := 0x08, int_flag := False, mem := push_words ws (esp c) (mem s)\<rparr>)) (run_code B stub_exit) =
      Inr (c, s2\<lparr>mem := m, seg_cs := seg_cs s, int_flag := int_flag s\<rparr>) \<and> (\<forall>x. off_stack B c x \<longrightarrow> m x = mem s2 x)"
proof -
  let ?c1 = "c\<lparr>eip := a, eflags := fl, esp := esp c - 72, eax := v, sreg := g\<rparr>"
  have room: "stack_low B + 128 \<le> unat (esp c)" using assms(2) by (simp add: stack_room_def)
  have p: "unat (esp c - 76) = unat (esp c) - 76" "unat (esp c - 68) = unat (esp c) - 68"
    using unat_below [of 76 "esp c"] unat_below [of 68 "esp c"] room by simp_all
  obtain c2 m where sc: "scratch B (?c1\<lparr>esp := esp c - 76\<rparr>) (mem s2) = (c2, m)" by fastforce
  note fr = cdecl_frame [OF assms(1) sc]
  have e: "esp c2 = esp c - 76" by (subst fr(1)) simp
  have call: "c_call B f body (?c1, s\<lparr>seg_cs := 0x08, int_flag := False, mem := push_words ws (esp c) (mem s)\<rparr>) =
      Inr (c2\<lparr>esp := esp c2 + 4\<rparr>, s2\<lparr>mem := m\<rparr>)"
    by (rule c_call_run [where body = body, OF assms(4,2)]) (use assms(5) sc in simp_all)
  have keep: "m x = mem s2 x" if "unat x < stack_low B \<or> unat (esp c) - 68 \<le> unat x" for x
    by (rule fr(3)) (use that p room in auto)
  have "stacked m (esp c - 68) (frame c s n err)"
    by (rule stacked_cong [OF in_handler_stack(2) [OF assms(4,2)]])
      (use p room keep assms(6) unat_u32_bound [of "esp c"] in \<open>simp_all add: frame_def\<close>)
  from stub_exit_frame [where s = "s2\<lparr>mem := m\<rparr>" and c = c and ?c2.0 = "c2\<lparr>esp := esp c2 + 4\<rparr>", simplified, OF this assms(3)]
  have "run_code B stub_exit (c2\<lparr>esp := esp c2 + 4\<rparr>, s2\<lparr>mem := m\<rparr>) =
      Inr (c, s2\<lparr>mem := m, seg_cs := seg_cs s, int_flag := int_flag s\<rparr>)" by (simp add: e)
  then show ?thesis unfolding call using keep by (intro exI [of _ m]) (simp add: off_stack_def, metis diff_le_self le_trans)
qed

section \<open>The linked program\<close>

definition linked_image :: "image \<Rightarrow> 'a mm_scheme \<Rightarrow> bool" where
  "linked_image B s \<longleftrightarrow> cdecl B \<and> fun_addr B C_fault_handler \<noteq> fun_addr B C_irq_handler \<and>
     (\<forall>n < 32. code_at B (isr_stub s n) = isr_code n) \<and> (\<forall>n < 16. code_at B (irq_stub s n) = irq_code n)"

lemma irq_stub_gate:
  assumes "linked_image B s" and "vectors_set s" and "n < 16"
  shows "stub_gate B (32 + n) [0, of_nat (32 + n)] C_irq_handler s"
  using assms by (auto simp: stub_gate_def linked_image_def vectors_set_def irq_code_def irq_common_stub_def simp del: of_nat_add)

lemma isr_stub_gate:
  assumes "linked_image B s" and "vectors_set s" and "n < 32"
  shows "stub_gate B n (if n \<in> {8, 10, 11, 12, 13, 14} then [of_nat n] else [0, of_nat n]) C_fault_handler s"
  using assms by (auto simp: stub_gate_def linked_image_def vectors_set_def isr_code_def isr_err_def isr_noerr_def isr_common_stub_def)

lemma pushed_vector: "n < 48 \<Longrightarrow> scast (of_nat n :: u8) = (of_nat n :: u32)"
proof -
  assume "n < 48"
  moreover have "list_all (\<lambda>n. scast (of_nat n :: u8) = (of_nat n :: u32)) [0..<48]" by code_simp
  ultimately show ?thesis by (simp add: list_all_iff)
qed

lemma stub_words_frame:
  "rev (stub_words None [0, b] (c, s)) = (esp c - 68) # frame c s (scast b) 0"
  "rev (stub_words (Some e) [b] (c, s)) = (esp c - 68) # frame c s (scast b) e"
  by (simp_all add: stub_words_def gate_words_def saved_regs_def frame_def Let_def diff_diff_eq)

text \<open>The way to the dispatcher: with the frame on the stack it is called, and then the stub returns.\<close>

lemma interrupt_run:
  fixes c ec and s :: "'a mm_scheme"
  assumes "linked_image B s" and "stub_gate B v bs f s" and "f = C_fault_handler \<or> f = C_irq_handler"
  defines "ws \<equiv> stub_words ec bs (c, s)"
  shows "\<exists>a. interrupt B v ec (c, s) = res_bind (c_call B f (c_body f)
      (c\<lparr>eip := a, eflags := eflags c AND NOT 0x34100, esp := esp c - 4 * of_nat (length ws), eax := fun_addr B f, sreg := \<lambda>_. 0x10\<rparr>,
       s\<lparr>seg_cs := 0x08, int_flag := False, mem := push_words ws (esp c) (mem s)\<rparr>)) (run_code B stub_exit)"
  using interrupt_dispatch [OF assms(2), of ec c] assms(1,3) unfolding ws_def by (auto simp: linked_image_def)

lemma stub_words_argument: "\<exists>vs. stub_words ec bs (c, s) = vs @ [esp c - 4 * of_nat (length (stub_words ec bs (c, s))) + 4]"
  by (simp add: stub_words_def saved_regs_def Let_def algebra_simps)

lemma exception_dispatch:
  fixes c ec bs and s :: "'a mm_scheme"
  defines "ws \<equiv> stub_words ec bs (c, s)"
  assumes "linked_image B s" and "stub_gate B v bs C_fault_handler s" and "4 * length ws + 4 \<le> unat (esp c)"
  defines "s1 \<equiv> in_handler B C_fault_handler ws c s"
  shows "\<exists>c1. interrupt B v ec (c, s) =
    res_bind (res_bind (fault_handler kernel_call (regs_at (mem s1) (esp c - 4 * of_nat (length ws) + 4)) s1) (\<lambda>(_, s2).
      let (c2, m) = scratch B c1 (mem s2) in Inr (c2\<lparr>esp := esp c2 + 4\<rparr>, s2\<lparr>mem := m\<rparr>))) (run_code B stub_exit)"
proof -
  obtain vs where vs: "ws = vs @ [esp c - 4 * of_nat (length ws) + 4]" using stub_words_argument [of ec bs c s] unfolding ws_def by blast
  obtain a where a: "interrupt B v ec (c, s) = res_bind (c_call B C_fault_handler (c_body C_fault_handler)
      (c\<lparr>eip := a, eflags := eflags c AND NOT 0x34100, esp := esp c - 4 * of_nat (length ws), eax := fun_addr B C_fault_handler, sreg := \<lambda>_. 0x10\<rparr>,
       s\<lparr>seg_cs := 0x08, int_flag := False, mem := push_words ws (esp c) (mem s)\<rparr>)) (run_code B stub_exit)"
    using interrupt_run [OF assms(2,3), of ec c] unfolding ws_def by blast
  have "esp (c\<lparr>eip := a, eflags := eflags c AND NOT 0x34100, esp := esp c - 4 * of_nat (length ws), eax := fun_addr B C_fault_handler,
      sreg := \<lambda>_. 0x10\<rparr>) = esp c - 4 * of_nat (length ws)" by simp
  note call = c_call_body [OF vs assms(4) this, where f = C_fault_handler and body = "c_body C_fault_handler" and B = B and s = s]
  show ?thesis unfolding a call s1_def c_body.simps by (rule exI, rule refl)
qed

section \<open>Interrupts of the running kernel\<close>

lemma irq_returns:
  assumes "linked_image B s" and "vectors_set s" and "stack_room B c" and "\<not> bit (eflags c) 9" and "running (s, mv)"
    and "textmemptr s = 0xB8000" and "counters m s" and "m + count_list [e] Tick < 2147483648"
  shows "\<exists>s1 m. interrupt B (line_vector mv (line_of e)) None (c, s) =
      Inr (c, (served e s1)\<lparr>mem := m, seg_cs := seg_cs s, int_flag := int_flag s\<rparr>) \<and>
    (\<exists>m1. s1 = s\<lparr>seg_cs := 0x08, int_flag := False, mem := m1\<rparr> \<and> (\<forall>x. off_stack B c x \<longrightarrow> m1 x = mem s x)) \<and>
    (\<forall>x. off_stack B c x \<longrightarrow> m x = mem (served e s1) x)"
proof -
  let ?n = "line_of e" and ?f = C_irq_handler
  have n: "?n < 16" and v: "line_vector mv ?n = 32 + ?n" using assms(5) by (cases e; simp add: running_def line_vector_def)+
  define ws where "ws = stub_words None [0, of_nat (32 + ?n)] (c, s)"
  have ws: "rev ws = (esp c - 68) # frame c s (of_nat (32 + ?n)) 0"
    unfolding ws_def stub_words_frame using n by (simp add: pushed_vector del: of_nat_add)
  have l: "length ws = 18" using arg_cong [OF ws, of length] by (simp add: frame_def)
  let ?s1 = "in_handler B ?f ws c s"
  have s1: "?s1 = s\<lparr>seg_cs := 0x08, int_flag := False, mem := mem ?s1\<rparr>" by (simp add: in_handler_def)
  have run: "running (?s1, mv)" "counters m ?s1" "textmemptr ?s1 = 0xB8000"
    using assms(5-7) by (simp_all add: running_def console_ok_def counters_def in_handler_def)
  note st = in_handler_stack [OF ws assms(3), where f = ?f]
  have "int_no (regs_at (mem ?s1) (esp c - 68)) = of_nat (line_vector mv ?n)"
    using frame_shown [OF st(2)] by (simp add: shown_regs_def v)
  then have body: "c_body ?f (esp c - 68) ?s1 = Inr ((), served e ?s1)" using irq_serves [OF run(1)] by simp
  have r: "stack_low B + 128 \<le> unat (esp c)" "0xB9000 \<le> stack_low B"
    using assms(3) unfolding stack_room_def stack_low_def by linarith+
  have "outside 0xB8000 (mem ?s1) (mem (served e ?s1))"
    using served_run(4) [OF run(1,2) assms(8)] run(3) by (simp add: types_def)
  then have keep: "mem (served e ?s1) x = mem ?s1 x" if "unat (esp c) - 68 \<le> unat x" for x
    by (rule text_apart) (use that r in linarith)
  obtain a where a: "interrupt B (32 + ?n) None (c, s) = res_bind (c_call B ?f (c_body ?f)
      (c\<lparr>eip := a, eflags := eflags c AND NOT 0x34100, esp := esp c - 72, eax := fun_addr B ?f, sreg := \<lambda>_. 0x10\<rparr>,
       s\<lparr>seg_cs := 0x08, int_flag := False, mem := push_words ws (esp c) (mem s)\<rparr>)) (run_code B stub_exit)"
    using interrupt_run [OF assms(1) irq_stub_gate [OF assms(1,2) n], of None c] l unfolding ws_def [symmetric] by auto
  have cd: "cdecl B" using assms(1) by (simp add: linked_image_def)
  obtain m where m: "interrupt B (32 + ?n) None (c, s) = Inr (c, (served e ?s1)\<lparr>mem := m, seg_cs := seg_cs s, int_flag := int_flag s\<rparr>)"
    "\<forall>x. off_stack B c x \<longrightarrow> m x = mem (served e ?s1) x"
    unfolding a using stub_returns [where body = "c_body ?f", OF cd assms(3,4) ws body keep] by blast
  have "mem ?s1 x = mem s x" if "off_stack B c x" for x
    by (rule st(3)) (use that r in \<open>auto simp: off_stack_def\<close>)
  then show ?thesis unfolding v using m s1 by blast
qed

section \<open>The machine\<close>

text \<open>
  The processor, the kernel and the two interrupt controllers. A device's interrupt is taken when interrupts are on and
  no other one is in service; the processor runs the stub of its vector. Between interrupts a processor that
  waits in \<open>jmp $\<close> changes nothing.
\<close>

inductive machine_step ::
  "image \<Rightarrow> event \<Rightarrow> cpu \<times> 'a mm_scheme \<times> pic \<times> pic \<Rightarrow> cpu \<times> 'a mm_scheme \<times> pic \<times> pic \<Rightarrow> bool" for B where
  "machine_step B e (c, s, mv) (c', t, pics (drop (length (port_out s)) (port_out t)) (deliver (line_of e) mv))"
    if "int_flag s" and "idle_pics mv" and "interrupt B (line_vector mv (line_of e)) None (c, s) = Inr (c', t)"

inductive_simps machine_step_simps: "machine_step B e (c, s, mv) y"

inductive machine_run ::
  "image \<Rightarrow> event list \<Rightarrow> cpu \<times> 'a mm_scheme \<times> pic \<times> pic \<Rightarrow> cpu \<times> 'a mm_scheme \<times> pic \<times> pic \<Rightarrow> bool" for B where
  machine_Nil: "machine_run B [] x x"
| machine_Cons: "machine_step B e x y \<Longrightarrow> machine_run B es y z \<Longrightarrow> machine_run B (e # es) x z"

inductive_simps machine_run_simps [simp]: "machine_run B [] x y" "machine_run B (e # es) x y"

text \<open>What the interrupted code and the kernel have to be like, which every interrupt keeps.\<close>

definition idling :: "image \<Rightarrow> cpu \<Rightarrow> 'a mm_scheme \<Rightarrow> pic \<times> pic \<Rightarrow> bool" where
  "idling B c s mv \<longleftrightarrow> running (s, mv) \<and> int_flag s \<and> textmemptr s = 0xB8000 \<and> linked_image B s \<and> vectors_set s \<and> stack_room B c \<and>
     \<not> bit (eflags c) 9"

text \<open>What interrupts change: the state of the devices' drivers and the console, the screen, and the stack below the interrupted code.\<close>

definition devices_only :: "image \<Rightarrow> cpu \<Rightarrow> 'a mm_scheme \<Rightarrow> 'a mm_scheme \<Rightarrow> bool" where
  "devices_only B c s t \<longleftrightarrow>
     (\<exists>m p i x y k l sh al ct. t = s\<lparr>mem := m, port_out := p, in_pos := i, csr_x := x, csr_y := y,
        timer_ticks := k, ticker := l, kb_shift := sh, kb_alt := al, kb_ctrl := ct\<rparr>) \<and>
     (\<forall>x. off_stack B c x \<and> (unat x < 0xB8000 \<or> 0xB9000 \<le> unat x) \<longrightarrow> mem t x = mem s x)"

lemma devices_onlyI:
  assumes "t = s\<lparr>mem := mem t, port_out := port_out t, in_pos := in_pos t, csr_x := csr_x t, csr_y := csr_y t,
      timer_ticks := timer_ticks t, ticker := ticker t, kb_shift := kb_shift t, kb_alt := kb_alt t, kb_ctrl := kb_ctrl t\<rparr>"
    and "\<And>x. off_stack B c x \<Longrightarrow> unat x < 0xB8000 \<or> 0xB9000 \<le> unat x \<Longrightarrow> mem t x = mem s x"
  shows "devices_only B c s t"
  unfolding devices_only_def using assms by blast

lemma devices_only_refl: "devices_only B c s s"
  by (rule devices_onlyI) simp_all

lemma devices_only_trans:
  assumes "devices_only B c s t" and "devices_only B c t u"
  shows "devices_only B c s u"
proof (rule devices_onlyI)
  show "u = s\<lparr>mem := mem u, port_out := port_out u, in_pos := in_pos u, csr_x := csr_x u, csr_y := csr_y u,
      timer_ticks := timer_ticks u, ticker := ticker u, kb_shift := kb_shift u, kb_alt := kb_alt u, kb_ctrl := kb_ctrl u\<rparr>"
    using assms unfolding devices_only_def by (elim conjE exE) (rule mm.equality; simp)
  show "mem u x = mem s x" if "off_stack B c x" "unat x < 0xB8000 \<or> 0xB9000 \<le> unat x" for x
    using assms that by (simp add: devices_only_def)
qed

lemma screen_off_stack:
  assumes "stack_room B c" and "\<And>x. off_stack B c x \<Longrightarrow> m x = mem s x" and "textmemptr s = 0xB8000"
  shows "screen_of (s\<lparr>mem := m\<rparr>) = screen_of s"
proof -
  have "0xB9000 \<le> stack_low B" using assms(1) unfolding stack_room_def stack_low_def by linarith
  then have "text_rows m 0xB8000 = text_rows (mem s) 0xB8000" by (intro text_rows_cong assms(2)) (simp add: off_stack_def)
  then show ?thesis by (simp add: screen_of_def assms(3))
qed

lemma served_codes:
  assumes "running (s, mv)" and "counters m s" and "m + count_list [e] Tick < 2147483648"
  shows "next_codes (count_list [e] Key + k) s = next_codes (count_list [e] Key) s @ next_codes k (served e s)"
proof (cases e)
  case Tick
  then show ?thesis using served_Tick(4) [OF assms(1,2)] assms(3) by (simp add: next_codes_simps)
next
  case Key
  then show ?thesis using served_Key(4) [OF assms(1,2)] by (simp add: next_codes_simps)
qed

lemma idle_step:
  assumes "idling B c s mv" and "counters m s" and "m + count_list [e] Tick < 2147483648"
  shows "\<exists>t. (\<forall>y. machine_step B e (c, s, mv) y \<longleftrightarrow> y = (c, t, mv)) \<and> idling B c t mv \<and> counters (m + count_list [e] Tick) t \<and>
    screen_of t = fold scr_putch (fst (typed [e] s)) (screen_of s) \<and> mods_of t = snd (typed [e] s) \<and>
    (\<forall>k. next_codes (count_list [e] Key + k) s = next_codes (count_list [e] Key) s @ next_codes k t) \<and> devices_only B c s t"
proof -
  note i = assms(1) [unfolded idling_def]
  have run: "running (s, mv)" and room: "stack_room B c" and tm: "textmemptr s = 0xB8000" using i by simp_all
  obtain s1 m1 m' where irq: "interrupt B (line_vector mv (line_of e)) None (c, s) =
      Inr (c, (served e s1)\<lparr>mem := m', seg_cs := seg_cs s, int_flag := int_flag s\<rparr>)"
    "s1 = s\<lparr>seg_cs := 0x08, int_flag := False, mem := m1\<rparr>" "\<And>x. off_stack B c x \<Longrightarrow> m1 x = mem s x"
    "\<And>x. off_stack B c x \<Longrightarrow> m' x = mem (served e s1) x"
    using irq_returns [where mv = mv, OF _ _ room _ run tm assms(2,3)] i by blast
  define t where "t = (served e s1)\<lparr>mem := m', seg_cs := seg_cs s, int_flag := int_flag s\<rparr>"
  have run1: "running (s1, mv)" "counters m s1" using run assms(2) by (simp_all add: irq(2) running_def console_ok_def counters_def)
  note sv = served_run [OF run1 assms(3), simplified fold_simps]
  have ty: "typed [e] s1 = typed [e] s" by (simp add: typed_def irq(2) mods_of_def next_codes_def)
  have sc: "screen_of s1 = screen_of s"
    using screen_off_stack [OF room irq(3) tm] by (simp add: irq(2) screen_of_def)
  obtain m2 p ip x y sh al ct k l where f0: "served e s1 = s1\<lparr>mem := m2, port_out := p, in_pos := ip, csr_x := x, csr_y := y,
     timer_ticks := k, ticker := l, kb_shift := sh, kb_alt := al, kb_ctrl := ct\<rparr>" using served_fields [of e s1] by (elim exE)
  note f = f0 [unfolded irq(2)]
  have tmt: "textmemptr (served e s1) = 0xB8000" by (simp add: f irq(2) tm)
  have "screen_of t = screen_of (served e s1)"
    using screen_off_stack [OF room irq(4) tmt] by (simp add: t_def screen_of_def)
  then have screen: "screen_of t = fold scr_putch (fst (typed [e] s)) (screen_of s)" "mods_of t = snd (typed [e] s)"
    using sv(4) sc ty by (simp_all add: types_def t_def mods_of_def)
  have dev: "devices_only B c s t"
  proof (rule devices_onlyI)
    show "t = s\<lparr>mem := mem t, port_out := port_out t, in_pos := in_pos t, csr_x := csr_x t, csr_y := csr_y t,
      timer_ticks := timer_ticks t, ticker := ticker t, kb_shift := kb_shift t, kb_alt := kb_alt t, kb_ctrl := kb_ctrl t\<rparr>"
      by (rule mm.equality) (simp_all add: t_def f irq(2))
    show "mem t x = mem s x" if "off_stack B c x" "unat x < 0xB8000 \<or> 0xB9000 \<le> unat x" for x
    proof -
      have "outside 0xB8000 (mem s1) (mem (served e s1))" using sv(4) by (simp add: types_def irq(2) tm)
      from text_apart [OF this that(2)] show ?thesis using irq(3,4) that(1) by (simp add: t_def irq(2))
    qed
  qed
  have "idling B c t mv"
    using i sv(2) by (simp add: idling_def t_def running_def console_ok_def linked_image_def vectors_set_def f irq(2))
  moreover have "counters (m + count_list [e] Tick) t" using sv(3) by (simp add: counters_def t_def)
  moreover have "next_codes (count_list [e] Key + k) s = next_codes (count_list [e] Key) s @ next_codes k t" for k
    using served_codes [OF run1 assms(3), of k] by (simp add: next_codes_def t_def irq(2))
  moreover have "machine_step B e (c, s, mv) y \<longleftrightarrow> y = (c, t, mv)" for y
  proof -
    have idle: "idle_pics mv" "int_flag s" using i by (simp_all add: running_def)
    have "port_out s1 = port_out s" "port_out t = port_out (served e s1)" by (simp_all add: irq(2) t_def)
    then show ?thesis using served_pics [OF idle(1), of s1 e] irq(1) idle
      unfolding machine_step_simps t_def [symmetric] by auto
  qed
  ultimately show ?thesis using screen dev by blast
qed

lemma typed_Cons:
  assumes "mods_of t = snd (typed [e] s)"
    and "\<And>k. next_codes (count_list [e] Key + k) s = next_codes (count_list [e] Key) s @ next_codes k t"
  shows "typed (e # es) s = (fst (typed [e] s) @ fst (typed es t), snd (typed es t))"
proof -
  have "count_list (e # es) Key = count_list [e] Key + count_list es Key" by simp
  then show ?thesis
    using assms unfolding typed_def by (simp only: decode_all_append Let_def split: prod.splits) auto
qed

lemma idle_run:
  assumes "idling B c s mv" and "counters m s" and "m + count_list es Tick < 2147483648"
  shows "\<exists>t. (\<forall>y. machine_run B es (c, s, mv) y \<longleftrightarrow> y = (c, t, mv)) \<and> idling B c t mv \<and> counters (m + count_list es Tick) t \<and>
    screen_of t = fold scr_putch (fst (typed es s)) (screen_of s) \<and> mods_of t = snd (typed es s) \<and> devices_only B c s t"
  using assms
proof (induction es arbitrary: s m)
  case Nil
  then show ?case by (intro exI [of _ s]) (auto simp: typed_def next_codes_simps devices_only_refl)
next
  case (Cons e es)
  have n: "m + count_list (e # es) Tick = (m + count_list [e] Tick) + count_list es Tick" by simp
  then have b: "m + count_list [e] Tick < 2147483648" "(m + count_list [e] Tick) + count_list es Tick < 2147483648"
    using Cons.prems(3) by linarith+
  obtain t where t: "\<And>y. machine_step B e (c, s, mv) y \<longleftrightarrow> y = (c, t, mv)" "idling B c t mv" "counters (m + count_list [e] Tick) t"
    "screen_of t = fold scr_putch (fst (typed [e] s)) (screen_of s)" "mods_of t = snd (typed [e] s)"
    "\<And>k. next_codes (count_list [e] Key + k) s = next_codes (count_list [e] Key) s @ next_codes k t" "devices_only B c s t"
    using idle_step [OF Cons.prems(1,2) b(1)] by blast
  obtain u where u: "\<And>y. machine_run B es (c, t, mv) y \<longleftrightarrow> y = (c, u, mv)" "idling B c u mv"
    "counters ((m + count_list [e] Tick) + count_list es Tick) u"
    "screen_of u = fold scr_putch (fst (typed es t)) (screen_of t)" "mods_of u = snd (typed es t)" "devices_only B c t u"
    using Cons.IH [OF t(2,3) b(2)] by blast
  note ty = typed_Cons [OF t(5,6), of es]
  have "machine_run B (e # es) (c, s, mv) y \<longleftrightarrow> y = (c, u, mv)" for y
    using t(1) u(1) by (cases mv) auto
  moreover have "screen_of u = fold scr_putch (fst (typed (e # es) s)) (screen_of s)" "mods_of u = snd (typed (e # es) s)"
    by (simp_all add: ty u(4,5) t(4))
  ultimately show ?case
    using u(2,3) devices_only_trans [OF t(7) u(6)] unfolding n by blast
qed

section \<open>From the boot loader to the idle loop\<close>

text \<open>The state in which \<open>start\<close> calls \<open>main\<close>: the pointer that the boot loader left in \<open>ebx\<close>, and the return address, are on
  the stack, and interrupts are off.\<close>

definition at_main :: "image \<Rightarrow> cpu \<Rightarrow> 'a mm_scheme \<Rightarrow> 'a mm_scheme" where
  "at_main B c s = s\<lparr>int_flag := False, mem := push_words [ebx c, ret_addr B C_main] (sys_stack B) (mem s)\<rparr>"

lemma start_run:
  assumes "cdecl B" and "0xB9000 + 8192 \<le> unat (sys_stack B)" and "main (ebx c) (at_main B c s) = Inr (v, s')"
  shows "\<exists>c' m. run_code B start_code (c, s) = Inr (c', s'\<lparr>mem := m\<rparr>) \<and> esp c' = sys_stack B - 4 \<and> \<not> bit (eflags c') 9 \<and>
    (\<forall>x. unat x < stack_low B \<or> unat (sys_stack B) \<le> unat x \<longrightarrow> m x = mem s' x)"
proof -
  let ?e = "sys_stack B"
  let ?c1 = "c\<lparr>esp := ?e - 8\<rparr>"
  obtain c2 m where sc: "scratch B ?c1 (mem s') = (c2, m)" by fastforce
  note fr = cdecl_frame [OF assms(1) sc]
  have "stacked (mem (at_main B c s)) (?e - 8) [ret_addr B C_main, ebx c]"
    using stacked_push [of "mem s" ?e "[]" "[ebx c, ret_addr B C_main]"] assms(2) unat_u32_bound [of ?e]
    by (simp add: at_main_def)
  then have "load32 (mem (at_main B c s)) (?e - 8 + 4) = ebx c" by simp
  then have body: "c_body C_main (load32 (mem (at_main B c s)) (?e - 8 + 4)) (at_main B c s) = Inr ((), s')"
    using assms(3) by simp
  have push: "push32 (ret_addr B C_main) (c\<lparr>esp := ?e - 4\<rparr>, s\<lparr>mem := store32 (mem s) (?e - 4) (ebx c), int_flag := False\<rparr>) =
      (?c1, at_main B c s)" by (simp add: at_main_def diff_diff_eq)
  have "run_code B start_code (c, s) =
      res_bind (c_call B C_main (c_body C_main) (c\<lparr>esp := ?e - 4\<rparr>, s\<lparr>mem := store32 (mem s) (?e - 4) (ebx c), int_flag := False\<rparr>))
        (run_code B [])"
    by (simp add: start_code_def del: c_body.simps)
  also have "\<dots> = Inr (c2\<lparr>esp := esp c2 + 4\<rparr>, s'\<lparr>mem := m\<rparr>)"
    unfolding c_call_def push Let_def prod.case using body sc by simp
  finally have "run_code B start_code (c, s) = Inr (c2\<lparr>esp := esp c2 + 4\<rparr>, s'\<lparr>mem := m\<rparr>)"
    .
  moreover have "esp c2 + 4 = ?e - 4" by (subst fr(1)) simp
  moreover have "m x = mem s' x" if "unat x < stack_low B \<or> unat ?e \<le> unat x" for x
    by (rule fr(3)) (use that unat_below [of 8 ?e] assms(2) in auto)
  ultimately show ?thesis by (intro exI [of _ "c2\<lparr>esp := esp c2 + 4\<rparr>"] exI [of _ m]) (simp add: fr(2))
qed

text \<open>The header that the boot loader looks at lies below the stack.\<close>

definition info_below_stack :: "image \<Rightarrow> u32 \<Rightarrow> 'a mm_scheme \<Rightarrow> bool" where
  "info_below_stack B mb s \<longleftrightarrow> unat mb + 96 \<le> stack_low B \<and>
     (0 < mb_word (mem s) mb ''mods_count'' \<longrightarrow> unat (mb_word (mem s) mb ''mods_addr'') + 8 \<le> stack_low B)"

lemma power_on_at_main:
  assumes "power_on mb s e" and "info_below_stack B mb s" and "0xB9000 + 8192 \<le> unat (sys_stack B)"
  shows "power_on mb (at_main B c s) e"
proof -
  let ?m = "mem (at_main B c s)"
  have low: "?m x = mem s x" if "unat x < stack_low B" for x
    unfolding at_main_def using assms(3) that unat_below [of 8 "sys_stack B"]
    by (simp del: push_words.simps) (rule push_words_other, auto simp: stack_low_def)
  have word: "load32 ?m a = load32 (mem s) a" if "unat a + 4 \<le> stack_low B" for a
  proof (rule load32_cong)
    fix i :: nat assume i: "i < 4"
    have "stack_low B < 4294967296" using unat_u32_bound [of "sys_stack B"] by (simp add: stack_low_def)
    then have "unat (a + of_nat i) = unat a + i" using i that unat_of_nat32 [of i] by (subst unat_add_small) simp_all
    then show "?m (a + of_nat i) = mem s (a + of_nat i)" using i that by (intro low) simp
  qed
  have b: "unat mb + 96 < 4294967296" using assms(2) unat_u32_bound [of "sys_stack B"]
    unfolding info_below_stack_def stack_low_def by linarith
  have field: "mb_word ?m mb f = mb_word (mem s) mb f" if f: "offset_of multiboot_layout f + 4 \<le> 96" for f
  proof -
    have "unat (mb + of_nat (offset_of multiboot_layout f)) = unat mb + offset_of multiboot_layout f"
      using f b unat_of_nat32 [of "offset_of multiboot_layout f"] by (subst unat_add_small) simp_all
    then show ?thesis using f assms(2) by (simp add: get_word_def field_at_def word info_below_stack_def)
  qed
  have mods: "load32 ?m (mb_word (mem s) mb ''mods_addr'' + 4) = load32 (mem s) (mb_word (mem s) mb ''mods_addr'' + 4)"
    if c: "0 < mb_word (mem s) mb ''mods_count''"
  proof (rule word)
    have a: "unat (mb_word (mem s) mb ''mods_addr'') + 8 \<le> stack_low B" using c assms(2) by (simp add: info_below_stack_def)
    then have "unat (mb_word (mem s) mb ''mods_addr'' + 4) = unat (mb_word (mem s) mb ''mods_addr'') + 4"
      using unat_u32_bound [of "sys_stack B"] by (subst unat_add_small) (simp_all add: stack_low_def)
    then show "unat (mb_word (mem s) mb ''mods_addr'' + 4) + 4 \<le> stack_low B" using a by simp
  qed
  have "header_place mb (at_main B c s) = header_place mb s"
    using mods by (simp add: header_place_def field offsets) (simp add: at_main_def)
  moreover have "\<exists>n < 900. ?m (of_nat n) = 0"
  proof -
    obtain n where "n < 900" "mem s (of_nat n) = 0" using assms(1) by (auto simp: power_on_def)
    moreover from this have "unat (of_nat n :: u32) < stack_low B" using assms(3) unat_of_nat32 [of n] by (simp add: stack_low_def)
    ultimately show ?thesis using low by metis
  qed
  ultimately show ?thesis
    using assms(1) unfolding power_on_def by (simp add: field offsets) (simp add: at_main_def)
qed

lemma kernel_up_memory:
  assumes "kernel_up s e" and "\<And>x. e \<le> unat x \<Longrightarrow> m x = mem s x"
  shows "kernel_up (s\<lparr>mem := m\<rparr>) e"
proof -
  have L: "low_map s e (e div 4096 + 3)" using assms(1) by (simp add: kernel_up_def)
  have "load32 m a = load32 (mem s) a" if a: "e \<le> unat a" "unat a < e + 12288" for a
  proof (rule load32_cong)
    fix i :: nat assume "i < 4"
    moreover have "unat a + 4 < 4294967296" using a(2) L by (simp add: low_map_def low_place_def)
    ultimately have "unat (a + of_nat i) = unat a + i" using unat_of_nat32 [of i] by (subst unat_add_small) simp_all
    then show "m (a + of_nat i) = mem s (a + of_nat i)" using a(1) by (intro assms(2)) simp
  qed
  then have "low_map (s\<lparr>mem := m\<rparr>) e (e div 4096 + 3)" by (intro low_map_cong(1) [OF L]) simp_all
  then show ?thesis using assms(1) by (simp add: kernel_up_def kio_ok_def console_ok_def)
qed

lemma boot_idles:
  assumes "linked_image B s" and "power_on (ebx c) s e" and "info_below_stack B (ebx c) s"
    and "0xB9000 + 8192 \<le> unat (sys_stack B)" and "unat (sys_stack B) \<le> e"
  shows "\<exists>c' s'. run_code B start_code (c, s) = Inr (c', s') \<and> kernel_up s' e \<and>
    idling B c' s' (pics (drop (length (port_out s)) (port_out s')) mv) \<and> (counters m s \<longrightarrow> counters m s') \<and>
    next_codes n s' = next_codes n s \<and> mods_of s' = mods_of s"
proof -
  let ?s = "at_main B c s"
  obtain s0 where s0: "main (ebx c) ?s = Inr (0, s0)" "kernel_up s0 e" "devices_up ?s s0"
    using main_run [OF power_on_at_main [OF assms(2,3,4)]] by blast
  have cd: "cdecl B" using assms(1) by (simp add: linked_image_def)
  obtain c' m where r: "run_code B start_code (c, s) = Inr (c', s0\<lparr>mem := m\<rparr>)" "esp c' = sys_stack B - 4" "\<not> bit (eflags c') 9"
    "\<And>x. unat x < stack_low B \<or> unat (sys_stack B) \<le> unat x \<Longrightarrow> m x = mem s0 x"
    using start_run [OF cd assms(4) s0(1)] by blast
  let ?s' = "s0\<lparr>mem := m\<rparr>"
  have up: "kernel_up ?s' e" by (rule kernel_up_memory [OF s0(2) r(4)]) (use assms(5) in simp)
  have dev: "devices_up ?s ?s'" by (rule devices_up_later [OF s0(3)]) (simp_all add: spares_pics_same mods_of_def)
  note run = devices_up_running [OF dev up]
  have port: "port_out ?s = port_out s" "counters k ?s = counters k s" "next_codes n ?s = next_codes n s" "mods_of ?s = mods_of s" for k
    by (simp_all add: at_main_def counters_def next_codes_def mods_of_def)
  have "isr_stub ?s' = isr_stub s" "irq_stub ?s' = irq_stub s" using dev by (simp_all add: devices_up_def at_main_def)
  then have "linked_image B ?s'" using assms(1) by (simp add: linked_image_def)
  moreover have "stack_room B c'"
    using assms(4) unat_below [of 4 "sys_stack B"] unfolding stack_room_def stack_low_def r(2) by simp
  ultimately have "idling B c' ?s' (pics (drop (length (port_out s)) (port_out ?s')) mv)"
    using run(1) [of mv] run(2) up r(3) by (simp add: idling_def kernel_up_def port(1))
  then show ?thesis
    using r(1) up run(3-5) by (intro exI [of _ c'] exI [of _ ?s']) (simp add: port)
qed

section \<open>The other entry points\<close>

lemma gdt_flush_refined:
  "run_code B gdt_flush_code (c, s) =
     Inr (c\<lparr>eax := (eax c AND 0xFFFF0000) OR 0x10, esp := esp c + 4, eip := load32 (mem s) (esp c), sreg := \<lambda>_. 0x10\<rparr>, gdt_flush s)"
proof -
  have "(ucast ((w AND 0xFFFF0000) OR 0x10) :: u16) = 0x10" for w :: u32
    using low_half [of w "16"] by simp
  then show ?thesis by (simp add: gdt_flush_code_def gdt_flush_def all_sregs)
qed

lemma idt_load_refined:
  "run_code B idt_load_code (c, s) = Inr (c\<lparr>esp := esp c + 4, eip := load32 (mem s) (esp c)\<rparr>, idt_load s)"
  by (simp add: idt_load_code_def idt_load_def)

text \<open>The boot loader finds the magic number, and the header sums up to zero.\<close>

lemma mboot_header_valid: "hd mboot_header = 0x1BADB002" "sum_list mboot_header = 0"
  by (simp_all add: mboot_header_def)

section \<open>Properties\<close>

text \<open>C1. The whole program, from the boot loader on: \<open>start\<close> calls \<open>main\<close> with the pointer the loader left in \<open>ebx\<close>, and when it has
  returned the kernel is up and the processor idles. From then on timer and keyboard interrupts may come in any
  order: each of them is taken through its gate and its stub and ends with all registers and the interrupted
  stack as they were, the time is the number of timer interrupts, what is typed appears on the
  screen, and nothing but the devices' state, the screen and the free part of the stack has changed.\<close>

theorem kernel_runs:
  assumes "linked_image B s" and "power_on (ebx c) s e" and "info_below_stack B (ebx c) s"
    and "0xB9000 + 8192 \<le> unat (sys_stack B)" and "unat (sys_stack B) \<le> e" and "counters 0 s"
    and "mods_of s = (False, False, False)" and "next_codes (count_list es Key) s = concat (map strokes str)"
    and "set str \<subseteq> set typeable" and "count_list es Tick < 2147483648"
  shows "\<exists>c' s' mv' t. run_code B start_code (c, s) = Inr (c', s') \<and> kernel_up s' e \<and>
    mv' = pics (drop (length (port_out s)) (port_out s')) mv \<and>
    (\<forall>y. machine_run B es (c', s', mv') y \<longleftrightarrow> y = (c', t, mv')) \<and> counters (count_list es Tick) t \<and>
    screen_of t = fold scr_putch str (screen_of s') \<and> devices_only B c' s' t"
proof -
  obtain c' s' where b: "run_code B start_code (c, s) = Inr (c', s')" "kernel_up s' e"
    "idling B c' s' (pics (drop (length (port_out s)) (port_out s')) mv)" "counters 0 s'"
    "next_codes (count_list es Key) s' = concat (map strokes str)" "mods_of s' = (False, False, False)"
    using boot_idles [OF assms(1-5)] assms(6-8) by metis
  have "typed es s' = (str, (False, False, False))" using text_decode [OF assms(9), of False] by (simp add: typed_def b(5,6))
  moreover have "0 + count_list es Tick < 2147483648" using assms(10) by simp
  ultimately show ?thesis using idle_run [OF b(3,4), of es] b(1,2) by simp blast
qed

text \<open>C4. Interrupts are transparent, and refine the steps of the kernel: an interrupt of a device that comes while the processor
  executes code with the registers \<open>c\<close> makes the kernel step of the dispatcher in C, from the state with the saved registers on
  the stack, and ends with the same registers, flags and segments; no memory above the stack pointer or
  below the stack changes but by that step.\<close>

theorem interrupt_transparent:
  assumes "idling B c s mv" and "counters m s" and "m + 1 < 2147483648"
  shows "\<exists>s1 m1 s2 m2. kernel_step e (s1, mv) (s2, mv) \<and>
    s1 = s\<lparr>seg_cs := 0x08, int_flag := False, mem := m1\<rparr> \<and> (\<forall>x. off_stack B c x \<longrightarrow> m1 x = mem s x \<and> m2 x = mem s2 x) \<and>
    (\<forall>y. machine_step B e (c, s, mv) y \<longleftrightarrow> y = (c, s2\<lparr>mem := m2, seg_cs := seg_cs s, int_flag := True\<rparr>, mv))"
proof -
  note i = assms(1) [unfolded idling_def]
  have b: "m + count_list [e] Tick < 2147483648" using assms(3) by (cases e) simp_all
  obtain s1 m1 m2 where irq: "interrupt B (line_vector mv (line_of e)) None (c, s) =
      Inr (c, (served e s1)\<lparr>mem := m2, seg_cs := seg_cs s, int_flag := int_flag s\<rparr>)"
    "s1 = s\<lparr>seg_cs := 0x08, int_flag := False, mem := m1\<rparr>" "\<And>x. off_stack B c x \<Longrightarrow> m1 x = mem s x"
    "\<And>x. off_stack B c x \<Longrightarrow> m2 x = mem (served e s1) x"
    using irq_returns [where mv = mv, OF _ _ _ _ _ _ assms(2) b] i by blast
  have "running (s1, mv)" using i by (simp add: irq(2) running_def console_ok_def)
  then have k: "kernel_step e (s1, mv) (served e s1, mv)" by (simp add: kernel_step_iff)
  have idle: "idle_pics mv" "int_flag s" "port_out s1 = port_out s" using i by (simp_all add: running_def irq(2))
  have "machine_step B e (c, s, mv) y \<longleftrightarrow> y = (c, (served e s1)\<lparr>mem := m2, seg_cs := seg_cs s, int_flag := True\<rparr>, mv)" for y
    using served_pics [OF idle(1), of s1 e] irq(1) idle unfolding machine_step_simps by auto
  then show ?thesis using k irq(2-4) by blast
qed

text \<open>The exceptions for which the processor pushes an error code: besides 8 and 10 to 14 the alignment check, 17, and those that
  later processors added, 21, 29 and 30.\<close>

definition pushes_error_code :: "nat \<Rightarrow> bool" where
  "pushes_error_code v \<longleftrightarrow> v \<in> {8, 10, 11, 12, 13, 14, 17, 21, 29, 30}"

text \<open>C16. The stubs of the exceptions other than 17, 21, 29 and 30: with an error code exactly where the processor pushes one, and a
  zero pushed by the stub for the others, the dispatcher gets the vector, the error code and the interrupted code's
  registers in a \<open>struct regs\<close>. For the four vectors left out the processor pushes an error code that their stubs do not
  expect, and the structure is shifted, as is proved for 17 below.\<close>

theorem exception_framed:
  assumes "linked_image B s" and "vectors_set s" and "stack_room B c" and "v < 32"
    and "(ec \<noteq> None) = pushes_error_code v" and "v \<notin> {17, 21, 29, 30}"
  shows "\<exists>r s1 c1. shown_regs c s (of_nat v) (case ec of None \<Rightarrow> 0 | Some e \<Rightarrow> e) r \<and>
    (\<exists>m. s1 = s\<lparr>seg_cs := 0x08, int_flag := False, mem := m\<rparr> \<and> (\<forall>x. off_stack B c x \<longrightarrow> m x = mem s x)) \<and>
    interrupt B v ec (c, s) = res_bind (res_bind (fault_handler kernel_call r s1) (\<lambda>(_, s2).
      let (c2, m) = scratch B c1 (mem s2) in Inr (c2\<lparr>esp := esp c2 + 4\<rparr>, s2\<lparr>mem := m\<rparr>))) (run_code B stub_exit)"
proof -
  define bs :: "u8 list" where "bs = (if v \<in> {8, 10, 11, 12, 13, 14} then [of_nat v] else [0, of_nat v])"
  define err where "err = (case ec of None \<Rightarrow> 0 | Some e \<Rightarrow> e)"
  define s1 where "s1 = in_handler B C_fault_handler (stub_words ec bs (c, s)) c s"
  have "(v \<in> {8, 10, 11, 12, 13, 14}) = (ec \<noteq> None)" using assms(5,6) by (auto simp: pushes_error_code_def)
  then have ws: "rev (stub_words ec bs (c, s)) = (esp c - 68) # frame c s (of_nat v) err"
    using assms(4) pushed_vector [of v] by (cases ec) (auto simp: bs_def err_def stub_words_frame)
  have l: "length (stub_words ec bs (c, s)) = 18" using arg_cong [OF ws, of length] by (simp add: frame_def)
  have r: "stack_low B + 128 \<le> unat (esp c)" using assms(3) by (simp add: stack_room_def)
  have g: "stub_gate B v bs C_fault_handler s" unfolding bs_def by (rule isr_stub_gate [OF assms(1,2,4)])
  obtain c1 where run: "interrupt B v ec (c, s) =
    res_bind (res_bind (fault_handler kernel_call (regs_at (mem s1) (esp c - 68)) s1) (\<lambda>(_, s2).
      let (c2, m) = scratch B c1 (mem s2) in Inr (c2\<lparr>esp := esp c2 + 4\<rparr>, s2\<lparr>mem := m\<rparr>))) (run_code B stub_exit)"
    using exception_dispatch [OF assms(1) g, of ec c] r unfolding l s1_def [symmetric] by (auto simp: algebra_simps)
  note st = in_handler_stack [OF ws assms(3), where f = C_fault_handler, folded s1_def]
  have "mem s1 x = mem s x" if "off_stack B c x" for x by (intro st(3)) (use that r in \<open>auto simp: off_stack_def\<close>)
  moreover have "s1 = s\<lparr>seg_cs := 0x08, int_flag := False, mem := mem s1\<rparr>" by (simp add: s1_def in_handler_def)
  ultimately show ?thesis using run frame_shown [OF st(2)] unfolding err_def [symmetric] by blast
qed

text \<open>C34. The stub of vector 17 is one of those that push a zero as the error code, but for an alignment check the processor has pushed
  an error code already: what the dispatcher takes for the interrupted \<open>eip\<close> is that code, for \<open>cs\<close> the
  interrupted \<open>eip\<close>, and for the flags \<open>cs\<close>.\<close>

theorem alignment_check_misframed:
  assumes "linked_image B s" and "vectors_set s" and "stack_room B c"
  shows "\<exists>r s1 c1. int_no r = 17 \<and> err_code r = 0 \<and> r_eip r = err \<and> r_cs r = eip c \<and> r_eflags r = ucast (seg_cs s) \<and>
    interrupt B 17 (Some err) (c, s) = res_bind (res_bind (fault_handler kernel_call r s1) (\<lambda>(_, s2).
      let (c2, m) = scratch B c1 (mem s2) in Inr (c2\<lparr>esp := esp c2 + 4\<rparr>, s2\<lparr>mem := m\<rparr>))) (run_code B stub_exit)"
proof -
  let ?ws = "stub_words (Some err) [0, 17] (c, s)"
  define s1 where "s1 = in_handler B C_fault_handler ?ws c s"
  have l: "length ?ws = 19" by (simp add: stub_words_def gate_words_def saved_regs_def Let_def)
  have r: "4 * length ?ws + 4 \<le> unat (esp c)" using assms(3) l by (simp add: stack_room_def)
  have g: "stub_gate B 17 [0, 17] C_fault_handler s" using isr_stub_gate [OF assms(1,2), of 17] by simp
  obtain c1 where run: "interrupt B 17 (Some err) (c, s) =
    res_bind (res_bind (fault_handler kernel_call (regs_at (mem s1) (esp c - 72)) s1) (\<lambda>(_, s2).
      let (c2, m) = scratch B c1 (mem s2) in Inr (c2\<lparr>esp := esp c2 + 4\<rparr>, s2\<lparr>mem := m\<rparr>))) (run_code B stub_exit)"
    using exception_dispatch [OF assms(1) g r] unfolding l s1_def [symmetric] by (auto simp: algebra_simps)
  have "stacked (mem s1) (esp c - 80) (ret_addr B C_fault_handler # rev ?ws)"
    using in_handler_words(1) [OF r, of B C_fault_handler s] by (simp add: l s1_def [symmetric] diff_diff_eq)
  then have "stacked (mem s1) (esp c - 72) (drop 1 (rev ?ws))"
    by (simp add: stub_words_def gate_words_def saved_regs_def Let_def add.assoc)
  then have "int_no (regs_at (mem s1) (esp c - 72)) = 17 \<and> err_code (regs_at (mem s1) (esp c - 72)) = 0 \<and>
      r_eip (regs_at (mem s1) (esp c - 72)) = err \<and> r_cs (regs_at (mem s1) (esp c - 72)) = eip c \<and>
      r_eflags (regs_at (mem s1) (esp c - 72)) = ucast (seg_cs s)"
    by (simp add: stub_words_def gate_words_def saved_regs_def regs_at_def Let_def add.assoc)
  with run show ?thesis by blast
qed

text \<open>An image with the stubs where \<open>intr0\<close> has them, the stack below the end of the kernel, and functions that clobber what they may.\<close>

definition image1 :: image where
  "image1 = \<lparr>fun_addr = (\<lambda>f. case f of C_main \<Rightarrow> 0x101000 | C_fault_handler \<Rightarrow> 0x101400 | C_irq_handler \<Rightarrow> 0x101800),
     ret_addr = (\<lambda>f. 0x100700),
     code_at = (\<lambda>a. if a < 0x100400 then isr_code (unat (a - 0x100200) div 16) else irq_code (unat (a - 0x100400) div 16)),
     sys_stack = 0x10A000, scratch = (\<lambda>c m. (c\<lparr>eax := 1, ecx := 2, edx := 3, eflags := 0x44\<rparr>, m))\<rparr>"

definition cpu1 :: cpu where
  "cpu1 = \<lparr>eax = 0x2BADB002, ecx = 0, edx = 0, ebx = 0x9000, esp = 0, ebp = 0, esi = 0, edi = 0, eip = 0x10000C, eflags = 2,
     sreg = (\<lambda>_. 0x10)\<rparr>"

definition machine2 :: mm where
  "machine2 = machine1\<lparr>port_in := port_in sys0\<rparr>"

lemma image1_cdecl: "cdecl image1"
proof -
  have "(0x44 :: u32) = push_bit 2 1 OR push_bit 6 1" by simp
  then have "\<not> bit (0x44 :: u32) 9" by (simp only: bit_or_iff bit_push_bit_iff bit_1_iff) simp
  then show ?thesis by (simp add: cdecl_def image1_def)
qed

lemma image1_linked:
  assumes "isr_stub s = isr_stub intr0" and "irq_stub s = irq_stub intr0"
  shows "linked_image image1 s"
proof -
  have a: "unat (0x100200 + 16 * of_nat n :: u32) = 0x100200 + 16 * n" "unat (0x100400 + 16 * of_nat n :: u32) = 0x100400 + 16 * n"
    if "n < 32" for n
    using that unat_of_nat32 [of "0x100200 + 16 * n"] unat_of_nat32 [of "0x100400 + 16 * n"] by simp_all
  have k: "unat (16 * of_nat n :: u32) = 16 * n" if "n < 32" for n using that unat_of_nat32 [of "16 * n"] by simp
  have "code_at image1 (0x100200 + 16 * of_nat n) = isr_code n" if "n < 32" for n
    using that a [OF that] k [OF that] by (simp add: image1_def word_less_nat_alt)
  moreover have "code_at image1 (0x100400 + 16 * of_nat n) = irq_code n" if "n < 16" for n
  proof -
    have n: "n < 32" using that by simp
    show ?thesis using a(2) [OF n] k [OF n] by (simp add: image1_def word_less_nat_alt)
  qed
  moreover have "fun_addr image1 C_fault_handler \<noteq> fun_addr image1 C_irq_handler" by (simp add: image1_def)
  ultimately show ?thesis using image1_cdecl assms by (simp add: linked_image_def intr0_def desc.defs)
qed

lemma machine2_fields:
  "power_on 0x9000 machine2 0x10B000" "isr_stub machine2 = isr_stub intr0" "irq_stub machine2 = irq_stub intr0"
  "counters 0 machine2" "mods_of machine2 = (False, False, False)" "port_out machine2 = []"
  "mb_word (mem machine2) 0x9000 ''mods_count'' = 0"
proof -
  have "mb_word (mem machine1) 0x9000 ''mods_count'' = 0"
    by (simp add: get_word_def field_at_def offsets machine1_def load32_def)
  then show "power_on 0x9000 machine2 0x10B000" "mb_word (mem machine2) 0x9000 ''mods_count'' = 0"
    using machine1_on by (simp_all add: power_on_def machine2_def header_place_def)
  show "isr_stub machine2 = isr_stub intr0" "irq_stub machine2 = irq_stub intr0"
    by (simp_all add: machine2_def machine1_def sys0_def mm0_def kbd.defs kbd0_def timer.defs timer0_def intr.defs)
  show "counters 0 machine2" "mods_of machine2 = (False, False, False)" "port_out machine2 = []"
    using mm0_boot by (simp_all add: machine2_def machine1_def sys0_def counters_def mods_of_def)
qed

theorem kernel_runs_witness:
  "\<exists>c' s' mv' t. run_code image1 start_code (cpu1, machine2) = Inr (c', s') \<and>
    machine_run image1 [Key, Tick, Key, Key, Key, Tick, Key, Key] (c', s', mv') (c', t, mv') \<and> counters 2 t \<and>
    screen_of t = fold scr_putch [0x48, 0x69] (screen_of s')"
proof -
  let ?es = "[Key, Tick, Key, Key, Key, Tick, Key, Key]"
  note f = machine2_fields
  have codes: "concat (map strokes [0x48, 0x69]) = [0x2A, 0x23, 0xA3, 0xAA, 0x17, 0x97]" by code_simp
  have ty: "set [0x48, 0x69] \<subseteq> set typeable"
  proof -
    have "list_all (\<lambda>c. List.member typeable c) [0x48, 0x69]" by code_simp
    then show ?thesis by (simp add: list_all_iff)
  qed
  have nc: "next_codes (count_list ?es Key) machine2 = concat (map strokes [0x48, 0x69])"
    unfolding codes using mm0_boot
    by (simp add: next_codes_def machine2_def machine1_def sys0_def upt_rec numeral_eq_Suc)
  have "power_on (ebx cpu1) machine2 0x10B000" "info_below_stack image1 (ebx cpu1) machine2"
    "0xB9000 + 8192 \<le> unat (sys_stack image1)" "unat (sys_stack image1) \<le> 0x10B000"
    using f by (simp_all add: cpu1_def image1_def info_below_stack_def stack_low_def)
  note start = image1_linked [OF f(2,3)] this f(4,5)
  have ticks: "count_list ?es Tick = (2::nat)" and few: "count_list ?es Tick < 2147483648" by simp_all
  from kernel_runs [OF start nc ty few, of "(pic_on, pic_on)"] obtain c' s' mv' t where
    "run_code image1 start_code (cpu1, machine2) = Inr (c', s')"
    "\<forall>y. machine_run image1 ?es (c', s', mv') y \<longleftrightarrow> y = (c', t, mv')" "counters (count_list ?es Tick) t"
    "screen_of t = fold scr_putch [0x48, 0x69] (screen_of s')" by (elim exE conjE) blast
  moreover from this(3) have "counters 2 t" by (simp only: ticks)
  ultimately show ?thesis by blast
qed

text \<open>The kernel of \<open>sys0\<close> with its gates set, interrupted with the stack at \<open>0x109F00\<close>.\<close>

definition idle1 :: mm where
  "idle1 = sys0\<lparr>int_flag := True, textmemptr := 0xB8000, seg_cs := 0x08,
     idt := map (\<lambda>v. idt_entry_of (if v < 32 then isr_stub intr0 v else irq_stub intr0 (v - 32)) 0x08 0x8E) [0..<256]\<rparr>"

lemma idle1_stubs: "isr_stub idle1 = isr_stub intr0" "irq_stub idle1 = irq_stub intr0"
  by (simp_all add: idle1_def sys0_def mm0_def kbd.defs kbd0_def timer.defs timer0_def intr.defs)

lemma idle1_ready: "linked_image image1 idle1" "vectors_set idle1" "stack_room image1 (cpu1\<lparr>esp := 0x109F00\<rparr>)" "\<not> bit (eflags cpu1) 9"
proof -
  show "linked_image image1 idle1" by (rule image1_linked [OF idle1_stubs])
  show "vectors_set idle1" using idle1_stubs by (simp add: vectors_set_def, simp add: idle1_def del: upt_rec_numeral)
  show "stack_room image1 (cpu1\<lparr>esp := 0x109F00\<rparr>)" by (simp add: stack_room_def stack_low_def image1_def)
  have "(2 :: u32) = push_bit 1 1" by simp
  then have "\<not> bit (2 :: u32) 9" by (simp only: bit_push_bit_iff bit_1_iff) simp
  then show "\<not> bit (eflags cpu1) 9" by (simp add: cpu1_def)
qed

lemma idle1_idling: "idling image1 (cpu1\<lparr>esp := 0x109F00\<rparr>) idle1 (pic_on, pic_on)" "counters 0 idle1"
  using sys0_running idle1_ready by (simp_all add: idling_def running_def counters_def console_ok_def idle1_def)

theorem interrupt_transparent_witness:
  "\<exists>t. machine_step image1 Tick (cpu1\<lparr>esp := 0x109F00\<rparr>, idle1, pic_on, pic_on) (cpu1\<lparr>esp := 0x109F00\<rparr>, t, pic_on, pic_on) \<and>
    int_flag t \<and> seg_cs t = 0x08"
proof -
  have "(0 :: nat) + 1 < 2147483648" by simp
  from interrupt_transparent [OF idle1_idling this, of Tick] obtain s2 m2 where
    "\<forall>y. machine_step image1 Tick (cpu1\<lparr>esp := 0x109F00\<rparr>, idle1, pic_on, pic_on) y \<longleftrightarrow>
      y = (cpu1\<lparr>esp := 0x109F00\<rparr>, s2\<lparr>mem := m2, seg_cs := seg_cs idle1, int_flag := True\<rparr>, pic_on, pic_on)" by blast
  moreover have "seg_cs idle1 = 0x08" by (simp add: idle1_def)
  ultimately show ?thesis
    by (intro exI [of _ "s2\<lparr>mem := m2, seg_cs := seg_cs idle1, int_flag := True\<rparr>"]) simp
qed

theorem exception_framed_witness:
  "\<exists>r s1 K. shown_regs (cpu1\<lparr>esp := 0x109F00\<rparr>) idle1 13 0x1234 r \<and>
    interrupt image1 13 (Some 0x1234) (cpu1\<lparr>esp := 0x109F00\<rparr>, idle1) = res_bind (fault_handler kernel_call r s1) K"
proof -
  have v: "(13 :: nat) < 32" "(Some (0x1234 :: u32) \<noteq> None) = pushes_error_code 13" "(13 :: nat) \<notin> {17, 21, 29, 30}"
    by (simp_all add: pushes_error_code_def)
  show ?thesis using exception_framed [OF idle1_ready(1-3) v] by (auto simp: res_bind_assoc)
qed

theorem alignment_check_misframed_witness:
  "\<exists>r s1 K. int_no r = 17 \<and> r_eip r = 0 \<and> r_cs r = 0x10000C \<and>
    interrupt image1 17 (Some 0) (cpu1\<lparr>esp := 0x109F00\<rparr>, idle1) = res_bind (fault_handler kernel_call r s1) K"
proof -
  have "eip (cpu1\<lparr>esp := 0x109F00\<rparr>) = 0x10000C" by (simp add: cpu1_def)
  then show ?thesis using alignment_check_misframed [OF idle1_ready(1-3), of 0] by (auto simp: res_bind_assoc)
qed

end
