(* ===== verification/Spec2Isabelle.thy ===== *)
theory Spec2Isabelle
  imports OS_Prelude Machine Console Kprintf Panic Messages Descriptors Interrupts Timer Keyboard Frames Paging
    Paging_Install Bins Skip_List Alloc Heap_Inv Heap_Small Heap_Ops Heap_Big Heap Heap_Api Structs Vfs Boot System Driver_Types Bringup Stubs
begin

text \<open>
  A verification library for PRos, a small kernel for 32-bit x86 in C: text console, formatted output, panic,
  descriptor tables, interrupts, timer, keyboard, physical and virtual memory, a slab and skip list heap, and
  the beginnings of a file system. Every function of the C files is a definition here; the theorems
  say what the functions do, where they are right and where they are not.

  \<^bold>\<open>The parts and how they interact.\<close>
  The boot loader jumps to \<open>start\<close> (\<open>start.asm\<close>), which calls \<open>main\<close> (\<open>main.c\<close>) with a multiboot header. \<open>main\<close> saves the header, installs the
  segment and interrupt tables, programs the interrupt controllers, the display, the timer and the keyboard,
  and then turns paging on and opens the heap. Everything prints through \<open>putch\<close> of the console, mostly by way of \<open>kprintf\<close>
  with its static buffer. A failed \<open>ASSERT\<close>, a page fault, an exception without a handler and a lack of
  frames end in \<open>halt_and_catch_fire\<close>. Interrupts arrive through the
  stubs of \<open>start.asm\<close> at \<open>irq_handler\<close>, which calls the handler that was installed and
  acknowledges. The heap grows by \<open>sbrk\<close>, which backs each new page with a frame through \<open>get_page\<close> and \<open>alloc_frame\<close>.

  \<^bold>\<open>How C becomes HOL.\<close>
  Integers are words of their width, so \<open>+\<close> wraps; \<open>int\<close> comparisons are signed (\<open><s\<close>, \<open><=s\<close>); pointers are 32-bit
  words into one memory \<open>mem\<close> of type \<open>u32 \<Rightarrow> u8\<close>, little-endian. The static variables of each file are a record that
  extends the record of the files below it: \<open>machine\<close> (memory, ports, interrupt flag), \<open>console\<close>, \<open>kio\<close>, \<open>desc\<close>, \<open>intr\<close>,
  \<open>timer\<close>, \<open>kbd\<close>, \<open>mm\<close>, \<open>heap\<close>; a function is generic in the extension, so \<open>kprintf\<close> runs on the state of the heap
  unchanged. A function that may stop the machine or run out of an array returns a \<open>result\<close>, which is \<open>Inl\<close> a fault or \<open>Inr\<close> a value
  and the new state; \<open>res_bind\<close> composes them. Data that C code reaches through pointers - page tables, the frame
  bitmap, heap headers and cells, skip list links, file nodes - lies in \<open>mem\<close> at its C offsets, so aliasing and
  overlap are visible. Ports are a trace of writes and a stream of values to be read. Function pointers are a
  datatype of the handlers (\<open>intr\<close>), or addresses that a parameter gives a meaning (\<open>vfs.c\<close>).

  \<^bold>\<open>The theories.\<close>
  \<^item> \<open>OS_Prelude\<close>: word types, faults and results, lemmas on words. \<open>Machine\<close>: memory, ports, and the primitives of
    \<open>core/kernel.c\<close>; loads from what did not change (\<open>apart\<close>, \<open>aligned4\<close>).
  \<^item> \<open>Console\<close> (\<open>core/vga.c\<close>): the text memory. \<open>screen_of\<close> abstracts it to 25 rows of 80 cells; every operation refines one
    on that screen.
  \<^item> \<open>Kprintf\<close> (\<open>core/kprintf.c\<close>): \<open>render\<close> is the structural meaning of a format string; \<open>kprintf\<close> prints it, or
    overruns the buffer. \<open>Panic\<close> (\<open>core/panic.c\<close>, \<open>ASSERT\<close>): the report and the halt. \<open>Messages\<close>: the same for
    messages given as lists of pieces, for the theories that print.
  \<^item> \<open>Descriptors\<close> (\<open>core/GDT.c\<close>, \<open>core/IDT.c\<close>): the tables, as the processor decodes them. \<open>Interrupts\<close> (\<open>core/isrs.c\<close>,
    \<open>core/irq.c\<close>): the dispatchers, with a model of the two 8259 controllers that reads the port trace.
  \<^item> \<open>Timer\<close> (\<open>core/timer.c\<close>) and \<open>Keyboard\<close> (\<open>core/kbd.c\<close>): the handlers; what a stream of scan codes types (\<open>decode\<close>).
  \<^item> \<open>Frames\<close> (\<open>core/mem.c\<close>, lines 1 to 164): the placement allocator and the frame bitmap, as a pool of free frames (locale
    \<open>frame_pool\<close>). \<open>Paging\<close> (the rest of \<open>core/mem.c\<close>): page tables, as the processor walks them (\<open>mmu_walk\<close>),
    the page fault handler, \<open>sbrk\<close>; the two loops that map pages share the locale \<open>page_loop\<close>. \<open>Paging_Install\<close>: \<open>paging_install\<close> to its
    end, on the machines on which directory and bitmap do not get in each other's way.
  \<^item> \<open>Bins\<close>, \<open>Skip_List\<close>, \<open>Alloc\<close> (\<open>core/alloc.c\<close>): size classes, the stack of cells and the random levels; the skip list of free
    big blocks, as a list sorted by size (locale \<open>best_fit\<close>); \<open>klmalloc\<close>, \<open>klfree\<close>, \<open>klrealloc\<close>, \<open>klcalloc\<close>.
  \<^item> \<open>Heap_Inv\<close>: the invariant \<open>heap_ok\<close>, with a ghost map of the pages the heap owns. \<open>Heap_Small\<close>, \<open>Heap_Big\<close>, \<open>Heap_Ops\<close>: both
    kinds of block, taken and given back. \<open>Heap\<close>: the contract, as the locale \<open>allocator\<close> and its interpretation.
    \<open>Heap_Api\<close>: \<open>malloc\<close>, \<open>free\<close>, \<open>realloc\<close>, \<open>calloc\<close>, and clients that use them in any order.
  \<^item> \<open>Structs\<close>: C structures in memory. \<open>Vfs\<close> (\<open>core/vfs.c\<close>, \<open>core/fs/ext2_initrd.c\<close>, \<open>include/fs.h\<close>, \<open>include/ext2.h\<close>): the file
    system switch and the ramdisk driver.
  \<^item> \<open>Boot\<close> (\<open>main.c\<close>, \<open>core/multiboot.c\<close>): the boot sequence and the report of the header. \<open>System\<close>: the kernel after boot,
    as a step relation over timer and keyboard interrupts. \<open>Bringup\<close>: \<open>main\<close> as a whole, and the heap after it.
  \<^item> \<open>Driver_Types\<close>: the typing of the drivers' variables (\<open>drivers_typed\<close>), and what every function of the console, the panics,
    the tables, the interrupts, the timer and the keyboard does to it, for all arguments (\<open>driver_call\<close>, \<open>perform\<close>).
  \<^item> \<open>Stubs\<close> (\<open>start.asm\<close>): the entry point, the routines behind \<open>gdt_flush\<close> and \<open>idt_load\<close> and the interrupt stubs, as lists of
    instructions that run on the processor's registers (record \<open>cpu\<close>) and the kernel's state; the machine, whose steps are interrupts taken
    through a gate and its stub.

  \<^bold>\<open>What is proved.\<close>
  The properties are numbered C1, C2, ... in the order of their importance, each stated above its theorem.
  \<^item> Refinement: the console implements an abstract screen, \<open>kprintf\<close> prints the rendering, \<open>get_page\<close> and
    \<open>alloc_frame\<close> make the processor translate an address to the least free frame, \<open>sbrk\<close> backs a range with
    distinct frames, the skip list is a sorted list, \<open>malloc\<close> and \<open>free\<close> move blocks in and out of the set in use.
  \<^item> Invariants: the heap stays well formed, and the blocks clients hold stay disjoint, in every reachable state; the running
    kernel keeps its handlers, its screen and idle controllers.
  \<^item> Composition: \<open>main\<close> returns with paging on, the low memory mapped one to one, and a heap that serves; from the
    entry point on, every interleaving of interrupts, through gates and stubs, is served with all registers restored,
    counts the ticks and shows what is typed.
  \<^item> Types: the arrays of the drivers keep their lengths and indices stay within them through every call of a driver's function,
    panics included, with no memory changed but the screen's, and the calls that leave an array or divide by zero are exactly
    those with arguments out of range. The functions that write through pointers, of memory management, the heap, the
    file system and the boot sequence, have the invariants above instead.
  \<^item> Error behaviour: the panics and their reports, running out of frames, misaligned \<open>sbrk\<close>, the overrun of the print buffer.
  \<^item> Where the code does not do what it means to: \<open>paging_install\<close> lays the directory over the frame bitmap and over the
    saved multiboot header, \<open>free_frame\<close> leaks, \<open>klrealloc\<close> copies too much, modifiers invert when their key
    is held, the ramdisk driver gives no node a type, the stub of the alignment check shifts the registers by a word.

  \<^bold>\<open>Loops, bounds and fuel.\<close>
  Counted loops are folds over the index range. The loops that end by a condition on the state (\<open>strlen\<close>,
  \<open>keyboard_wait\<close>, the page loops of \<open>sbrk\<close> and \<open>paging_install\<close>, the walks along the skip list) are
  \<open>partial_function (option)\<close> without fuel, where None means that the loop does not end; the properties state
  termination as a result \<open>Some\<close> or, through \<open>loop_result\<close>, \<open>Inr\<close>. \<open>timer_wait\<close> recurs over the interrupts that arrive between
  its tests, and the format loop of \<open>kprintf\<close> over the rest of the format. Strings end at the first zero byte; a string in
  memory is read for the 1024 bytes that \<open>kprintf\<close> can hold before it overruns. Heap requests are below \<open>2 ^ 31 - 44\<close> bytes: the size comparison
  in the skip list is signed.

  \<^bold>\<open>Not modelled.\<close>
  \<^item> The code that the compiler makes of the C functions: the stubs call them by the calling convention (\<open>cdecl\<close>), with the addresses,
    the scratch registers and the use of the stack as parameters (record \<open>image\<close>). Interrupts that arrive while \<open>main\<close> still runs
    are taken to arrive after it; encodings and timing of instructions.
  \<^item> The code of \<open>core/alloc.c\<close> between \<open>#if 0\<close> and \<open>#endif\<close> (splitting and coalescing), which is not compiled.
  \<^item> The compiled image: the C variables of the kernel are not in \<open>mem\<close>, and stray writes to them are not seen.
  \<^item> The boot of machines with more than 125 MB of memory, or a kernel that ends above 4 MB: the bitmap then overlaps the processor's half
    of the directory, or the kernel needs a second page table; \<open>main\<close> is defined for them, and nothing is proved.
  \<^item> Prototypes, include guards and build files.
\<close>

end
